(* ===== verification/Prelude.thy ===== *)
theory Prelude
  imports Main "HOL-Library.Word"
begin

text \<open>
  Shared vocabulary of the ApiGate development: machine integers at the width the C++ code
  declares, the exceptions the code throws as values of a sum type, \<open>std::vector::at\<close>,
  generic lemmas on words and lists, and the interfaces (locales) that several components
  implement:
  \<^item> \<open>permit_ledger\<close>: a counted resource handed out as RAII permits
    (\<open>BufferBudgetState\<close>/\<open>BufferBudgetPermit\<close> and
    \<open>ProxyAdmissionState\<close>/\<open>ProxyPermit\<close>);
  \<^item> \<open>claim_once\<close>: a flag that exactly one caller can claim
    (\<open>ProxyCompletionState\<close> and \<open>RuntimeFailureState\<close>);
  \<^item> \<open>step_invariant\<close>: a deterministic machine with an invariant every step keeps;
  \<^item> \<open>total_steps\<close> and \<open>total_progress\<close>: a machine whose steps may fail to return, with the proof that
    they do (the server), and that they make progress towards a goal (the process).
\<close>

section \<open>Types\<close>

type_synonym u8 = "8 word"
type_synonym u16 = "16 word"
type_synonym u32 = "32 word"
type_synonym u64 = "64 word"
type_synonym usize = "64 word"

text \<open>
  \<open>std::chrono::steady_clock::time_point\<close>: a signed 64-bit count of nanoseconds. The word
  is compared through \<open>sint\<close>.
\<close>

type_synonym time_point = "64 word"

text \<open>The exceptions the code throws, with the message where the code gives one.\<close>

datatype exn =
    Invalid_argument string
  | Logic_error string
  | Out_of_range
  | Length_error string
  | Runtime_error string
  | Config_error string
  | Bad_alloc

type_synonym 'a result = "exn + 'a"

text \<open>
  \<open>boost::system::error_code\<close>: no error, or one of the codes the program compares with, or
  any other code. \<open>None\<close> is the value that converts to \<open>false\<close>.
\<close>

datatype error_value =
    Operation_aborted
  | Broken_pipe
  | Connection_aborted
  | Connection_reset
  | Eof
  | Bad_descriptor
  | Not_connected
  | Invalid_argument_code
  | Timed_out
  | Beast_timeout
  | Stream_truncated
  | End_of_stream
  | Body_limit
  | Header_limit
  | Need_buffer
  | Other_error nat

type_synonym error_code = "error_value option"

section \<open>Collections of facts\<close>

named_theorems word_arith \<open>unsigned readings of word operations that do not wrap\<close>
named_theorems op_defs \<open>definitions of the operations of a component\<close>

section \<open>Generic operations of the language\<close>

text \<open>\<open>std::vector::at\<close> throws \<open>std::out_of_range\<close>.\<close>

definition vec_at :: "'a list \<Rightarrow> nat \<Rightarrow> 'a result" where
  "vec_at xs i = (if i < length xs then Inr (xs ! i) else Inl Out_of_range)"

text \<open>Sequencing of code that may throw: the first exception wins.\<close>

definition bind_result :: "'a result \<Rightarrow> ('a \<Rightarrow> 'b result) \<Rightarrow> 'b result" where
  "bind_result r f = (case r of Inl e \<Rightarrow> Inl e | Inr a \<Rightarrow> f a)"

fun map_result :: "('a \<Rightarrow> 'b result) \<Rightarrow> 'a list \<Rightarrow> 'b list result" where
  "map_result f [] = Inr []"
| "map_result f (x # xs) =
     bind_result (f x) (\<lambda>y. bind_result (map_result f xs) (\<lambda>ys. Inr (y # ys)))"

text \<open>\<open>std::numeric_limits\<close> of the 64-bit types.\<close>

definition u64_max :: u64 where
  "u64_max = 18446744073709551615"

definition time_max :: time_point where
  "time_max = 9223372036854775807"

text \<open>
  \<open>now > time_point::max() - d ? time_point::max() : now + d\<close>, the saturating deadline that
  the connection pool and the probe schedule compute.
\<close>

definition deadline_after :: "time_point \<Rightarrow> u64 \<Rightarrow> time_point" where
  "deadline_after now d =
     (if sint (time_max - d) < sint now then time_max else now + d)"

text \<open>
  A loop that visits the slots of a vector of size \<open>n\<close> cyclically from \<open>i\<close>, at most
  \<open>fuel\<close> of them, and stops at the first that satisfies \<open>P\<close>. The code has two such loops
  (\<open>ProbeSchedule::take_due\<close> and \<open>RouteProxyAdmission::try_acquire\<close>), each visiting every
  slot at most once; both are related to the cyclic order \<open>rotation n i\<close>.
\<close>

definition next_index :: "nat \<Rightarrow> nat \<Rightarrow> nat" where
  "next_index n i = (if i + 1 = n then 0 else i + 1)"

fun scan_from :: "nat \<Rightarrow> (nat \<Rightarrow> bool) \<Rightarrow> nat \<Rightarrow> nat \<Rightarrow> nat option" where
  "scan_from 0 P n i = None"
| "scan_from (Suc fuel) P n i = (if P i then Some i else scan_from fuel P n (next_index n i))"

definition rotation :: "nat \<Rightarrow> nat \<Rightarrow> nat list" where
  "rotation n i = map (\<lambda>k. (i + k) mod n) [0..<n]"

text \<open>How many steps the cyclic order takes from \<open>i\<close> to \<open>j\<close>.\<close>

definition cyclic_distance :: "nat \<Rightarrow> nat \<Rightarrow> nat \<Rightarrow> nat" where
  "cyclic_distance n i j = (j + n - i) mod n"

text \<open>A machine run over a list of events.\<close>

definition run_steps :: "('s \<Rightarrow> 'e \<Rightarrow> 's) \<Rightarrow> 's \<Rightarrow> 'e list \<Rightarrow> 's" where
  "run_steps step s es = foldl step s es"

text \<open>A step that may not return.\<close>

fun run_option :: "('e \<Rightarrow> 's \<Rightarrow> 's option) \<Rightarrow> 'e list \<Rightarrow> 's \<Rightarrow> 's option" where
  "run_option step [] s = Some s"
| "run_option step (e # es) s = Option.bind (step e s) (run_option step es)"

text \<open>
  Permits held in the variables of the program. \<open>Acquire\<close> constructs a permit in a new
  variable when the resource grants it, \<open>Touch\<close> calls an operation on the permit of one
  variable, \<open>Move_assign i j\<close> is \<open>v\<^sub>i = std::move(v\<^sub>j)\<close>. An index that is no variable
  changes nothing.
\<close>

datatype ('r, 'o) ledger_op = Acquire 'r | Touch nat 'o | Move_assign nat nat

fun ledger_step ::
  "('s \<Rightarrow> 'r \<Rightarrow> 's \<times> 'p option) \<Rightarrow> ('s \<Rightarrow> 'p \<Rightarrow> 'o \<Rightarrow> 's \<times> 'p) \<Rightarrow>
   ('s \<Rightarrow> 'p \<Rightarrow> 'p \<Rightarrow> 's \<times> 'p \<times> 'p) \<Rightarrow>
   's \<times> 'p list \<Rightarrow> ('r, 'o) ledger_op \<Rightarrow> 's \<times> 'p list" where
  "ledger_step acq tch mv (s, ps) (Acquire r) =
     (case acq s r of (s', None) \<Rightarrow> (s', ps) | (s', Some p) \<Rightarrow> (s', ps @ [p]))"
| "ledger_step acq tch mv (s, ps) (Touch i x) =
     (if i < length ps then (case tch s (ps ! i) x of (s', p) \<Rightarrow> (s', ps[i := p])) else (s, ps))"
| "ledger_step acq tch mv (s, ps) (Move_assign i j) =
     (if i < length ps \<and> j < length ps \<and> i \<noteq> j
      then (case mv s (ps ! i) (ps ! j) of (s', p, q) \<Rightarrow> (s', ps[i := p, j := q]))
      else (s, ps))"

section \<open>Lemmas on results\<close>

lemma bind_result_simps [simp]:
  "bind_result (Inl e) f = Inl e"
  "bind_result (Inr a) f = f a"
  by (simp_all add: bind_result_def)

lemma bind_result_InrE:
  assumes "bind_result r f = Inr b"
  obtains a where "r = Inr a" and "f a = Inr b"
  using assms by (cases r) auto

lemma vec_at_Inr [simp]: "vec_at xs i = Inr x \<longleftrightarrow> i < length xs \<and> x = xs ! i"
  by (auto simp: vec_at_def)

lemma vec_at_Inl [simp]: "vec_at xs i = Inl e \<longleftrightarrow> length xs \<le> i \<and> e = Out_of_range"
  by (auto simp: vec_at_def)

lemma map_result_length: "map_result f xs = Inr ys \<Longrightarrow> length ys = length xs"
  by (induction xs arbitrary: ys) (auto elim!: bind_result_InrE)

lemma map_result_nth:
  "map_result f xs = Inr ys \<Longrightarrow> i < length xs \<Longrightarrow> f (xs ! i) = Inr (ys ! i)"
proof (induction xs arbitrary: ys i)
  case Nil
  then show ?case by simp
next
  case (Cons x xs)
  then show ?case by (cases i) (auto elim!: bind_result_InrE)
qed

lemma map_result_total:
  "(\<And>x. x \<in> set xs \<Longrightarrow> \<exists>y. f x = Inr y) \<Longrightarrow> \<exists>ys. map_result f xs = Inr ys"
proof (induction xs)
  case Nil
  then show ?case by simp
next
  case (Cons x xs)
  then obtain y ys where "f x = Inr y" "map_result f xs = Inr ys" by fastforce
  then show ?case by simp
qed

section \<open>Lemmas on words\<close>

lemma unat_lt2p_word: "unat (x :: 'a :: len word) < 2 ^ LENGTH('a)"
  by simp

lemma unat_add_bound:
  "unat a + unat b < 2 ^ LENGTH('a) \<Longrightarrow> unat (a + b) = unat a + unat (b :: 'a :: len word)"
  by (simp add: unat_add_lem)

lemma unat_dec [word_arith]: "0 < x \<Longrightarrow> unat (x - 1) = unat (x :: 'a :: len word) - 1"
  by (rule unat_minus_one) auto

lemma unat_inc [word_arith]:
  "x < y \<Longrightarrow> unat (x + 1) = Suc (unat (x :: 'a :: len word))"
proof -
  assume "x < y"
  then have "Suc (unat x) \<le> unat y"
    by (simp add: word_less_nat_alt Suc_le_eq)
  also have "\<dots> < 2 ^ LENGTH('a)"
    by (rule unat_lt2p_word)
  finally have "unat x + unat (1 :: 'a word) < 2 ^ LENGTH('a)"
    by simp
  then have "unat (x + 1) = unat x + unat (1 :: 'a word)"
    by (rule unat_add_bound)
  then show ?thesis by simp
qed

lemma unat_sub_le [word_arith]:
  "b \<le> a \<Longrightarrow> unat (a - b) = unat a - unat (b :: 'a :: len word)"
  by (rule unat_sub)

lemma unat_add_within [word_arith]:
  "b \<le> m - a \<Longrightarrow> a \<le> m \<Longrightarrow> unat (a + b) = unat a + unat (b :: 'a :: len word)"
proof -
  assume b: "b \<le> m - a" and a: "a \<le> m"
  have "unat b \<le> unat m - unat a"
    using b a by (simp add: word_le_nat_alt unat_sub)
  moreover have "unat a \<le> unat m"
    using a by (simp add: word_le_nat_alt)
  moreover have "unat m < 2 ^ LENGTH('a)"
    by (rule unat_lt2p_word)
  ultimately have "unat a + unat b < 2 ^ LENGTH('a)"
    by linarith
  then show ?thesis by (rule unat_add_bound)
qed

lemma unat_mult_bound:
  "unat a * unat b < 2 ^ LENGTH('a) \<Longrightarrow> unat (a * b) = unat a * unat (b :: 'a :: len word)"
  by (simp add: unat_mult_lem)

lemma unat_ucast_u32 [simp]: "unat (ucast (x :: u32) :: u64) = unat x"
proof -
  have "unat x < 2 ^ LENGTH(32)"
    by (rule unat_lt2p_word)
  then show ?thesis
    by (simp add: unsigned_ucast_eq take_bit_nat_eq_self_iff)
qed

section \<open>Lemmas on lists\<close>

lemma sum_list_update_nat:
  "i < length (xs :: nat list) \<Longrightarrow> sum_list (xs[i := v]) + xs ! i = sum_list xs + v"
proof (induction xs arbitrary: i)
  case Nil
  then show ?case by simp
next
  case (Cons x xs)
  then show ?case by (cases i) auto
qed

lemma nth_le_sum_list: "i < length xs \<Longrightarrow> xs ! i \<le> sum_list (xs :: nat list)"
  by (simp add: member_le_sum_list)

lemma nth_update_if: "k < length xs \<Longrightarrow> xs[i := x] ! k = (if i = k then x else xs ! k)"
  by simp

lemma map_update_same: "f x = f (xs ! i) \<Longrightarrow> map f (xs[i := x]) = map f xs"
  by (metis list_update_id map_update)

lemma count_update:
  "i < length xs \<Longrightarrow>
   length (filter P (xs[i := x])) + (if P (xs ! i) then 1 else 0) =
   length (filter P xs) + (if P x then 1 else 0)"
proof (induction xs arbitrary: i)
  case Nil
  then show ?case by simp
next
  case (Cons y ys)
  then show ?case by (cases i) (auto split: if_splits)
qed

section \<open>Lemmas on cyclic scans\<close>

lemma next_index_mod: "i < n \<Longrightarrow> next_index n i = (i + 1) mod n"
  by (auto simp: next_index_def)

lemma next_index_less: "i < n \<Longrightarrow> next_index n i < n"
  by (auto simp: next_index_def)

lemma scan_from_find:
  "i < n \<Longrightarrow> scan_from fuel P n i = find P (map (\<lambda>k. (i + k) mod n) [0..<fuel])"
proof (induction fuel arbitrary: i)
  case 0
  then show ?case by simp
next
  case (Suc fuel)
  have "map (\<lambda>k. (i + k) mod n) [0..<Suc fuel] =
      i # map (\<lambda>k. (next_index n i + k) mod n) [0..<fuel]"
  proof -
    have "map f [0..<Suc fuel] = f 0 # map (\<lambda>k. f (Suc k)) [0..<fuel]" for f :: "nat \<Rightarrow> nat"
      by (induction fuel) simp_all
    then have "map (\<lambda>k. (i + k) mod n) [0..<Suc fuel] =
        (i + 0) mod n # map (\<lambda>k. (i + Suc k) mod n) [0..<fuel]" .
    moreover have "(\<lambda>k. (i + Suc k) mod n) = (\<lambda>k. (next_index n i + k) mod n)"
      using Suc.prems by (intro ext) (simp add: next_index_mod mod_add_left_eq)
    ultimately show ?thesis
      using Suc.prems by (simp only: mod_less add_0_right)
  qed
  then show ?case
    using Suc.IH [OF next_index_less [OF Suc.prems]] by (simp del: upt_Suc)
qed

lemma scan_from_rotation: "i < n \<Longrightarrow> scan_from n P n i = find P (rotation n i)"
  by (simp add: scan_from_find rotation_def)

lemma set_rotation: "i < n \<Longrightarrow> set (rotation n i) = {..<n}"
proof
  assume i: "i < n"
  show "set (rotation n i) \<subseteq> {..<n}"
    using i by (auto simp: rotation_def)
  show "{..<n} \<subseteq> set (rotation n i)"
  proof
    fix j assume "j \<in> {..<n}"
    then have "(i + (j + n - i) mod n) mod n = j" "(j + n - i) mod n < n"
      using i by (simp_all add: mod_add_right_eq)
    then have "j \<in> (\<lambda>k. (i + k) mod n) ` {0..<n}"
      by (intro image_eqI [where x = "(j + n - i) mod n"]) simp_all
    then show "j \<in> set (rotation n i)"
      by (simp add: rotation_def)
  qed
qed

lemma find_rotation_Some:
  assumes "i < n" and "find P (rotation n i) = Some j"
  shows "j < n" and "P j"
    and "\<And>k. k < n \<Longrightarrow> cyclic_distance n i k < cyclic_distance n i j \<Longrightarrow> \<not> P k"
proof -
  obtain d where d: "d < n" "j = (i + d) mod n" "P j" "\<forall>k<d. \<not> P ((i + k) mod n)"
    using assms(2) by (auto simp: find_Some_iff rotation_def)
  show "j < n" "P j"
    using d assms(1) by auto
  have dj: "cyclic_distance n i j = d"
  proof (cases "i + d < n")
    case True
    then show ?thesis using d by (simp add: cyclic_distance_def)
  next
    case False
    then have "j = i + d - n"
      using d assms(1) by (simp add: mod_if)
    then show ?thesis using False d assms(1) by (simp add: cyclic_distance_def)
  qed
  fix k assume k: "k < n" "cyclic_distance n i k < cyclic_distance n i j"
  have "(i + cyclic_distance n i k) mod n = k"
    using k(1) assms(1) by (simp add: cyclic_distance_def mod_add_right_eq)
  then show "\<not> P k"
    using d(4) k(2) dj by auto
qed

lemma find_rotation_None: "i < n \<Longrightarrow> find P (rotation n i) = None \<longleftrightarrow> (\<forall>j<n. \<not> P j)"
  by (auto simp: find_None_iff set_rotation)

lemma cyclic_distance_inj:
  assumes "i < n" "j < n" "k < n" "cyclic_distance n i j = cyclic_distance n i k"
  shows "j = k"
proof -
  have "(i + cyclic_distance n i m) mod n = m" if "m < n" for m
    using that assms(1) by (simp add: cyclic_distance_def mod_add_right_eq)
  then show ?thesis using assms by metis
qed

lemma cyclic_distance_next:
  assumes "i < n" "j < n" "k < n"
    and "cyclic_distance n i j < cyclic_distance n i k"
  shows "cyclic_distance n (next_index n j) k < cyclic_distance n i k"
proof -
  have d: "cyclic_distance n a b = (if a \<le> b then b - a else b + n - a)" if "a < n" "b < n" for a b
    using that by (auto simp: cyclic_distance_def mod_if)
  show ?thesis
    using assms next_index_less [OF assms(2)]
    by (simp add: d) (auto simp: next_index_def split: if_splits)
qed

section \<open>Interfaces\<close>

subsection \<open>A machine with an invariant\<close>

locale step_invariant =
  fixes step :: "'s \<Rightarrow> 'e \<Rightarrow> 's" and inv :: "'s \<Rightarrow> bool"
  assumes step_inv: "inv s \<Longrightarrow> inv (step s e)"
begin

lemma run_inv: "inv s \<Longrightarrow> inv (run_steps step s es)"
  by (induction es arbitrary: s) (simp_all add: run_steps_def step_inv)

end

text \<open>A machine whose steps return and keep an invariant, on the events that are allowed.\<close>

locale total_steps =
  fixes step :: "'e \<Rightarrow> 's \<Rightarrow> 's option" and allowed :: "'e \<Rightarrow> bool" and inv :: "'s \<Rightarrow> bool"
  assumes step_total: "inv s \<Longrightarrow> allowed e \<Longrightarrow> \<exists>s'. step e s = Some s' \<and> inv s'"
begin

lemma run_total: "inv s \<Longrightarrow> list_all allowed es \<Longrightarrow> \<exists>s'. run_option step es s = Some s' \<and> inv s'"
proof (induction es arbitrary: s)
  case (Cons e es)
  then show ?case
    using step_total [of s e] by fastforce
qed simp

end

text \<open>Steps that bring a rank up to a goal: some events raise it, and no event lowers it.\<close>

locale total_progress = total_steps +
  fixes gain :: "'a \<Rightarrow> nat" and rank :: "'b \<Rightarrow> nat" and goal :: nat
  assumes step_gain: "inv s \<Longrightarrow> allowed e \<Longrightarrow> step e s = Some s' \<Longrightarrow> min goal (rank s + gain e) \<le> rank s'"
begin

lemma run_progress:
  "inv s \<Longrightarrow> list_all allowed es \<Longrightarrow>
   \<exists>s'. run_option step es s = Some s' \<and> inv s' \<and> min goal (rank s + sum_list (map gain es)) \<le> rank s'"
proof (induction es arbitrary: s)
  case (Cons e es)
  then obtain t where t: "step e s = Some t" "inv t"
    using step_total [of s e] by auto
  moreover have "min goal (rank s + gain e) \<le> rank t"
    using Cons.prems step_gain t(1) by simp
  ultimately show ?case
    using Cons.IH [of t] Cons.prems by fastforce
qed simp

end

subsection \<open>A counted resource with permits\<close>

text \<open>
  \<open>used\<close> and \<open>limit\<close> read the resource, \<open>held\<close> is what a permit accounts for. Every
  operation moves units between the resource and the permits it touches and never loses one.
\<close>

locale permit_ledger =
  fixes used :: "'s \<Rightarrow> nat" and limit :: "'s \<Rightarrow> nat" and held :: "'p \<Rightarrow> nat"
    and acq :: "'s \<Rightarrow> 'r \<Rightarrow> 's \<times> 'p option"
    and tch :: "'s \<Rightarrow> 'p \<Rightarrow> 'o \<Rightarrow> 's \<times> 'p"
    and mv :: "'s \<Rightarrow> 'p \<Rightarrow> 'p \<Rightarrow> 's \<times> 'p \<times> 'p"
  assumes acq_grant: "used s \<le> limit s \<Longrightarrow> acq s r = (s', Some p) \<Longrightarrow>
      used s' = used s + held p \<and> used s' \<le> limit s' \<and> limit s' = limit s"
    and acq_refuse: "acq s r = (s', None) \<Longrightarrow> s' = s"
    and tch_moves: "held p \<le> used s \<Longrightarrow> tch s p x = (s', p') \<Longrightarrow>
      used s' + held p = used s + held p' \<and> held p' \<le> held p \<and> limit s' = limit s"
    and mv_moves: "held p \<le> used s \<Longrightarrow> mv s p q = (s', p', q') \<Longrightarrow>
      used s' + held p = used s \<and> held p' = held q \<and> held q' = 0 \<and> limit s' = limit s"
begin

definition balanced :: "'s \<times> 'p list \<Rightarrow> bool" where
  "balanced sp \<longleftrightarrow>
     used (fst sp) = sum_list (map held (snd sp)) \<and> used (fst sp) \<le> limit (fst sp)"

lemma balanced_held: "balanced (s, ps) \<Longrightarrow> i < length ps \<Longrightarrow> held (ps ! i) \<le> used s"
  using nth_le_sum_list [of i "map held ps"] by (simp add: balanced_def)

lemma sum_held_update:
  "i < length ps \<Longrightarrow>
   sum_list (map held (ps[i := p])) + held (ps ! i) = sum_list (map held ps) + held p"
  using sum_list_update_nat [of i "map held ps" "held p"] by (simp add: map_update)

lemma balanced_touch:
  assumes "balanced (s, ps)" and i: "i < length ps" and t: "tch s (ps ! i) x = (s', p')"
  shows "balanced (s', ps[i := p'])"
proof -
  have "held (ps ! i) \<le> used s"
    using assms(1) i by (rule balanced_held)
  note moves = tch_moves [OF this t]
  then have "used s' + held (ps ! i) = sum_list (map held ps) + held p'" "used s' \<le> limit s'"
    using assms(1) by (simp_all add: balanced_def)
  then show ?thesis
    using sum_held_update [OF i, of p'] by (simp add: balanced_def)
qed

lemma balanced_move:
  assumes "balanced (s, ps)" and ij: "i < length ps" "j < length ps" "i \<noteq> j"
    and m: "mv s (ps ! i) (ps ! j) = (s', p', q')"
  shows "balanced (s', ps[i := p', j := q'])"
proof -
  have "held (ps ! i) \<le> used s"
    using assms(1) ij(1) by (rule balanced_held)
  note moves = mv_moves [OF this m]
  have "sum_list (map held (ps[i := p', j := q'])) + held (ps ! j)
      = sum_list (map held (ps[i := p'])) + held q'"
    using sum_held_update [of j "ps[i := p']" q'] ij by simp
  then show ?thesis
    using sum_held_update [OF ij(1), of p'] moves assms(1) by (simp add: balanced_def)
qed

lemma balanced_acquire:
  assumes "balanced (s, ps)"
  shows "balanced (ledger_step acq tch mv (s, ps) (Acquire r))"
proof (cases "acq s r")
  case (Pair s' po)
  then show ?thesis
  proof (cases po)
    case None
    with Pair have "s' = s" by (simp add: acq_refuse)
    with None Pair assms show ?thesis by simp
  next
    case (Some p)
    with Pair assms acq_grant [of s r s' p] show ?thesis by (simp add: balanced_def)
  qed
qed

lemma balanced_step: "balanced sp \<Longrightarrow> balanced (ledger_step acq tch mv sp x)"
proof (cases sp, cases x)
  fix s ps r assume "balanced sp" "sp = (s, ps)" "x = Acquire r"
  then show ?thesis by (simp add: balanced_acquire del: ledger_step.simps)
next
  fix s ps i y assume "balanced sp" "sp = (s, ps)" "x = Touch i y"
  then show ?thesis by (auto simp: balanced_touch split: prod.split)
next
  fix s ps i j assume "balanced sp" "sp = (s, ps)" "x = Move_assign i j"
  then show ?thesis by (auto simp: balanced_move split: prod.split)
qed

lemma limit_step: "balanced sp \<Longrightarrow> limit (fst (ledger_step acq tch mv sp x)) = limit (fst sp)"
proof (cases sp, cases x)
  fix s ps r assume b: "balanced sp" and eq: "sp = (s, ps)" "x = Acquire r"
  from b eq have "used s \<le> limit s" by (simp add: balanced_def)
  with eq show ?thesis
    by (auto dest: acq_grant acq_refuse split: prod.split option.split)
next
  fix s ps i y assume b: "balanced sp" and eq: "sp = (s, ps)" "x = Touch i y"
  with balanced_held [of s ps i] show ?thesis by (auto dest: tch_moves split: prod.split)
next
  fix s ps i j assume b: "balanced sp" and eq: "sp = (s, ps)" "x = Move_assign i j"
  with balanced_held [of s ps i] show ?thesis by (auto dest: mv_moves split: prod.split)
qed

lemma run_balanced:
  "balanced sp \<Longrightarrow>
   balanced (run_steps (ledger_step acq tch mv) sp xs) \<and>
   limit (fst (run_steps (ledger_step acq tch mv) sp xs)) = limit (fst sp)"
  by (induction xs arbitrary: sp) (simp_all add: run_steps_def balanced_step limit_step)

lemma no_permits_unused: "balanced (s, ps) \<Longrightarrow> \<forall>p \<in> set ps. held p = 0 \<Longrightarrow> used s = 0"
  by (simp add: balanced_def sum_list_eq_0_iff)

end

subsection \<open>A flag that one caller claims\<close>

locale claim_once =
  fixes claim :: "'s \<Rightarrow> bool \<times> 's" and claimed :: "'s \<Rightarrow> bool"
  assumes claim_result: "fst (claim s) \<longleftrightarrow> \<not> claimed s"
    and claim_claims: "claimed (snd (claim s))"
begin

primrec claims :: "nat \<Rightarrow> 's \<Rightarrow> bool list" where
  "claims 0 s = []"
| "claims (Suc n) s = fst (claim s) # claims n (snd (claim s))"

lemma claims_after_claim: "claimed s \<Longrightarrow> claims n s = replicate n False"
  by (induction n arbitrary: s) (simp_all add: claim_result claim_claims)

lemma claims_once: "\<not> claimed s \<Longrightarrow> claims (Suc n) s = True # replicate n False"
  by (simp add: claim_result claim_claims claims_after_claim)

end

end
