(* ===== verification/BufferBudget.thy ===== *)
theory BufferBudget
  imports Prelude
begin

text \<open>
  The budget of buffered body bytes, \<open>src/buffer_budget.hpp\<close> and \<open>src/buffer_budget.cpp\<close>.
  A server owns one \<open>BufferBudgetState\<close>; every permit's \<open>control_\<close> pointer is null or
  points to that state's \<open>BufferBudgetControl\<close>, so the control block is passed as the
  state and \<open>bp_control\<close> says whether the pointer is set. Byte counts are 64-bit words,
  their subtraction wraps as in the code. The permits interpret the \<open>permit_ledger\<close>
  interface of the prelude: over any sequence of operations the control block accounts for
  exactly the bytes of the live permits and never exceeds its maximum.
\<close>

section \<open>Data\<close>

datatype body_reservation_kind = Kind_none | Kind_reserve | Kind_too_large

record body_reservation_plan =
  plan_kind :: body_reservation_kind
  plan_bytes :: u64

record budget_control =
  max_bytes :: u64
  current_bytes :: u64

record budget_permit =
  bp_control :: bool
  bp_bytes :: u64

section \<open>Operations\<close>

definition plan_body_reservation :: "u64 option \<Rightarrow> bool \<Rightarrow> u64 \<Rightarrow> body_reservation_plan" where
  "plan_body_reservation content_length message_complete body_limit =
     (if message_complete then \<lparr>plan_kind = Kind_none, plan_bytes = 0\<rparr>
      else case content_length of
        None \<Rightarrow> \<lparr>plan_kind = Kind_reserve, plan_bytes = body_limit\<rparr>
      | Some n \<Rightarrow>
          if body_limit < n then \<lparr>plan_kind = Kind_too_large, plan_bytes = 0\<rparr>
          else \<lparr>plan_kind = Kind_reserve, plan_bytes = n\<rparr>)"

definition BufferBudgetState_new :: "u64 \<Rightarrow> budget_control" where
  "BufferBudgetState_new limit = \<lparr>max_bytes = limit, current_bytes = 0\<rparr>"

definition BufferBudgetPermit_default :: budget_permit where
  "BufferBudgetPermit_default = \<lparr>bp_control = False, bp_bytes = 0\<rparr>"

definition BufferBudgetState_try_acquire ::
  "budget_control \<Rightarrow> u64 \<Rightarrow> budget_control \<times> budget_permit option" where
  "BufferBudgetState_try_acquire c bytes =
     (if max_bytes c - current_bytes c < bytes then (c, None)
      else (c\<lparr>current_bytes := current_bytes c + bytes\<rparr>,
            Some \<lparr>bp_control = True, bp_bytes = bytes\<rparr>))"

definition BufferBudgetPermit_release ::
  "budget_control \<Rightarrow> budget_permit \<Rightarrow> budget_control \<times> budget_permit" where
  "BufferBudgetPermit_release c p =
     (if \<not> bp_control p then (c, p)
      else (if bp_bytes p \<le> current_bytes c
            then c\<lparr>current_bytes := current_bytes c - bp_bytes p\<rparr> else c,
            \<lparr>bp_control = False, bp_bytes = 0\<rparr>))"

definition BufferBudgetPermit_shrink_to ::
  "budget_control \<Rightarrow> budget_permit \<Rightarrow> u64 \<Rightarrow> (budget_control \<times> budget_permit) \<times> bool" where
  "BufferBudgetPermit_shrink_to c p bytes =
     (if \<not> bp_control p \<or> bp_bytes p < bytes then ((c, p), False)
      else let released_bytes = bp_bytes p - bytes in
        if current_bytes c < released_bytes then ((c, p), False)
        else ((c\<lparr>current_bytes := current_bytes c - released_bytes\<rparr>, p\<lparr>bp_bytes := bytes\<rparr>),
              True))"

definition BufferBudgetPermit_owns_reservation :: "budget_permit \<Rightarrow> bool" where
  "BufferBudgetPermit_owns_reservation p = bp_control p"

text \<open>
  Move construction gives the new permit and what is left in the source; move assignment
  releases the target first. Assignment of a permit to itself changes nothing, which is the
  case \<open>i = j\<close> of \<open>Move_assign\<close>.
\<close>

definition BufferBudgetPermit_move :: "budget_permit \<Rightarrow> budget_permit \<times> budget_permit" where
  "BufferBudgetPermit_move q = (q, \<lparr>bp_control = False, bp_bytes = 0\<rparr>)"

definition BufferBudgetPermit_assign ::
  "budget_control \<Rightarrow> budget_permit \<Rightarrow> budget_permit \<Rightarrow>
   budget_control \<times> budget_permit \<times> budget_permit" where
  "BufferBudgetPermit_assign c p q =
     (case BufferBudgetPermit_release c p of (c', _) \<Rightarrow> (c', BufferBudgetPermit_move q))"

text \<open>The operations of one permit: \<open>release\<close> (also run by the destructor) and \<open>shrink_to\<close>.\<close>

datatype permit_op = Release | Shrink_to u64

fun budget_touch ::
  "budget_control \<Rightarrow> budget_permit \<Rightarrow> permit_op \<Rightarrow> budget_control \<times> budget_permit" where
  "budget_touch c p Release = BufferBudgetPermit_release c p"
| "budget_touch c p (Shrink_to n) = fst (BufferBudgetPermit_shrink_to c p n)"

definition budget_run ::
  "budget_control \<times> budget_permit list \<Rightarrow> (u64, permit_op) ledger_op list \<Rightarrow>
   budget_control \<times> budget_permit list" where
  "budget_run =
     run_steps (ledger_step BufferBudgetState_try_acquire budget_touch BufferBudgetPermit_assign)"

definition permit_bytes :: "budget_permit \<Rightarrow> nat" where
  "permit_bytes p = (if bp_control p then unat (bp_bytes p) else 0)"

declare BufferBudgetState_try_acquire_def [op_defs] BufferBudgetPermit_release_def [op_defs]
  BufferBudgetPermit_shrink_to_def [op_defs] BufferBudgetPermit_move_def [op_defs]
  BufferBudgetPermit_assign_def [op_defs]

section \<open>Single operations\<close>

lemma try_acquire_grant:
  assumes "current_bytes c \<le> max_bytes c"
    and "BufferBudgetState_try_acquire c n = (c', Some p)"
  shows "unat (current_bytes c') = unat (current_bytes c) + unat n \<and>
         current_bytes c' \<le> max_bytes c' \<and> max_bytes c' = max_bytes c \<and> permit_bytes p = unat n"
proof -
  from assms(2) have n: "n \<le> max_bytes c - current_bytes c"
    and c': "c' = c\<lparr>current_bytes := current_bytes c + n\<rparr>"
    and p: "p = \<lparr>bp_control = True, bp_bytes = n\<rparr>"
    by (auto simp: BufferBudgetState_try_acquire_def split: if_splits)
  have sum: "unat (current_bytes c + n) = unat (current_bytes c) + unat n"
    using n assms(1) by (rule unat_add_within)
  have "unat n \<le> unat (max_bytes c) - unat (current_bytes c)"
    using n assms(1) by (simp add: word_le_nat_alt unat_sub)
  then show ?thesis
    using assms(1) sum c' p by (simp add: permit_bytes_def word_le_nat_alt)
qed

lemma release_moves:
  assumes "permit_bytes p \<le> unat (current_bytes c)"
    and "BufferBudgetPermit_release c p = (c', p')"
  shows "unat (current_bytes c') + permit_bytes p = unat (current_bytes c) \<and>
         permit_bytes p' = 0 \<and> max_bytes c' = max_bytes c"
  using assms
  by (auto simp: BufferBudgetPermit_release_def permit_bytes_def word_le_nat_alt unat_sub
      split: if_splits)

lemma shrink_moves:
  assumes "permit_bytes p \<le> unat (current_bytes c)"
    and "BufferBudgetPermit_shrink_to c p n = ((c', p'), ok)"
  shows "unat (current_bytes c') + permit_bytes p = unat (current_bytes c) + permit_bytes p' \<and>
         permit_bytes p' \<le> permit_bytes p \<and> max_bytes c' = max_bytes c"
  using assms
  by (auto simp: BufferBudgetPermit_shrink_to_def permit_bytes_def Let_def word_le_nat_alt
      word_less_nat_alt not_less unat_sub split: if_splits)

lemma touch_moves:
  assumes "permit_bytes p \<le> unat (current_bytes c)" and "budget_touch c p x = (c', p')"
  shows "unat (current_bytes c') + permit_bytes p = unat (current_bytes c) + permit_bytes p' \<and>
         permit_bytes p' \<le> permit_bytes p \<and> max_bytes c' = max_bytes c"
  using assms
  by (cases x) (auto dest: release_moves shrink_moves [of _ _ _ _ _ "snd _"] simp: prod_eq_iff)

lemma assign_moves:
  assumes "permit_bytes p \<le> unat (current_bytes c)"
    and "BufferBudgetPermit_assign c p q = (c', p', q')"
  shows "unat (current_bytes c') + permit_bytes p = unat (current_bytes c) \<and>
         permit_bytes p' = permit_bytes q \<and> permit_bytes q' = 0 \<and> max_bytes c' = max_bytes c"
  using assms
  using release_moves [OF assms(1), of "fst (BufferBudgetPermit_release c p)"
      "snd (BufferBudgetPermit_release c p)"]
  by (auto simp: BufferBudgetPermit_assign_def BufferBudgetPermit_move_def permit_bytes_def [of q']
      split: prod.splits)

section \<open>The ledger\<close>

interpretation budget: permit_ledger
  "\<lambda>c. unat (current_bytes c)" "\<lambda>c. unat (max_bytes c)" permit_bytes
  BufferBudgetState_try_acquire budget_touch BufferBudgetPermit_assign
proof (unfold_locales, goal_cases)
  case (1 s r s' p)
  then show ?case
    using try_acquire_grant [of s r s' p] by (auto simp: word_le_nat_alt)
next
  case (2 s r s')
  then show ?case by (auto simp: BufferBudgetState_try_acquire_def split: if_splits)
next
  case (3 p s x s' p')
  then show ?case using touch_moves [of p s x s' p'] by simp
next
  case (4 p s q s' p' q')
  then show ?case using assign_moves [of p s q s' p' q'] by simp
qed

lemma budget_new_balanced: "budget.balanced (BufferBudgetState_new m, [])"
  by (simp add: budget.balanced_def BufferBudgetState_new_def)

lemma budget_run_new:
  "budget.balanced (budget_run (BufferBudgetState_new m, []) xs) \<and>
   max_bytes (fst (budget_run (BufferBudgetState_new m, []) xs)) = m"
  using budget.run_balanced [OF budget_new_balanced, of m xs]
  by (simp add: budget_run_def BufferBudgetState_new_def word_unat_eq_iff)

text \<open>
  C11. The budget is conserved. Whatever sequence of acquisitions, releases (destructors
  included), shrinks and move assignments the program runs, the control block's
  \<open>current_bytes\<close> is exactly the sum of the bytes of the permits that are alive, it never
  exceeds the configured maximum, and the maximum never changes.
\<close>

theorem budget_conservation:
  "case budget_run (BufferBudgetState_new m, []) xs of (c, ps) \<Rightarrow>
     unat (current_bytes c) = sum_list (map permit_bytes ps) \<and>
     current_bytes c \<le> max_bytes c \<and> max_bytes c = m"
  using budget_run_new [of m xs] by (auto simp: budget.balanced_def word_le_nat_alt split: prod.split)

text \<open>
  C12. Admission is exact: in every state the program can reach, \<open>try_acquire\<close> grants a request
  for \<open>n\<close> bytes exactly when the live reservations and \<open>n\<close> fit the maximum together (the
  unsigned subtraction in the code never wraps), and a refusal changes nothing.
\<close>

theorem budget_admission_exact:
  "case budget_run (BufferBudgetState_new m, []) xs of (c, ps) \<Rightarrow>
     (snd (BufferBudgetState_try_acquire c n) = None \<longleftrightarrow>
        unat m < sum_list (map permit_bytes ps) + unat n) \<and>
     (snd (BufferBudgetState_try_acquire c n) = None \<or>
        snd (BufferBudgetState_try_acquire c n) = Some \<lparr>bp_control = True, bp_bytes = n\<rparr>) \<and>
     unat (current_bytes (fst (BufferBudgetState_try_acquire c n))) =
       (if unat m < sum_list (map permit_bytes ps) + unat n
        then sum_list (map permit_bytes ps) else sum_list (map permit_bytes ps) + unat n)"
proof (cases "budget_run (BufferBudgetState_new m, []) xs")
  case (Pair c ps)
  with budget_run_new [of m xs]
  have bal: "unat (current_bytes c) = sum_list (map permit_bytes ps)"
    and le: "current_bytes c \<le> m" and m: "max_bytes c = m"
    by (auto simp: budget.balanced_def word_le_nat_alt)
  have fits: "m - current_bytes c < n \<longleftrightarrow> unat m < unat (current_bytes c) + unat n"
    using le by (auto simp: word_less_nat_alt word_le_nat_alt unat_sub)
  have "\<not> m - current_bytes c < n \<Longrightarrow>
      unat (current_bytes c + n) = unat (current_bytes c) + unat n"
    using le by (intro unat_add_within) auto
  with fits bal m show ?thesis
    by (auto simp: Pair BufferBudgetState_try_acquire_def)
qed

text \<open>
  C13. A permit can always be shrunk and released. In every reachable state, for a permit that
  holds a reservation of at least \<open>n\<close> bytes, \<open>shrink_to\<close> succeeds and gives back exactly the
  difference; releasing it gives back all its bytes. The guards in the code that protect the
  counter from underflow never fire.
\<close>

theorem budget_permit_returns:
  assumes "budget_run (BufferBudgetState_new m, []) xs = (c, ps)"
    and "i < length ps" and "BufferBudgetPermit_owns_reservation (ps ! i)"
    and "n \<le> bp_bytes (ps ! i)"
  shows "BufferBudgetPermit_shrink_to c (ps ! i) n =
           ((c\<lparr>current_bytes := current_bytes c - (bp_bytes (ps ! i) - n)\<rparr>,
             \<lparr>bp_control = True, bp_bytes = n\<rparr>), True) \<and>
         unat (current_bytes (fst (BufferBudgetPermit_release c (ps ! i)))) =
           unat (current_bytes c) - unat (bp_bytes (ps ! i))"
proof -
  have "permit_bytes (ps ! i) \<le> unat (current_bytes c)"
    using budget_run_new [of m xs] assms(1,2) budget.balanced_held by simp
  then have held: "bp_bytes (ps ! i) \<le> current_bytes c"
    using assms(3)
    by (simp add: permit_bytes_def BufferBudgetPermit_owns_reservation_def word_le_nat_alt)
  have "bp_bytes (ps ! i) - n \<le> bp_bytes (ps ! i)"
    using assms(4) by (simp add: word_le_nat_alt unat_sub)
  with held have "bp_bytes (ps ! i) - n \<le> current_bytes c"
    by (rule order_trans [rotated])
  then show ?thesis
    using held assms(3,4)
    by (simp add: BufferBudgetPermit_shrink_to_def BufferBudgetPermit_release_def Let_def
        BufferBudgetPermit_owns_reservation_def not_less unat_sub)
qed

theorem budget_permit_returns_witness:
  "BufferBudgetPermit_shrink_to \<lparr>max_bytes = 100, current_bytes = 60\<rparr>
     \<lparr>bp_control = True, bp_bytes = 60\<rparr> 20 =
   ((\<lparr>max_bytes = 100, current_bytes = 20\<rparr>, \<lparr>bp_control = True, bp_bytes = 20\<rparr>), True)"
proof -
  have run: "budget_run (BufferBudgetState_new 100, []) [Acquire 60, Acquire 50] =
      (\<lparr>max_bytes = 100, current_bytes = 60\<rparr>, [\<lparr>bp_control = True, bp_bytes = 60\<rparr>])"
    by (simp add: budget_run_def run_steps_def BufferBudgetState_new_def
        BufferBudgetState_try_acquire_def)
  show ?thesis
    using budget_permit_returns [OF run, of 0 20]
    by (simp add: BufferBudgetPermit_owns_reservation_def)
qed

end
