(* ===== verification/ConfigTypes.thy ===== *)
theory ConfigTypes
  imports Prelude
begin

text \<open>
  The configuration data of \<open>include/apigate/config.hpp\<close>, read by every component and never
  changed after start-up. A TLS context is an opaque OpenSSL object behind a shared pointer; it
  is represented by its identity.
\<close>

datatype log_level = Trace | Debug | Info | Warn | Error | Critical

datatype upstream_scheme = Http | Https

type_synonym tls_context = nat

record upstream_config =
  up_host :: string
  up_port :: u16
  up_timeout_ms :: u32
  up_scheme :: upstream_scheme

record rate_limit_config =
  requests_per_second :: u32
  burst :: u32

record health_check_config =
  hc_path :: string
  hc_interval_ms :: u32
  hc_timeout_ms :: u32
  hc_unhealthy_threshold :: u32
  hc_healthy_threshold :: u32

text \<open>\<open>std::array<unsigned char, 32>\<close>: the bytes of a digest, 32 of them.\<close>

type_synonym api_key_digest = "u8 list"

record api_key_auth_config =
  auth_digests :: "api_key_digest list"
  auth_key_count :: nat

record route_config =
  route_prefix :: string
  route_upstreams :: "upstream_config list"
  route_strip_prefix :: bool
  route_rate_limit :: "rate_limit_config option"
  route_health_check :: "health_check_config option"
  route_auth :: "api_key_auth_config option"
  route_stream_response :: bool

record app_config =
  cfg_service_name :: string
  cfg_environment :: string
  cfg_log_level :: log_level
  cfg_listen_address :: string
  cfg_listen_port :: u16
  cfg_max_connections :: u16
  cfg_max_concurrent_proxies :: u16
  cfg_max_in_flight_bytes :: u64
  cfg_shutdown_grace_ms :: u32
  cfg_metrics_enabled :: bool
  cfg_upstream_keep_alive :: bool
  cfg_upstream :: "upstream_config option"
  cfg_routes :: "route_config list"
  cfg_upstream_tls_context :: "tls_context option"
  cfg_downstream_tls_context :: "tls_context option"

definition max_keys :: nat where
  "max_keys = 4"

text \<open>The default member initialisers of \<open>AppConfig\<close> and \<open>ApiKeyAuthConfig\<close>.\<close>

definition ApiKeyAuthConfig_default :: api_key_auth_config where
  "ApiKeyAuthConfig_default =
     \<lparr>auth_digests = replicate max_keys (replicate 32 0), auth_key_count = 0\<rparr>"

definition AppConfig_default :: app_config where
  "AppConfig_default =
     \<lparr>cfg_service_name = ''api-gate'', cfg_environment = ''development'',
      cfg_log_level = Info, cfg_listen_address = ''127.0.0.1'', cfg_listen_port = 8080,
      cfg_max_connections = 256, cfg_max_concurrent_proxies = 32,
      cfg_max_in_flight_bytes = 67108864, cfg_shutdown_grace_ms = 5000,
      cfg_metrics_enabled = False, cfg_upstream_keep_alive = False, cfg_upstream = None,
      cfg_routes = [], cfg_upstream_tls_context = None, cfg_downstream_tls_context = None\<rparr>"

end
