(* ===== verification/RateLimit.thy ===== *)
theory RateLimit
  imports ConfigTypes
begin

text \<open>
  The per-route token buckets, \<open>src/rate_limit.hpp\<close> and \<open>src/rate_limit.cpp\<close>. Units are
  nanotokens in 64-bit words; the clock is a signed 64-bit count of nanoseconds. The abstract
  bucket \<open>spec_refill\<close> works on natural numbers without any bound; \<open>refill_spec\<close> shows that
  the clamped word arithmetic of the code computes the same value for every clock reading.
\<close>

section \<open>Data\<close>

record rate_limit_decision =
  allowed :: bool
  retry_after_seconds :: u32

record token_bucket =
  tb_config :: rate_limit_config
  tb_capacity :: u64
  tb_units :: u64
  tb_last_refill :: time_point

section \<open>Operations\<close>

definition units_per_token :: u64 where
  "units_per_token = 1000000000"

definition ceil_divide :: "u64 \<Rightarrow> u64 \<Rightarrow> u64" where
  "ceil_divide numerator denominator =
     numerator div denominator + (if numerator mod denominator \<noteq> 0 then 1 else 0)"

definition decision_allowed :: rate_limit_decision where
  "decision_allowed = \<lparr>allowed = True, retry_after_seconds = 0\<rparr>"

definition TokenBucket_new :: "rate_limit_config \<Rightarrow> time_point \<Rightarrow> token_bucket result" where
  "TokenBucket_new config now =
     (let capacity = ucast (burst config) * units_per_token in
      if requests_per_second config = 0 \<or> 1000000 < requests_per_second config \<or>
         burst config = 0 \<or> 1000000 < burst config
      then Inl (Invalid_argument ''rate limit values must be integers from 1 to 1000000'')
      else Inr \<lparr>tb_config = config, tb_capacity = capacity, tb_units = capacity,
                tb_last_refill = now\<rparr>)"

text \<open>
  The elapsed time is the unsigned difference of the two clock readings. Comparing it with
  \<open>std::chrono::seconds{burst}\<close> converts the seconds to unsigned nanoseconds.
\<close>

definition TokenBucket_refill :: "token_bucket \<Rightarrow> time_point \<Rightarrow> token_bucket" where
  "TokenBucket_refill b now =
     (if sint now \<le> sint (tb_last_refill b) then b
      else let ticks = now - tb_last_refill b;
               b' = b\<lparr>tb_last_refill := now\<rparr> in
        if ucast (burst (tb_config b)) * 1000000000 \<le> ticks
        then b'\<lparr>tb_units := tb_capacity b\<rparr>
        else let rps = ucast (requests_per_second (tb_config b));
                 missing = tb_capacity b - tb_units b in
          if ceil_divide missing rps \<le> ticks
          then b'\<lparr>tb_units := tb_capacity b\<rparr>
          else b'\<lparr>tb_units := tb_units b + ticks * rps\<rparr>)"

definition TokenBucket_try_acquire ::
  "token_bucket \<Rightarrow> time_point \<Rightarrow> rate_limit_decision \<times> token_bucket" where
  "TokenBucket_try_acquire b0 now =
     (let b = TokenBucket_refill b0 now in
      if units_per_token \<le> tb_units b
      then (decision_allowed, b\<lparr>tb_units := tb_units b - units_per_token\<rparr>)
      else let wait_nanoseconds =
                 ceil_divide (units_per_token - tb_units b)
                   (ucast (requests_per_second (tb_config b))) in
        (\<lparr>allowed = False,
          retry_after_seconds = ucast (ceil_divide wait_nanoseconds units_per_token)\<rparr>, b))"

text \<open>
  \<open>RouteRateLimits\<close>: one optional bucket per configured route. The constructor takes the
  \<open>rate_limit\<close> fields of the routes in order.
\<close>

definition RouteRateLimits_new ::
  "rate_limit_config option list \<Rightarrow> time_point \<Rightarrow> token_bucket option list result" where
  "RouteRateLimits_new limits now =
     map_result (\<lambda>l. case l of None \<Rightarrow> Inr None
                   | Some c \<Rightarrow> bind_result (TokenBucket_new c now) (\<lambda>b. Inr (Some b))) limits"

definition RouteRateLimits_try_acquire ::
  "token_bucket option list \<Rightarrow> nat \<Rightarrow> time_point \<Rightarrow>
   (rate_limit_decision \<times> token_bucket option list) result" where
  "RouteRateLimits_try_acquire buckets route_index now =
     bind_result (vec_at buckets route_index) (\<lambda>bucket.
       case bucket of
         None \<Rightarrow> Inr (decision_allowed, buckets)
       | Some b \<Rightarrow> (case TokenBucket_try_acquire b now of
           (d, b') \<Rightarrow> Inr (d, buckets[route_index := Some b'])))"

section \<open>Specification\<close>

text \<open>What a bucket's fields satisfy: the configured ranges, the capacity, and units below it.\<close>

definition bucket_ok :: "token_bucket \<Rightarrow> bool" where
  "bucket_ok b \<longleftrightarrow>
     1 \<le> unat (requests_per_second (tb_config b)) \<and>
     unat (requests_per_second (tb_config b)) \<le> 1000000 \<and>
     1 \<le> unat (burst (tb_config b)) \<and> unat (burst (tb_config b)) \<le> 1000000 \<and>
     unat (tb_capacity b) = unat (burst (tb_config b)) * 1000000000 \<and>
     tb_units b \<le> tb_capacity b"

text \<open>Nanoseconds between the last refill and \<open>now\<close>, never negative.\<close>

definition elapsed_ns :: "token_bucket \<Rightarrow> time_point \<Rightarrow> nat" where
  "elapsed_ns b now = nat (sint now - sint (tb_last_refill b))"

text \<open>The abstract bucket: refill without clamping or wrap-around.\<close>

definition spec_refill :: "nat \<Rightarrow> nat \<Rightarrow> nat \<Rightarrow> nat \<Rightarrow> nat" where
  "spec_refill capacity rps units elapsed = min capacity (units + elapsed * rps)"

text \<open>A bucket under a sequence of requests at the given clock readings.\<close>

fun bucket_run :: "token_bucket \<Rightarrow> time_point list \<Rightarrow> rate_limit_decision list \<times> token_bucket" where
  "bucket_run b [] = ([], b)"
| "bucket_run b (now # nows) =
     (case TokenBucket_try_acquire b now of (d, b') \<Rightarrow>
        (case bucket_run b' nows of (ds, b'') \<Rightarrow> (d # ds, b'')))"

section \<open>Word arithmetic of the bucket\<close>

lemma ceil_nat_split:
  assumes "0 < (d :: nat)"
  shows "(n + d - 1) div d = n div d + (if n mod d \<noteq> 0 then 1 else 0)"
proof -
  have "n + d - 1 = (n mod d + d - 1) + (n div d) * d"
    using assms div_mult_mod_eq [of n d] by linarith
  then have "(n + d - 1) div d = (n mod d + d - 1 + (n div d) * d) div d"
    by (rule arg_cong)
  also have "\<dots> = n div d + (n mod d + d - 1) div d"
    using assms by (intro div_mult_self1) simp
  finally have "(n + d - 1) div d = n div d + (n mod d + d - 1) div d" .
  moreover have "(n mod d + d - 1) div d = (if n mod d \<noteq> 0 then 1 else 0)"
    using assms mod_less_divisor [OF assms, of n]
    by (cases "n mod d = 0") (auto intro: div_nat_eqI simp del: mod_less_divisor)
  ultimately show ?thesis by simp
qed

lemma ceil_nat_le_iff: "0 < (d :: nat) \<Longrightarrow> (n + d - 1) div d \<le> t \<longleftrightarrow> n \<le> t * d"
  using div_less_iff_less_mult [of d "n + d - 1" "Suc t"] by (auto simp: less_Suc_eq_le)

lemma unat_ceil_divide:
  assumes "0 < unat d"
  shows "unat (ceil_divide n d) = (unat n + unat d - 1) div unat d"
proof -
  have "(unat n + unat d - 1) div unat d \<le> unat n"
    using assms ceil_nat_le_iff [OF assms, of "unat n" "unat n"] by simp
  then have le: "unat n div unat d + (if unat n mod unat d \<noteq> 0 then 1 else 0) \<le> unat n"
    by (simp only: ceil_nat_split [OF assms])
  have eq: "n mod d \<noteq> 0 \<longleftrightarrow> unat n mod unat d \<noteq> 0"
    by (simp add: word_unat_eq_iff unat_mod)
  have "unat (n div d) + unat (if n mod d \<noteq> 0 then 1 else (0 :: u64)) \<le> unat n"
    using le by (auto simp: eq unat_div split: if_splits)
  then have "unat (n div d) + unat (if n mod d \<noteq> 0 then 1 else (0 :: u64)) < 2 ^ LENGTH(64)"
    using unat_lt2p_word [of n] by (rule le_less_trans)
  then show ?thesis
    unfolding ceil_divide_def ceil_nat_split [OF assms]
    by (subst unat_add_bound) (auto simp: eq unat_div)
qed

lemma unat_ticks:
  assumes "sint a < sint (b :: time_point)"
  shows "unat (b - a) = nat (sint b - sint a)"
proof -
  have "sint b < 2 ^ 63" "- (2 ^ 63) \<le> sint a"
    using sint_lt [of b] sint_ge [of a] by simp_all
  then have range: "0 \<le> sint b - sint a" "sint b - sint a < 2 ^ 64"
    using assms by simp_all
  have "b - a = word_of_int (sint b - sint a)"
    by simp
  then have "uint (b - a) = uint (word_of_int (sint b - sint a) :: 64 word)"
    by (rule arg_cong)
  also have "\<dots> = (sint b - sint a) mod 2 ^ 64"
    by (simp only: uint_word_of_int) simp
  also have "\<dots> = sint b - sint a"
    using range by simp
  finally show ?thesis
    by (simp add: unat_eq_nat_uint)
qed

lemma bucket_ok_bounds:
  assumes "bucket_ok b"
  shows "unat (tb_capacity b) \<le> 1000000000000000" "unat (tb_units b) \<le> unat (tb_capacity b)"
    "unat (ucast (burst (tb_config b)) * 1000000000 :: u64) = unat (tb_capacity b)"
    "0 < unat (ucast (requests_per_second (tb_config b)) :: u64)"
proof -
  have "unat (ucast (burst (tb_config b)) :: u64) * unat (1000000000 :: u64) < 2 ^ LENGTH(64)"
    using assms by (simp add: bucket_ok_def)
  then have "unat (ucast (burst (tb_config b)) * 1000000000 :: u64) =
      unat (ucast (burst (tb_config b)) :: u64) * unat (1000000000 :: u64)"
    by (rule unat_mult_bound)
  then show "unat (ucast (burst (tb_config b)) * 1000000000 :: u64) = unat (tb_capacity b)"
    using assms by (simp add: bucket_ok_def)
qed (use assms in \<open>auto simp: bucket_ok_def word_le_nat_alt\<close>)

lemma refill_units:
  assumes "bucket_ok b"
  shows "unat (tb_units (TokenBucket_refill b now)) =
         spec_refill (unat (tb_capacity b)) (unat (requests_per_second (tb_config b)))
           (unat (tb_units b)) (elapsed_ns b now)"
proof (cases "sint now \<le> sint (tb_last_refill b)")
  case True
  then show ?thesis
    using bucket_ok_bounds(2) [OF assms]
    by (simp add: TokenBucket_refill_def spec_refill_def elapsed_ns_def)
next
  case False
  note ok = bucket_ok_bounds [OF assms]
  define t where "t = now - tb_last_refill b"
  define r :: u64 where "r = ucast (requests_per_second (tb_config b))"
  have t: "unat t = elapsed_ns b now"
    using False unat_ticks [of "tb_last_refill b" now] by (simp add: t_def elapsed_ns_def)
  have r: "unat r = unat (requests_per_second (tb_config b))" and r1: "1 \<le> unat r"
    using ok(4) by (simp_all add: r_def)
  have units: "tb_units b \<le> tb_capacity b"
    using ok(2) by (simp add: word_le_nat_alt)
  have "ceil_divide (tb_capacity b - tb_units b) r \<le> t \<longleftrightarrow>
      unat (tb_capacity b - tb_units b) \<le> unat t * unat r"
    unfolding word_le_nat_alt using r1 by (subst unat_ceil_divide, simp) (rule ceil_nat_le_iff, simp)
  then have ceil: "ceil_divide (tb_capacity b - tb_units b) r \<le> t \<longleftrightarrow>
      unat (tb_capacity b) \<le> unat (tb_units b) + unat t * unat r"
    using ok(2) unat_sub [OF units] by auto
  consider (long) "unat (tb_capacity b) \<le> unat t"
    | (full) "\<not> unat (tb_capacity b) \<le> unat t"
        "unat (tb_capacity b) \<le> unat (tb_units b) + unat t * unat r"
    | (partial) "\<not> unat (tb_capacity b) \<le> unat t"
        "unat (tb_units b) + unat t * unat r < unat (tb_capacity b)"
    by linarith
  then show ?thesis
  proof cases
    case long
    have "unat t * 1 \<le> unat t * unat r"
      using r1 by (rule mult_le_mono2)
    with long have "min (unat (tb_capacity b)) (unat (tb_units b) + unat t * unat r) =
        unat (tb_capacity b)"
      by linarith
    then show ?thesis
      using long False ok(3)
      by (simp add: TokenBucket_refill_def Let_def spec_refill_def word_le_nat_alt
          t [symmetric] r [symmetric] flip: t_def)
  next
    case full
    then show ?thesis
      using False ok(3) ceil
      by (simp add: TokenBucket_refill_def Let_def spec_refill_def word_le_nat_alt
          t [symmetric] r [symmetric] flip: t_def r_def)
  next
    case partial
    have "unat t * unat r < 2 ^ LENGTH(64)"
      using partial(2) ok(1) by simp
    then have mult: "unat (t * r) = unat t * unat r"
      by (rule unat_mult_bound)
    have "unat (tb_units b) + unat (t * r) < 2 ^ LENGTH(64)"
      using partial(2) ok(1) mult by simp
    then have "unat (tb_units b + t * r) = unat (tb_units b) + unat t * unat r"
      by (simp add: unat_add_bound mult)
    then show ?thesis
      using partial False ok(3) ceil
      by (simp add: TokenBucket_refill_def Let_def spec_refill_def word_le_nat_alt
          t [symmetric] r [symmetric] flip: t_def r_def)
  qed
qed

lemma refill_frame [simp]:
  "tb_config (TokenBucket_refill b now) = tb_config b"
  "tb_capacity (TokenBucket_refill b now) = tb_capacity b"
  "sint (tb_last_refill (TokenBucket_refill b now)) = max (sint (tb_last_refill b)) (sint now)"
  by (simp_all add: TokenBucket_refill_def Let_def)

lemma refill_ok: "bucket_ok b \<Longrightarrow> bucket_ok (TokenBucket_refill b now)"
  using refill_units [of b now] by (simp add: bucket_ok_def spec_refill_def word_le_nat_alt)

lemma units_per_token_nat [simp]: "unat units_per_token = 1000000000"
  by (simp add: units_per_token_def)

lemma acquire_ok:
  assumes "bucket_ok b"
  shows "bucket_ok (snd (TokenBucket_try_acquire b now))"
proof -
  define c where "c = TokenBucket_refill b now"
  have c: "bucket_ok c"
    using refill_ok [OF assms] by (simp add: c_def)
  have "tb_units c - units_per_token \<le> tb_capacity c" if "units_per_token \<le> tb_units c"
    using that c by (auto simp: bucket_ok_def word_le_nat_alt unat_sub)
  with c show ?thesis
    by (auto simp: TokenBucket_try_acquire_def Let_def bucket_ok_def simp flip: c_def)
qed

lemma acquire_frame [simp]:
  "tb_config (snd (TokenBucket_try_acquire b now)) = tb_config b"
  "tb_capacity (snd (TokenBucket_try_acquire b now)) = tb_capacity b"
  "sint (tb_last_refill (snd (TokenBucket_try_acquire b now))) =
     max (sint (tb_last_refill b)) (sint now)"
  by (simp_all add: TokenBucket_try_acquire_def Let_def)

text \<open>An admitted request takes exactly one token from the refilled bucket, a refused one none.\<close>

lemma acquire_units:
  assumes "bucket_ok b"
  shows "unat (tb_units (snd (TokenBucket_try_acquire b now))) +
           (if allowed (fst (TokenBucket_try_acquire b now)) then 1000000000 else 0) =
         unat (tb_units (TokenBucket_refill b now))"
    and "allowed (fst (TokenBucket_try_acquire b now)) \<longleftrightarrow>
         1000000000 \<le> unat (tb_units (TokenBucket_refill b now))"
  by (auto simp: TokenBucket_try_acquire_def Let_def decision_allowed_def word_le_nat_alt unat_sub)

lemma new_bucket_ok:
  assumes "TokenBucket_new cfg t0 = Inr b"
  shows "bucket_ok b" and "tb_units b = tb_capacity b" and "tb_config b = cfg"
    and "tb_last_refill b = t0"
proof -
  have range: "unat (requests_per_second cfg) \<noteq> 0" "unat (requests_per_second cfg) \<le> 1000000"
      "unat (burst cfg) \<noteq> 0" "unat (burst cfg) \<le> 1000000"
    and b: "b = \<lparr>tb_config = cfg, tb_capacity = ucast (burst cfg) * units_per_token,
      tb_units = ucast (burst cfg) * units_per_token, tb_last_refill = t0\<rparr>"
    using assms
    by (auto simp: TokenBucket_new_def Let_def word_less_nat_alt unat_eq_zero split: if_splits)
  have "unat (ucast (burst cfg) * units_per_token :: u64) =
      unat (ucast (burst cfg) :: u64) * unat units_per_token"
    using range by (intro unat_mult_bound) simp
  with range b show "bucket_ok b"
    by (simp add: bucket_ok_def Suc_le_eq)
  show "tb_units b = tb_capacity b" "tb_config b = cfg" "tb_last_refill b = t0"
    by (simp_all add: b)
qed

lemma run_Cons:
  "length (filter allowed (fst (bucket_run b (now # nows)))) =
     (if allowed (fst (TokenBucket_try_acquire b now)) then 1 else 0) +
     length (filter allowed (fst (bucket_run (snd (TokenBucket_try_acquire b now)) nows)))"
  "snd (bucket_run b (now # nows)) = snd (bucket_run (snd (TokenBucket_try_acquire b now)) nows)"
  by (auto simp: bucket_run.simps split: prod.split)

declare bucket_run.simps(2) [simp del]

interpretation bucket: step_invariant "\<lambda>b now. snd (TokenBucket_try_acquire b now)" bucket_ok
  by unfold_locales (rule acquire_ok)

lemma run_state:
  "snd (bucket_run b nows) = run_steps (\<lambda>b now. snd (TokenBucket_try_acquire b now)) b nows"
  by (induction nows arbitrary: b) (simp_all add: run_Cons run_steps_def)

lemma run_ok: "bucket_ok b \<Longrightarrow> bucket_ok (snd (bucket_run b nows))"
  unfolding run_state by (rule bucket.run_inv)

lemma run_frame [simp]:
  "tb_config (snd (bucket_run b nows)) = tb_config b"
  "tb_capacity (snd (bucket_run b nows)) = tb_capacity b"
  by (induction nows arbitrary: b) (simp_all add: run_Cons)

lemma run_last:
  "sint (tb_last_refill b) \<le> sint (tb_last_refill (snd (bucket_run b nows)))"
proof (induction nows arbitrary: b)
  case (Cons now nows)
  have "sint (tb_last_refill b) \<le> sint (tb_last_refill (snd (TokenBucket_try_acquire b now)))"
    by simp
  also have "\<dots> \<le>
      sint (tb_last_refill (snd (bucket_run (snd (TokenBucket_try_acquire b now)) nows)))"
    by (rule Cons.IH)
  finally show ?case by (simp only: run_Cons)
qed simp

text \<open>
  The accounting of a run: the tokens handed out and those left never exceed what the bucket
  held plus what the elapsed time earned.
\<close>

lemma run_accounting:
  assumes "bucket_ok b"
  shows "length (filter allowed (fst (bucket_run b nows))) * 1000000000 +
           unat (tb_units (snd (bucket_run b nows))) \<le>
         unat (tb_units b) + unat (requests_per_second (tb_config b)) *
           nat (sint (tb_last_refill (snd (bucket_run b nows))) - sint (tb_last_refill b))"
  using assms
proof (induction nows arbitrary: b)
  case Nil
  then show ?case by simp
next
  case (Cons now nows)
  define c where "c = snd (TokenBucket_try_acquire b now)"
  define z where "z = sint (tb_last_refill (snd (bucket_run c nows)))"
  let ?R = "unat (requests_per_second (tb_config b))"
  have "length (filter allowed (fst (bucket_run c nows))) * 1000000000 +
      unat (tb_units (snd (bucket_run c nows))) \<le>
      unat (tb_units c) + ?R * nat (z - sint (tb_last_refill c))"
    using Cons.IH [OF acquire_ok [OF Cons.prems, of now]] by (simp add: c_def z_def)
  moreover have "unat (tb_units c) +
      (if allowed (fst (TokenBucket_try_acquire b now)) then 1000000000 else 0) \<le>
      unat (tb_units b) + elapsed_ns b now * ?R"
    unfolding c_def acquire_units(1) [OF Cons.prems] refill_units [OF Cons.prems]
    by (simp add: spec_refill_def)
  moreover have "?R * nat (z - sint (tb_last_refill b)) =
      ?R * nat (z - sint (tb_last_refill c)) + elapsed_ns b now * ?R"
  proof -
    have "sint (tb_last_refill c) = max (sint (tb_last_refill b)) (sint now)"
      "sint (tb_last_refill c) \<le> z"
      using run_last [of c nows] by (simp_all add: c_def z_def)
    then have "nat (z - sint (tb_last_refill b)) =
        nat (z - sint (tb_last_refill c)) + elapsed_ns b now"
      by (simp add: elapsed_ns_def max_def split: if_splits)
    then show ?thesis by (simp add: algebra_simps)
  qed
  ultimately show ?case
    unfolding run_Cons by (simp flip: c_def z_def split: if_splits)
qed

section \<open>Properties\<close>

text \<open>
  C14. The bucket never hands out more than its contract: over any sequence of requests, at
  whatever clock readings (also ones that go backwards), the number of admitted requests is at
  most the burst plus \<open>requests_per_second\<close> times the time between construction and the
  latest clock reading, in nanotokens without rounding.
\<close>

theorem rate_limit_bound:
  assumes "TokenBucket_new cfg t0 = Inr b" and "bucket_run b nows = (ds, b')"
  shows "length (filter allowed ds) * 1000000000 \<le>
         unat (burst cfg) * 1000000000 +
           unat (requests_per_second cfg) * nat (sint (tb_last_refill b') - sint t0)"
  using run_accounting [OF new_bucket_ok(1) [OF assms(1)], of nows] new_bucket_ok [OF assms(1)]
    assms(2) by (simp add: bucket_ok_def)

theorem rate_limit_bound_witness:
  "length (filter allowed (fst (bucket_run
       \<lparr>tb_config = \<lparr>requests_per_second = 1, burst = 1\<rparr>, tb_capacity = 1000000000,
        tb_units = 1000000000, tb_last_refill = 0\<rparr> [0, 5]))) * 1000000000 \<le>
   1 * 1000000000 + 1 * (5 :: nat)"
proof -
  have new: "TokenBucket_new \<lparr>requests_per_second = 1, burst = 1\<rparr> 0 = Inr
      \<lparr>tb_config = \<lparr>requests_per_second = 1, burst = 1\<rparr>, tb_capacity = 1000000000,
       tb_units = 1000000000, tb_last_refill = 0\<rparr>"
    by (simp add: TokenBucket_new_def units_per_token_def)
  have run: "bucket_run \<lparr>tb_config = \<lparr>requests_per_second = 1, burst = 1\<rparr>,
        tb_capacity = 1000000000, tb_units = 1000000000, tb_last_refill = 0\<rparr> [0, 5] =
      ([decision_allowed, \<lparr>allowed = False, retry_after_seconds = 1\<rparr>],
       \<lparr>tb_config = \<lparr>requests_per_second = 1, burst = 1\<rparr>, tb_capacity = 1000000000,
        tb_units = 5, tb_last_refill = 5\<rparr>)"
    by (simp add: bucket_run.simps TokenBucket_try_acquire_def TokenBucket_refill_def Let_def
        units_per_token_def ceil_divide_def)
  show ?thesis
    using rate_limit_bound [OF new run] by (simp add: run)
qed

text \<open>
  C15. The fixed-point refill is the mathematical one. For every bucket the code can reach and
  every clock reading, the clamps and the unsigned tick subtraction in \<open>refill\<close> compute
  exactly \<open>min(capacity, units + elapsed * rate)\<close> on unbounded numbers: no wrap-around, no
  rounding, and no effect when the clock has not advanced.
\<close>

theorem refill_refines_spec:
  assumes "TokenBucket_new cfg t0 = Inr b0"
  shows "case snd (bucket_run b0 nows) of b \<Rightarrow>
     unat (tb_units (TokenBucket_refill b now)) =
       spec_refill (unat (burst cfg) * 1000000000) (unat (requests_per_second cfg))
         (unat (tb_units b)) (elapsed_ns b now) \<and>
     sint (tb_last_refill (TokenBucket_refill b now)) = max (sint (tb_last_refill b)) (sint now)"
proof -
  have "bucket_ok (snd (bucket_run b0 nows))"
    using new_bucket_ok(1) [OF assms] by (rule run_ok)
  from refill_units [OF this, of now] this show ?thesis
    using new_bucket_ok(3) [OF assms] by (simp add: bucket_ok_def)
qed

theorem refill_refines_spec_witness:
  "unat (tb_units (TokenBucket_refill
      \<lparr>tb_config = \<lparr>requests_per_second = 1000000, burst = 1000000\<rparr>,
       tb_capacity = 1000000000000000, tb_units = 1000000000000000,
       tb_last_refill = 9223372036854775808\<rparr> 9223372036854775807)) =
   spec_refill 1000000000000000 1000000 1000000000000000 18446744073709551615"
proof -
  have new: "TokenBucket_new \<lparr>requests_per_second = 1000000, burst = 1000000\<rparr>
      9223372036854775808 = Inr
      \<lparr>tb_config = \<lparr>requests_per_second = 1000000, burst = 1000000\<rparr>,
       tb_capacity = 1000000000000000, tb_units = 1000000000000000,
       tb_last_refill = 9223372036854775808\<rparr>"
    by (simp add: TokenBucket_new_def units_per_token_def)
  show ?thesis
    using refill_refines_spec [OF new, of "[]" 9223372036854775807]
    by (simp add: elapsed_ns_def)
qed

lemma denied_retry_one:
  assumes "bucket_ok b" and "\<not> allowed (fst (TokenBucket_try_acquire b now))"
  shows "retry_after_seconds (fst (TokenBucket_try_acquire b now)) = 1"
proof -
  define c where "c = TokenBucket_refill b now"
  have c: "bucket_ok c"
    using refill_ok [OF assms(1)] by (simp add: c_def)
  have less: "tb_units c < units_per_token"
    using assms(2) acquire_units(2) [OF assms(1), of now]
    by (simp add: c_def word_less_nat_alt)
  define need where "need = units_per_token - tb_units c"
  have "unat need = 1000000000 - unat (tb_units c)"
    unfolding need_def using less by (subst unat_sub) auto
  then have need: "0 < unat need" "unat need \<le> 1000000000"
    using less by (simp_all add: word_less_nat_alt)
  define wait where "wait = ceil_divide need (ucast (requests_per_second (tb_config c)))"
  have rps: "0 < unat (ucast (requests_per_second (tb_config c)) :: u64)"
    using bucket_ok_bounds(4) [OF c] .
  have "unat wait \<le> 1000000000"
  proof -
    have "unat need \<le> 1000000000 * unat (ucast (requests_per_second (tb_config c)) :: u64)"
      using need(2) rps by (cases "unat (requests_per_second (tb_config c))") auto
    then show ?thesis
      unfolding wait_def unat_ceil_divide [OF rps] ceil_nat_le_iff [OF rps] .
  qed
  moreover have "0 < unat wait"
    using ceil_nat_le_iff [OF rps, of "unat need" 0] need(1)
    unfolding wait_def unat_ceil_divide [OF rps] by simp
  ultimately have "unat (ceil_divide wait units_per_token) = 1"
    by (simp add: unat_ceil_divide div_nat_eqI)
  then have "ceil_divide wait units_per_token = 1"
    by (simp add: word_unat_eq_iff)
  then show ?thesis
    using less
    by (simp add: TokenBucket_try_acquire_def Let_def not_le [symmetric] flip: c_def need_def wait_def)
qed

text \<open>
  C16. The retry hint is sound. A refused request is told to retry after exactly one second (the
  rate is at least one token per second), the refusal takes no token, and a request at least
  one second after the latest clock reading is admitted if no other came in between.
\<close>

theorem retry_after_sound:
  assumes "TokenBucket_new cfg t0 = Inr b0"
    and "TokenBucket_try_acquire (snd (bucket_run b0 nows)) now = (d, b)" and "\<not> allowed d"
  shows "retry_after_seconds d = 1 \<and> b = TokenBucket_refill (snd (bucket_run b0 nows)) now \<and>
         (\<forall>later. sint (tb_last_refill b) + 1000000000 \<le> sint later \<longrightarrow>
            allowed (fst (TokenBucket_try_acquire b later)))"
proof (intro conjI allI impI)
  let ?b = "snd (bucket_run b0 nows)"
  have ok: "bucket_ok ?b"
    using new_bucket_ok(1) [OF assms(1)] by (rule run_ok)
  show "retry_after_seconds d = 1"
    using denied_retry_one [OF ok, of now] assms(2,3) by simp
  show "b = TokenBucket_refill ?b now"
    using assms(2,3)
    by (auto simp: TokenBucket_try_acquire_def Let_def decision_allowed_def split: if_splits)
  fix later :: time_point
  assume later: "sint (tb_last_refill b) + 1000000000 \<le> sint later"
  have b: "bucket_ok b"
    using acquire_ok [OF ok, of now] assms(2) by simp
  have "1000000000 \<le> elapsed_ns b later"
    using later by (simp add: elapsed_ns_def)
  moreover have "elapsed_ns b later * 1 \<le>
      elapsed_ns b later * unat (requests_per_second (tb_config b))"
    using b by (intro mult_le_mono2) (simp add: bucket_ok_def)
  ultimately have "1000000000 \<le> unat (tb_units b) +
      elapsed_ns b later * unat (requests_per_second (tb_config b))"
    by linarith
  then have "1000000000 \<le> unat (tb_units (TokenBucket_refill b later))"
    unfolding refill_units [OF b] spec_refill_def using b by (simp add: bucket_ok_def)
  then show "allowed (fst (TokenBucket_try_acquire b later))"
    using acquire_units(2) [OF b] by simp
qed

theorem retry_after_sound_witness:
  "allowed (fst (TokenBucket_try_acquire
      \<lparr>tb_config = \<lparr>requests_per_second = 1, burst = 1\<rparr>, tb_capacity = 1000000000,
       tb_units = 5, tb_last_refill = 5\<rparr> 1000000005))"
proof -
  have new: "TokenBucket_new \<lparr>requests_per_second = 1, burst = 1\<rparr> 0 = Inr
      \<lparr>tb_config = \<lparr>requests_per_second = 1, burst = 1\<rparr>, tb_capacity = 1000000000,
       tb_units = 1000000000, tb_last_refill = 0\<rparr>"
    by (simp add: TokenBucket_new_def units_per_token_def)
  have acq: "TokenBucket_try_acquire (snd (bucket_run
        \<lparr>tb_config = \<lparr>requests_per_second = 1, burst = 1\<rparr>, tb_capacity = 1000000000,
         tb_units = 1000000000, tb_last_refill = 0\<rparr> [0])) 5 =
      (\<lparr>allowed = False, retry_after_seconds = 1\<rparr>,
       \<lparr>tb_config = \<lparr>requests_per_second = 1, burst = 1\<rparr>, tb_capacity = 1000000000,
        tb_units = 5, tb_last_refill = 5\<rparr>)"
    by (simp add: bucket_run.simps TokenBucket_try_acquire_def TokenBucket_refill_def Let_def
        units_per_token_def ceil_divide_def)
  show ?thesis
    using retry_after_sound [OF new acq, THEN conjunct2, THEN conjunct2, rule_format, of 1000000005]
    by simp
qed

section \<open>The buckets of the routes\<close>

definition limits_ok :: "token_bucket option list \<Rightarrow> bool" where
  "limits_ok buckets \<longleftrightarrow> (\<forall>b. Some b \<in> set buckets \<longrightarrow> bucket_ok b)"

lemma limits_new_ok:
  assumes "RouteRateLimits_new limits now = Inr buckets"
  shows "limits_ok buckets" and "length buckets = length limits"
proof -
  show len: "length buckets = length limits"
    using assms by (simp add: RouteRateLimits_new_def map_result_length)
  show "limits_ok buckets"
    unfolding limits_ok_def in_set_conv_nth
  proof clarify
    fix b i assume i: "i < length buckets" "buckets ! i = Some b"
    with len map_result_nth [OF assms [unfolded RouteRateLimits_new_def], of i]
    obtain c where "TokenBucket_new c now = Inr b"
      by (cases "limits ! i") (auto elim!: bind_result_InrE)
    then show "bucket_ok b" by (rule new_bucket_ok)
  qed
qed

text \<open>The constructor succeeds exactly when every configured limit is in range.\<close>

definition limit_in_range :: "rate_limit_config \<Rightarrow> bool" where
  "limit_in_range c \<longleftrightarrow>
     1 \<le> unat (requests_per_second c) \<and> unat (requests_per_second c) \<le> 1000000 \<and>
     1 \<le> unat (burst c) \<and> unat (burst c) \<le> 1000000"

lemma TokenBucket_new_total: "limit_in_range c \<Longrightarrow> \<exists>b. TokenBucket_new c now = Inr b"
  by (auto simp: TokenBucket_new_def Let_def limit_in_range_def word_less_nat_alt)

lemma RouteRateLimits_new_total:
  assumes "\<And>c. Some c \<in> set limits \<Longrightarrow> limit_in_range c"
  shows "\<exists>buckets. RouteRateLimits_new limits now = Inr buckets"
  unfolding RouteRateLimits_new_def
proof (rule map_result_total)
  fix l assume l: "l \<in> set limits"
  show "\<exists>y. (case l of None \<Rightarrow> Inr None
      | Some c \<Rightarrow> bind_result (TokenBucket_new c now) (\<lambda>b. Inr (Some b))) = Inr y"
  proof (cases l)
    case (Some c)
    then obtain b where "TokenBucket_new c now = Inr b"
      using assms l TokenBucket_new_total by blast
    with Some show ?thesis by simp
  qed simp
qed

lemma limits_acquire:
  assumes "RouteRateLimits_try_acquire buckets i now = Inr (d, buckets')"
  shows "i < length buckets" "length buckets' = length buckets"
    "limits_ok buckets \<Longrightarrow> limits_ok buckets'"
    "\<And>j. j \<noteq> i \<Longrightarrow> buckets' ! j = buckets ! j"
    "buckets ! i = None \<Longrightarrow> d = decision_allowed \<and> buckets' = buckets"
    "buckets ! i = Some b \<Longrightarrow>
       d = fst (TokenBucket_try_acquire b now) \<and>
       buckets' = buckets[i := Some (snd (TokenBucket_try_acquire b now))]"
proof -
  show i: "i < length buckets"
    using assms by (auto simp: RouteRateLimits_try_acquire_def elim: bind_result_InrE)
  show len: "length buckets' = length buckets" and "\<And>j. j \<noteq> i \<Longrightarrow> buckets' ! j = buckets ! j"
    "buckets ! i = None \<Longrightarrow> d = decision_allowed \<and> buckets' = buckets"
    "buckets ! i = Some b \<Longrightarrow>
       d = fst (TokenBucket_try_acquire b now) \<and>
       buckets' = buckets[i := Some (snd (TokenBucket_try_acquire b now))]"
    using assms i
    by (auto simp: RouteRateLimits_try_acquire_def vec_at_def split: option.splits prod.splits)
  show "limits_ok buckets \<Longrightarrow> limits_ok buckets'"
    using assms i acquire_ok [of _ now]
    by (auto simp: RouteRateLimits_try_acquire_def vec_at_def limits_ok_def in_set_conv_nth
        nth_list_update split: option.splits prod.splits if_splits) (metis snd_conv)+
qed

end
