(* ===== verification/Health.thy ===== *)
theory Health
  imports ConfigTypes
begin

text \<open>
  Upstream health and the probe schedule, \<open>src/health_check.hpp\<close> and \<open>src/health_state.cpp\<close>.
  \<open>UpstreamHealthState\<close> keeps a slot per configured upstream with 32-bit streak counters;
  \<open>ProbeSchedule\<close> hands out due slots in rotation, at most four in flight. The first half
  shows the hysteresis of a slot against the history of its probe outcomes, the second the
  schedule's invariant, the slot \<open>take_due\<close> picks and that no due slot is starved.
\<close>

section \<open>Data\<close>

datatype health_transition = Unchanged | Became_unhealthy | Became_healthy

record health_slot =
  hs_healthy :: bool
  hs_failures :: u32
  hs_successes :: u32

record health_route =
  hr_config :: "health_check_config option"
  hr_slots :: "health_slot list"

record probe_slot =
  pr_interval :: u64
  pr_due :: time_point
  pr_in_flight :: bool

record probe_schedule =
  sc_slots :: "probe_slot list"
  sc_cursor :: nat
  sc_active :: usize
  sc_stopped :: bool

section \<open>Operations of the health state\<close>

definition Slot_default :: health_slot where
  "Slot_default = \<lparr>hs_healthy = True, hs_failures = 0, hs_successes = 0\<rparr>"

definition UpstreamHealthState_new :: "route_config list \<Rightarrow> health_route list" where
  "UpstreamHealthState_new routes =
     map (\<lambda>route. \<lparr>hr_config = route_health_check route,
                   hr_slots = replicate (length (route_upstreams route)) Slot_default\<rparr>) routes"

definition UpstreamHealthState_available :: "health_route list \<Rightarrow> nat \<Rightarrow> nat \<Rightarrow> bool result" where
  "UpstreamHealthState_available routes route upstream =
     bind_result (vec_at routes route) (\<lambda>r.
     bind_result (vec_at (hr_slots r) upstream) (\<lambda>slot. Inr (hs_healthy slot)))"

definition record_success :: "health_check_config \<Rightarrow> health_slot \<Rightarrow> health_transition \<times> health_slot"
  where
  "record_success settings slot =
     (let slot' = slot\<lparr>hs_failures := 0,
                       hs_successes := min (hs_successes slot + 1) (hc_healthy_threshold settings)\<rparr>
      in if \<not> hs_healthy slot' \<and> hs_successes slot' = hc_healthy_threshold settings
         then (Became_healthy, slot'\<lparr>hs_healthy := True\<rparr>) else (Unchanged, slot'))"

definition record_failure :: "health_check_config \<Rightarrow> health_slot \<Rightarrow> health_transition \<times> health_slot"
  where
  "record_failure settings slot =
     (let slot' = slot\<lparr>hs_successes := 0,
                       hs_failures := min (hs_failures slot + 1) (hc_unhealthy_threshold settings)\<rparr>
      in if hs_healthy slot' \<and> hs_failures slot' = hc_unhealthy_threshold settings
         then (Became_unhealthy, slot'\<lparr>hs_healthy := False\<rparr>) else (Unchanged, slot'))"

definition record_slot ::
  "health_check_config \<Rightarrow> health_slot \<Rightarrow> bool \<Rightarrow> health_transition \<times> health_slot" where
  "record_slot settings slot success =
     (if success then record_success settings slot else record_failure settings slot)"

definition UpstreamHealthState_record ::
  "health_route list \<Rightarrow> nat \<Rightarrow> nat \<Rightarrow> bool \<Rightarrow> (health_transition \<times> health_route list) result" where
  "UpstreamHealthState_record routes route upstream success =
     bind_result (vec_at routes route) (\<lambda>r.
     bind_result (vec_at (hr_slots r) upstream) (\<lambda>slot.
       case hr_config r of
         None \<Rightarrow> Inr (Unchanged, routes)
       | Some settings \<Rightarrow> (case record_slot settings slot success of
           (t, slot') \<Rightarrow>
             Inr (t, routes[route := r\<lparr>hr_slots := (hr_slots r)[upstream := slot']\<rparr>]))))"

section \<open>Operations of the probe schedule\<close>

definition max_in_flight :: usize where
  "max_in_flight = 4"

definition ProbeSchedule_new :: "u64 list \<Rightarrow> time_point \<Rightarrow> probe_schedule result" where
  "ProbeSchedule_new intervals now =
     bind_result
       (map_result (\<lambda>interval.
          if sint interval < 100 \<or> 60000 < sint interval
          then Inl (Invalid_argument ''probe interval must be positive'')
          else Inr \<lparr>pr_interval = interval, pr_due = now, pr_in_flight = False\<rparr>) intervals)
       (\<lambda>slots. Inr \<lparr>sc_slots = slots, sc_cursor = 0, sc_active = 0, sc_stopped = False\<rparr>)"

definition slot_due :: "time_point \<Rightarrow> probe_slot \<Rightarrow> bool" where
  "slot_due now slot \<longleftrightarrow> \<not> pr_in_flight slot \<and> sint (pr_due slot) \<le> sint now"

text \<open>
  The loop of \<open>take_due\<close> with the number of slots it still visits. An interval in
  milliseconds is converted to the clock's nanoseconds.
\<close>

fun take_due_loop :: "nat \<Rightarrow> probe_schedule \<Rightarrow> time_point \<Rightarrow> probe_schedule \<times> nat option" where
  "take_due_loop 0 s now = (s, None)"
| "take_due_loop (Suc todo) s now =
     (let index = sc_cursor s;
          s1 = s\<lparr>sc_cursor := if sc_cursor s + 1 = length (sc_slots s) then 0 else sc_cursor s + 1\<rparr>;
          slot = sc_slots s ! index in
      if slot_due now slot
      then (s1\<lparr>sc_slots := (sc_slots s)[index := slot\<lparr>pr_in_flight := True,
                 pr_due := deadline_after now (pr_interval slot * 1000000)\<rparr>],
               sc_active := sc_active s + 1\<rparr>, Some index)
      else take_due_loop todo s1 now)"

definition ProbeSchedule_take_due ::
  "probe_schedule \<Rightarrow> time_point \<Rightarrow> probe_schedule \<times> nat option" where
  "ProbeSchedule_take_due s now =
     (if sc_stopped s \<or> sc_active s = max_in_flight then (s, None)
      else take_due_loop (length (sc_slots s)) s now)"

definition ProbeSchedule_complete :: "probe_schedule \<Rightarrow> nat \<Rightarrow> probe_schedule result" where
  "ProbeSchedule_complete s i =
     bind_result (vec_at (sc_slots s) i) (\<lambda>entry.
       if pr_in_flight entry
       then Inr (s\<lparr>sc_slots := (sc_slots s)[i := entry\<lparr>pr_in_flight := False\<rparr>],
                   sc_active := sc_active s - 1\<rparr>)
       else Inr s)"

definition ProbeSchedule_next_due :: "probe_schedule \<Rightarrow> time_point option" where
  "ProbeSchedule_next_due s =
     (if sc_stopped s \<or> sc_active s = max_in_flight then None
      else foldl (\<lambda>next slot.
        if \<not> pr_in_flight slot \<and> (case next of None \<Rightarrow> True | Some d \<Rightarrow> sint (pr_due slot) < sint d)
        then Some (pr_due slot) else next) None (sc_slots s))"

definition ProbeSchedule_stop :: "probe_schedule \<Rightarrow> probe_schedule" where
  "ProbeSchedule_stop s =
     s\<lparr>sc_stopped := True, sc_slots := map (\<lambda>slot. slot\<lparr>pr_in_flight := False\<rparr>) (sc_slots s),
       sc_active := 0\<rparr>"

section \<open>The events of a schedule and of a slot\<close>

datatype schedule_event = Take_due time_point | Complete nat | Stop_schedule

text \<open>A \<open>complete\<close> that throws leaves the schedule as it was.\<close>

fun schedule_step :: "probe_schedule \<Rightarrow> schedule_event \<Rightarrow> probe_schedule" where
  "schedule_step s (Take_due now) = fst (ProbeSchedule_take_due s now)"
| "schedule_step s (Complete i) =
     (case ProbeSchedule_complete s i of Inl _ \<Rightarrow> s | Inr s' \<Rightarrow> s')"
| "schedule_step s Stop_schedule = ProbeSchedule_stop s"

definition schedule_run :: "probe_schedule \<Rightarrow> schedule_event list \<Rightarrow> probe_schedule" where
  "schedule_run = run_steps schedule_step"

definition slot_run :: "health_check_config \<Rightarrow> health_slot \<Rightarrow> bool list \<Rightarrow> health_slot" where
  "slot_run settings = run_steps (\<lambda>slot success. snd (record_slot settings slot success))"

section \<open>Invariants\<close>

definition in_flight_count :: "probe_schedule \<Rightarrow> nat" where
  "in_flight_count s = length (filter pr_in_flight (sc_slots s))"

definition schedule_ok :: "probe_schedule \<Rightarrow> bool" where
  "schedule_ok s \<longleftrightarrow>
     (sc_slots s = [] \<or> sc_cursor s < length (sc_slots s)) \<and>
     unat (sc_active s) = in_flight_count s \<and> in_flight_count s \<le> 4"

text \<open>The length of the run of outcomes \<open>b\<close> that a history ends with.\<close>

definition streak :: "bool \<Rightarrow> bool list \<Rightarrow> nat" where
  "streak b outcomes = length (takeWhile (\<lambda>x. x = b) (rev outcomes))"

definition thresholds_ok :: "health_check_config \<Rightarrow> bool" where
  "thresholds_ok c \<longleftrightarrow>
     1 \<le> unat (hc_unhealthy_threshold c) \<and> unat (hc_unhealthy_threshold c) \<le> 10 \<and>
     1 \<le> unat (hc_healthy_threshold c) \<and> unat (hc_healthy_threshold c) \<le> 10"

text \<open>
  The hysteresis as a specification on histories: a healthy slot goes down when the history
  ends with enough failures, an unhealthy one comes back when it ends with enough successes.
\<close>

fun spec_healthy :: "nat \<Rightarrow> nat \<Rightarrow> bool list \<Rightarrow> bool list \<Rightarrow> bool \<Rightarrow> bool" where
  "spec_healthy up down past [] h = h"
| "spec_healthy up down past (x # xs) h =
     spec_healthy up down (past @ [x]) xs
       (if h then streak False (past @ [x]) < down else up \<le> streak True (past @ [x]))"

section \<open>Hysteresis of a slot\<close>

lemma streak_snoc: "streak b (xs @ [x]) = (if x = b then Suc (streak b xs) else 0)"
  by (simp add: streak_def)

lemma unat_min_inc:
  assumes "unat n \<le> unat t" "unat t \<le> 10"
  shows "unat (min (n + 1) t) = min (Suc (unat n)) (unat (t :: u32))"
proof -
  have "unat n + unat (1 :: u32) < 2 ^ LENGTH(32)"
    using assms by simp
  then have "unat (n + 1) = unat n + unat (1 :: u32)"
    by (rule unat_add_bound)
  then show ?thesis
    by (simp add: min_def word_le_nat_alt)
qed

text \<open>The counters are the streaks of the history, cut at the thresholds.\<close>

definition slot_tracks :: "health_check_config \<Rightarrow> bool list \<Rightarrow> health_slot \<Rightarrow> bool" where
  "slot_tracks c past slot \<longleftrightarrow>
     unat (hs_failures slot) = min (streak False past) (unat (hc_unhealthy_threshold c)) \<and>
     unat (hs_successes slot) = min (streak True past) (unat (hc_healthy_threshold c))"

lemma record_slot_tracks:
  assumes "thresholds_ok c" and "slot_tracks c past slot"
  shows "slot_tracks c (past @ [x]) (snd (record_slot c slot x)) \<and>
    hs_healthy (snd (record_slot c slot x)) =
      (if hs_healthy slot
       then streak False (past @ [x]) < unat (hc_unhealthy_threshold c)
       else unat (hc_healthy_threshold c) \<le> streak True (past @ [x])) \<and>
    (fst (record_slot c slot x) = Unchanged \<longleftrightarrow>
       hs_healthy (snd (record_slot c slot x)) = hs_healthy slot)"
proof (cases x)
  case True
  have "unat (min (hs_successes slot + 1) (hc_healthy_threshold c)) =
      min (Suc (unat (hs_successes slot))) (unat (hc_healthy_threshold c))"
    using assms by (intro unat_min_inc) (auto simp: thresholds_ok_def slot_tracks_def)
  then show ?thesis
    using True assms
    by (auto simp: record_slot_def record_success_def Let_def slot_tracks_def thresholds_ok_def
        streak_snoc word_unat_eq_iff min_def split: if_splits)
next
  case False
  have "unat (min (hs_failures slot + 1) (hc_unhealthy_threshold c)) =
      min (Suc (unat (hs_failures slot))) (unat (hc_unhealthy_threshold c))"
    using assms by (intro unat_min_inc) (auto simp: thresholds_ok_def slot_tracks_def)
  then show ?thesis
    using False assms
    by (auto simp: record_slot_def record_failure_def Let_def slot_tracks_def thresholds_ok_def
        streak_snoc word_unat_eq_iff min_def split: if_splits)
qed

lemma slot_run_tracks:
  assumes "thresholds_ok c" and "slot_tracks c past slot"
  shows "slot_tracks c (past @ xs) (slot_run c slot xs) \<and>
    hs_healthy (slot_run c slot xs) =
      spec_healthy (unat (hc_healthy_threshold c)) (unat (hc_unhealthy_threshold c)) past xs
        (hs_healthy slot)"
  using assms(2)
proof (induction xs arbitrary: past slot)
  case Nil
  then show ?case by (simp add: slot_run_def run_steps_def)
next
  case (Cons x xs)
  note step = record_slot_tracks [OF assms(1) Cons.prems, of x]
  then show ?case
    using Cons.IH [of "past @ [x]" "snd (record_slot c slot x)"]
    by (simp add: slot_run_def run_steps_def)
qed

text \<open>
  C17. Health hysteresis. For every configured pair of thresholds and every history of probe
  outcomes, a slot that started healthy is available exactly as the specification on histories
  says: it goes down when a run of failures reaches \<open>unhealthy_threshold\<close>, comes back when a
  run of successes reaches \<open>healthy_threshold\<close>, the 32-bit counters are the current streaks
  cut at the thresholds, and the next outcome reports a transition exactly when it changes the
  availability.
\<close>

theorem health_hysteresis:
  assumes "thresholds_ok c"
  shows "case slot_run c Slot_default outcomes of slot \<Rightarrow>
     hs_healthy slot = spec_healthy (unat (hc_healthy_threshold c))
       (unat (hc_unhealthy_threshold c)) [] outcomes True \<and>
     unat (hs_failures slot) = min (streak False outcomes) (unat (hc_unhealthy_threshold c)) \<and>
     unat (hs_successes slot) = min (streak True outcomes) (unat (hc_healthy_threshold c)) \<and>
     (fst (record_slot c slot x) = Unchanged \<longleftrightarrow>
        hs_healthy (snd (record_slot c slot x)) = hs_healthy slot)"
proof -
  have "slot_tracks c [] Slot_default"
    by (simp add: slot_tracks_def Slot_default_def streak_def)
  from slot_run_tracks [OF assms this, of outcomes] record_slot_tracks [OF assms]
  show ?thesis
    by (simp add: slot_tracks_def Slot_default_def)
qed

theorem health_hysteresis_witness:
  "\<not> hs_healthy (slot_run \<lparr>hc_path = ''/h'', hc_interval_ms = 5000, hc_timeout_ms = 1000,
       hc_unhealthy_threshold = 3, hc_healthy_threshold = 2\<rparr> Slot_default
       [True, False, False, False, True])"
proof -
  have "thresholds_ok \<lparr>hc_path = ''/h'', hc_interval_ms = 5000, hc_timeout_ms = 1000,
      hc_unhealthy_threshold = 3, hc_healthy_threshold = 2\<rparr>"
    by (simp add: thresholds_ok_def)
  from health_hysteresis [OF this, of "[True, False, False, False, True]" True]
  show ?thesis by (simp add: streak_def)
qed

section \<open>The health state of all routes\<close>

lemma health_new_available:
  "i < length routes \<Longrightarrow> j < length (route_upstreams (routes ! i)) \<Longrightarrow>
   UpstreamHealthState_available (UpstreamHealthState_new routes) i j = Inr True"
  by (simp add: UpstreamHealthState_available_def UpstreamHealthState_new_def vec_at_def
      Slot_default_def)

text \<open>The shape of the health state: one entry per route, one slot per upstream.\<close>

definition health_shape :: "route_config list \<Rightarrow> health_route list \<Rightarrow> bool" where
  "health_shape routes hs \<longleftrightarrow>
     map hr_config hs = map route_health_check routes \<and>
     map (length \<circ> hr_slots) hs = map (length \<circ> route_upstreams) routes"

lemma health_shape_new: "health_shape routes (UpstreamHealthState_new routes)"
  by (simp add: health_shape_def UpstreamHealthState_new_def o_def)

lemma health_shape_nth:
  assumes "health_shape routes hs" and "i < length routes"
  shows "i < length hs" "length (hr_slots (hs ! i)) = length (route_upstreams (routes ! i))"
    "hr_config (hs ! i) = route_health_check (routes ! i)"
proof -
  have len: "length hs = length routes"
    using assms(1) by (metis health_shape_def length_map)
  with assms(2) show i: "i < length hs" by simp
  show "length (hr_slots (hs ! i)) = length (route_upstreams (routes ! i))"
    using assms i arg_cong [where f = "\<lambda>xs. xs ! i", OF assms(1) [unfolded health_shape_def, THEN conjunct2]]
    by simp
  show "hr_config (hs ! i) = route_health_check (routes ! i)"
    using assms i arg_cong [where f = "\<lambda>xs. xs ! i", OF assms(1) [unfolded health_shape_def, THEN conjunct1]]
    by simp
qed

lemma health_available_total:
  assumes "health_shape routes hs" "i < length routes" "j < length (route_upstreams (routes ! i))"
  shows "UpstreamHealthState_available hs i j = Inr (hs_healthy (hr_slots (hs ! i) ! j))"
  using assms health_shape_nth [OF assms(1,2)]
  by (simp add: UpstreamHealthState_available_def vec_at_def)

lemma health_record_frame:
  assumes "UpstreamHealthState_record hs i j success = Inr (t, hs')"
  shows "map hr_config hs' = map hr_config hs"
    "map (length \<circ> hr_slots) hs' = map (length \<circ> hr_slots) hs"
    "\<And>i'. i' \<noteq> i \<Longrightarrow> hs' ! i' = hs ! i'"
    "\<And>j'. j' \<noteq> j \<Longrightarrow> hr_slots (hs' ! i) ! j' = hr_slots (hs ! i) ! j'"
proof -
  have r: "i < length hs" "j < length (hr_slots (hs ! i))"
    using assms by (auto simp: UpstreamHealthState_record_def elim!: bind_result_InrE)
  obtain ss where ss: "hs' = hs[i := (hs ! i)\<lparr>hr_slots := ss\<rparr>]"
    "length ss = length (hr_slots (hs ! i))" "\<And>j'. j' \<noteq> j \<Longrightarrow> ss ! j' = hr_slots (hs ! i) ! j'"
  proof (cases "hr_config (hs ! i)")
    case None
    then have "hs' = hs[i := (hs ! i)\<lparr>hr_slots := hr_slots (hs ! i)\<rparr>]"
      using assms r by (simp add: UpstreamHealthState_record_def vec_at_def)
    then show ?thesis by (rule that) simp_all
  next
    case (Some c)
    then have "hs' = hs[i := (hs ! i)\<lparr>hr_slots := (hr_slots (hs ! i))[j :=
        snd (record_slot c (hr_slots (hs ! i) ! j) success)]\<rparr>]"
      using assms r
      by (auto simp: UpstreamHealthState_record_def vec_at_def split: prod.splits)
    then show ?thesis by (rule that) simp_all
  qed
  show "map hr_config hs' = map hr_config hs"
    "map (length \<circ> hr_slots) hs' = map (length \<circ> hr_slots) hs"
    using ss(2) unfolding ss(1) by (simp_all add: map_update_same)
  show "\<And>i'. i' \<noteq> i \<Longrightarrow> hs' ! i' = hs ! i'"
    "\<And>j'. j' \<noteq> j \<Longrightarrow> hr_slots (hs' ! i) ! j' = hr_slots (hs ! i) ! j'"
    using ss r by simp_all
qed

lemma health_shape_record:
  "health_shape routes hs \<Longrightarrow> UpstreamHealthState_record hs i j success = Inr (t, hs') \<Longrightarrow>
   health_shape routes hs'"
  using health_record_frame(1,2) [of hs i j success t hs'] by (simp add: health_shape_def)

section \<open>The probe schedule\<close>

lemma take_due_loop_scan:
  assumes "sc_cursor s < length (sc_slots s)"
  shows "take_due_loop todo s now =
    (case scan_from todo (\<lambda>i. slot_due now (sc_slots s ! i)) (length (sc_slots s)) (sc_cursor s) of
       None \<Rightarrow> (s\<lparr>sc_cursor := (sc_cursor s + todo) mod length (sc_slots s)\<rparr>, None)
     | Some i \<Rightarrow>
         (s\<lparr>sc_cursor := next_index (length (sc_slots s)) i,
            sc_slots := (sc_slots s)[i := (sc_slots s ! i)\<lparr>pr_in_flight := True,
              pr_due := deadline_after now (pr_interval (sc_slots s ! i) * 1000000)\<rparr>],
            sc_active := sc_active s + 1\<rparr>, Some i))"
  using assms
proof (induction todo arbitrary: s)
  case 0
  then show ?case by simp
next
  case (Suc todo)
  let ?n = "length (sc_slots s)"
  let ?s1 = "s\<lparr>sc_cursor := next_index ?n (sc_cursor s)\<rparr>"
  have mod: "(next_index ?n (sc_cursor s) + todo) mod ?n = (sc_cursor s + Suc todo) mod ?n"
    using Suc.prems by (simp add: next_index_mod mod_add_left_eq)
  have "take_due_loop todo ?s1 now =
    (case scan_from todo (\<lambda>i. slot_due now (sc_slots s ! i)) ?n (next_index ?n (sc_cursor s)) of
       None \<Rightarrow> (s\<lparr>sc_cursor := (sc_cursor s + Suc todo) mod ?n\<rparr>, None)
     | Some i \<Rightarrow>
         (s\<lparr>sc_cursor := next_index ?n i,
            sc_slots := (sc_slots s)[i := (sc_slots s ! i)\<lparr>pr_in_flight := True,
              pr_due := deadline_after now (pr_interval (sc_slots s ! i) * 1000000)\<rparr>],
            sc_active := sc_active s + 1\<rparr>, Some i))"
    using Suc.IH [of ?s1] next_index_less [OF Suc.prems] by (simp add: mod cong: option.case_cong)
  moreover have "(if sc_cursor s + 1 = ?n then 0 else sc_cursor s + 1) =
      next_index ?n (sc_cursor s)"
    by (simp add: next_index_def)
  ultimately show ?case
    unfolding take_due_loop.simps Let_def scan_from.simps by simp
qed

text \<open>The result of \<open>take_due\<close>: the first due slot in the cyclic order from the cursor.\<close>

lemma take_due_find:
  assumes "schedule_ok s" and "\<not> sc_stopped s" and "sc_active s \<noteq> max_in_flight"
  shows "ProbeSchedule_take_due s now =
    (case find (\<lambda>i. slot_due now (sc_slots s ! i)) (rotation (length (sc_slots s)) (sc_cursor s)) of
       None \<Rightarrow> (s, None)
     | Some i \<Rightarrow>
         (s\<lparr>sc_cursor := next_index (length (sc_slots s)) i,
            sc_slots := (sc_slots s)[i := (sc_slots s ! i)\<lparr>pr_in_flight := True,
              pr_due := deadline_after now (pr_interval (sc_slots s ! i) * 1000000)\<rparr>],
            sc_active := sc_active s + 1\<rparr>, Some i))"
proof (cases "sc_slots s = []")
  case True
  then show ?thesis
    using assms by (simp add: ProbeSchedule_take_due_def rotation_def)
next
  case False
  then have "sc_cursor s < length (sc_slots s)"
    using assms(1) by (simp add: schedule_ok_def)
  then show ?thesis
    using assms
    by (simp add: ProbeSchedule_take_due_def take_due_loop_scan scan_from_rotation
        cong: option.case_cong)
qed

lemma take_due_ok: "schedule_ok s \<Longrightarrow> schedule_ok (fst (ProbeSchedule_take_due s now))"
proof (cases "sc_stopped s \<or> sc_active s = max_in_flight")
  case True
  assume "schedule_ok s"
  then show ?thesis using True by (simp add: ProbeSchedule_take_due_def)
next
  case False
  assume ok: "schedule_ok s"
  let ?P = "\<lambda>i. slot_due now (sc_slots s ! i)" and ?n = "length (sc_slots s)"
  show ?thesis
  proof (cases "find ?P (rotation ?n (sc_cursor s))")
    case None
    then show ?thesis using False ok by (simp add: take_due_find)
  next
    case (Some i)
    have "sc_slots s \<noteq> []"
      using Some by (auto simp: rotation_def)
    then have cur: "sc_cursor s < ?n"
      using ok by (simp add: schedule_ok_def)
    note i = find_rotation_Some(1,2) [OF cur Some]
    let ?x = "(sc_slots s ! i)\<lparr>pr_in_flight := True,
        pr_due := deadline_after now (pr_interval (sc_slots s ! i) * 1000000)\<rparr>"
    have count: "length (filter pr_in_flight ((sc_slots s)[i := ?x])) = Suc (in_flight_count s)"
      using count_update [of i "sc_slots s" pr_in_flight ?x] i
      by (simp add: slot_due_def in_flight_count_def)
    have "unat (sc_active s) \<noteq> 4"
      using False by (auto simp: max_in_flight_def word_unat_eq_iff)
    then have "unat (sc_active s) < 4"
      using ok by (simp add: schedule_ok_def)
    then have "unat (sc_active s + 1) = Suc (unat (sc_active s))"
      by (intro unat_inc [of _ 4]) (simp add: word_less_nat_alt)
    then show ?thesis
      using False ok Some count i \<open>unat (sc_active s) < 4\<close>
      by (simp add: take_due_find schedule_ok_def next_index_less in_flight_count_def)
  qed
qed

lemma complete_ok:
  assumes "schedule_ok s" and "ProbeSchedule_complete s i = Inr s'"
  shows "schedule_ok s'"
proof (cases "i < length (sc_slots s) \<and> pr_in_flight (sc_slots s ! i)")
  case True
  let ?x = "(sc_slots s ! i)\<lparr>pr_in_flight := False\<rparr>"
  have s': "s' = s\<lparr>sc_slots := (sc_slots s)[i := ?x], sc_active := sc_active s - 1\<rparr>"
    using assms(2) True by (simp add: ProbeSchedule_complete_def vec_at_def)
  have count: "length (filter pr_in_flight ((sc_slots s)[i := ?x])) = in_flight_count s - 1"
    using count_update [of i "sc_slots s" pr_in_flight ?x] True by (simp add: in_flight_count_def)
  have "0 < in_flight_count s"
    using True by (auto simp: in_flight_count_def filter_empty_conv dest: nth_mem)
  then have "unat (sc_active s - 1) = unat (sc_active s) - 1"
    using assms(1) by (intro unat_dec) (simp add: schedule_ok_def word_less_nat_alt)
  then show ?thesis
    using assms(1) count by (auto simp: s' schedule_ok_def in_flight_count_def)
next
  case False
  then show ?thesis
    using assms by (auto simp: ProbeSchedule_complete_def elim!: bind_result_InrE split: if_splits)
qed

lemma stop_ok: "schedule_ok s \<Longrightarrow> schedule_ok (ProbeSchedule_stop s)"
  by (auto simp: schedule_ok_def ProbeSchedule_stop_def in_flight_count_def filter_map o_def)

interpretation schedule: step_invariant schedule_step schedule_ok
proof
  fix s e assume "schedule_ok s"
  then show "schedule_ok (schedule_step s e)"
    by (cases e) (auto simp: take_due_ok stop_ok split: sum.split intro: complete_ok)
qed

lemma schedule_new_ok:
  assumes "ProbeSchedule_new intervals now = Inr s"
  shows "schedule_ok s" "length (sc_slots s) = length intervals"
proof -
  from assms obtain slots where
    slots: "map_result (\<lambda>interval.
        if sint interval < 100 \<or> 60000 < sint interval
        then Inl (Invalid_argument ''probe interval must be positive'')
        else Inr \<lparr>pr_interval = interval, pr_due = now, pr_in_flight = False\<rparr>) intervals = Inr slots"
    and s: "s = \<lparr>sc_slots = slots, sc_cursor = 0, sc_active = 0, sc_stopped = False\<rparr>"
    by (auto simp: ProbeSchedule_new_def elim: bind_result_InrE)
  show len: "length (sc_slots s) = length intervals"
    using map_result_length [OF slots] by (simp add: s)
  have "\<not> pr_in_flight (slots ! i)" if "i < length slots" for i
    using map_result_nth [OF slots, of i] map_result_length [OF slots] that
    by (auto split: if_splits) (metis probe_slot.select_convs(3))
  then have "filter pr_in_flight slots = []"
    by (auto simp: filter_empty_conv in_set_conv_nth)
  then show "schedule_ok s"
    by (simp add: schedule_ok_def s in_flight_count_def)
qed

lemma schedule_run_ok:
  "ProbeSchedule_new intervals t0 = Inr s0 \<Longrightarrow> schedule_ok (schedule_run s0 es)"
  unfolding schedule_run_def by (intro schedule.run_inv schedule_new_ok(1))

lemma active_full: "schedule_ok s \<Longrightarrow> sc_active s = max_in_flight \<longleftrightarrow> in_flight_count s = 4"
  by (auto simp: schedule_ok_def max_in_flight_def word_unat_eq_iff)

lemma take_due_None_iff:
  assumes "schedule_ok s"
  shows "snd (ProbeSchedule_take_due s now) = None \<longleftrightarrow>
     sc_stopped s \<or> in_flight_count s = 4 \<or> (\<forall>slot \<in> set (sc_slots s). \<not> slot_due now slot)"
proof (cases "sc_stopped s \<or> sc_active s = max_in_flight")
  case True
  then show ?thesis
    using active_full [OF assms] by (auto simp: ProbeSchedule_take_due_def)
next
  case False
  then have "snd (ProbeSchedule_take_due s now) = None \<longleftrightarrow>
      find (\<lambda>i. slot_due now (sc_slots s ! i)) (rotation (length (sc_slots s)) (sc_cursor s)) = None"
    using assms by (auto simp: take_due_find split: option.split)
  also have "\<dots> \<longleftrightarrow> (\<forall>i < length (sc_slots s). \<not> slot_due now (sc_slots s ! i))"
    using assms find_rotation_None
    by (cases "sc_slots s = []") (auto simp: schedule_ok_def rotation_def)
  finally show ?thesis
    using False active_full [OF assms] by (simp add: all_set_conv_all_nth)
qed

lemma take_due_Some:
  assumes "schedule_ok s" and "ProbeSchedule_take_due s now = (s', Some i)"
  shows "i < length (sc_slots s)" "slot_due now (sc_slots s ! i)"
    "\<And>k. k < length (sc_slots s) \<Longrightarrow>
       cyclic_distance (length (sc_slots s)) (sc_cursor s) k <
       cyclic_distance (length (sc_slots s)) (sc_cursor s) i \<Longrightarrow> \<not> slot_due now (sc_slots s ! k)"
    "sc_cursor s < length (sc_slots s)"
    "s' = s\<lparr>sc_cursor := next_index (length (sc_slots s)) i,
            sc_slots := (sc_slots s)[i := (sc_slots s ! i)\<lparr>pr_in_flight := True,
              pr_due := deadline_after now (pr_interval (sc_slots s ! i) * 1000000)\<rparr>],
            sc_active := sc_active s + 1\<rparr>"
proof -
  let ?P = "\<lambda>i. slot_due now (sc_slots s ! i)" and ?n = "length (sc_slots s)"
  have run: "\<not> sc_stopped s" "sc_active s \<noteq> max_in_flight"
    using assms(2) by (auto simp: ProbeSchedule_take_due_def split: if_splits)
  then have found: "find ?P (rotation ?n (sc_cursor s)) = Some i"
    and s': "s' = s\<lparr>sc_cursor := next_index (length (sc_slots s)) i,
            sc_slots := (sc_slots s)[i := (sc_slots s ! i)\<lparr>pr_in_flight := True,
              pr_due := deadline_after now (pr_interval (sc_slots s ! i) * 1000000)\<rparr>],
            sc_active := sc_active s + 1\<rparr>"
    using assms by (auto simp: take_due_find split: option.splits)
  then have "sc_slots s \<noteq> []"
    by (auto simp: rotation_def)
  then show cur: "sc_cursor s < ?n"
    using assms(1) by (simp add: schedule_ok_def)
  show "s' = s\<lparr>sc_cursor := next_index (length (sc_slots s)) i,
            sc_slots := (sc_slots s)[i := (sc_slots s ! i)\<lparr>pr_in_flight := True,
              pr_due := deadline_after now (pr_interval (sc_slots s ! i) * 1000000)\<rparr>],
            sc_active := sc_active s + 1\<rparr>"
    by (rule s')
  show "i < ?n" "?P i" "\<And>k. k < ?n \<Longrightarrow>
      cyclic_distance ?n (sc_cursor s) k < cyclic_distance ?n (sc_cursor s) i \<Longrightarrow> \<not> ?P k"
    using find_rotation_Some [OF cur found] by auto
qed

text \<open>The fold of \<open>next_due\<close> computes the earliest due time of the idle slots.\<close>

lemma next_due_fold:
  fixes slots acc
  defines "r \<equiv> foldl (\<lambda>next slot.
        if \<not> pr_in_flight slot \<and> (case next of None \<Rightarrow> True | Some d \<Rightarrow> sint (pr_due slot) < sint d)
        then Some (pr_due slot) else next) acc slots"
  shows "(r = None \<longleftrightarrow> acc = None \<and> (\<forall>slot \<in> set slots. pr_in_flight slot)) \<and>
    (\<forall>d. r = Some d \<longrightarrow>
      (acc = Some d \<or> (\<exists>slot \<in> set slots. \<not> pr_in_flight slot \<and> pr_due slot = d)) \<and>
      (\<forall>d'. acc = Some d' \<longrightarrow> sint d \<le> sint d') \<and>
      (\<forall>slot \<in> set slots. \<not> pr_in_flight slot \<longrightarrow> sint d \<le> sint (pr_due slot)))"
  unfolding r_def
proof (induction slots arbitrary: acc)
  case Nil
  then show ?case by auto
next
  case (Cons x xs)
  show ?case
    using Cons.IH [of "if \<not> pr_in_flight x \<and>
        (case acc of None \<Rightarrow> True | Some d \<Rightarrow> sint (pr_due x) < sint d) then Some (pr_due x) else acc"]
    by (cases acc) (auto split: if_splits)
qed

text \<open>
  C18. At most four probes are in flight. For every schedule the constructor accepts and every
  sequence of \<open>take_due\<close>, \<open>complete\<close> and \<open>stop\<close> calls, the counter \<open>active\<close> is the number of
  slots marked in flight, never more than four, and the rotating cursor is a valid index.
\<close>

theorem probe_schedule_bounded:
  assumes "ProbeSchedule_new intervals t0 = Inr s0"
  shows "case schedule_run s0 es of s \<Rightarrow>
     unat (sc_active s) = length (filter pr_in_flight (sc_slots s)) \<and> unat (sc_active s) \<le> 4 \<and>
     (sc_slots s = [] \<or> sc_cursor s < length (sc_slots s))"
  using schedule_run_ok [OF assms, of es] by (auto simp: schedule_ok_def in_flight_count_def)

theorem probe_schedule_bounded_witness:
  "unat (sc_active (schedule_run
      \<lparr>sc_slots = [\<lparr>pr_interval = 100, pr_due = 0, pr_in_flight = False\<rparr>], sc_cursor = 0,
       sc_active = 0, sc_stopped = False\<rparr> [Take_due 0, Take_due 0])) \<le> 4"
proof -
  have "ProbeSchedule_new [100] 0 = Inr
      \<lparr>sc_slots = [\<lparr>pr_interval = 100, pr_due = 0, pr_in_flight = False\<rparr>], sc_cursor = 0,
       sc_active = 0, sc_stopped = False\<rparr>"
    by (simp add: ProbeSchedule_new_def)
  from probe_schedule_bounded [OF this, of "[Take_due 0, Take_due 0]"] show ?thesis by simp
qed

text \<open>
  C19. \<open>take_due\<close> picks the right slot. In every reachable schedule it returns a slot unless the
  schedule is stopped, four probes are in flight or no slot is due; the slot it returns is idle
  and due, no due slot comes before it in the cyclic order from the cursor, and the call marks
  exactly that slot in flight, moves its next due time one interval on and the cursor past it.
\<close>

theorem take_due_correct:
  assumes "ProbeSchedule_new intervals t0 = Inr s0" and "s = schedule_run s0 es"
    and "ProbeSchedule_take_due s now = (s', r)"
  shows "(r = None \<longleftrightarrow> sc_stopped s \<or> length (filter pr_in_flight (sc_slots s)) = 4 \<or>
            (\<forall>slot \<in> set (sc_slots s). \<not> slot_due now slot)) \<and>
         (\<forall>i. r = Some i \<longrightarrow> i < length (sc_slots s) \<and> slot_due now (sc_slots s ! i) \<and>
            (\<forall>k < length (sc_slots s).
               cyclic_distance (length (sc_slots s)) (sc_cursor s) k <
               cyclic_distance (length (sc_slots s)) (sc_cursor s) i \<longrightarrow>
               \<not> slot_due now (sc_slots s ! k)) \<and>
            s' = s\<lparr>sc_cursor := next_index (length (sc_slots s)) i,
              sc_slots := (sc_slots s)[i := (sc_slots s ! i)\<lparr>pr_in_flight := True,
                pr_due := deadline_after now (pr_interval (sc_slots s ! i) * 1000000)\<rparr>],
              sc_active := sc_active s + 1\<rparr>)"
proof -
  have ok: "schedule_ok s"
    unfolding assms(2) using assms(1) by (rule schedule_run_ok)
  show ?thesis
    using take_due_None_iff [OF ok, of now] take_due_Some [OF ok, of now s'] assms(3)
    by (auto simp: in_flight_count_def)
qed

theorem take_due_correct_witness:
  "\<not> slot_due 5 \<lparr>pr_interval = 100, pr_due = 100000000, pr_in_flight = True\<rparr> \<and>
   snd (ProbeSchedule_take_due
     \<lparr>sc_slots = [\<lparr>pr_interval = 100, pr_due = 100000000, pr_in_flight = True\<rparr>,
        \<lparr>pr_interval = 200, pr_due = 0, pr_in_flight = False\<rparr>], sc_cursor = 1,
      sc_active = 1, sc_stopped = False\<rparr> 5) \<noteq> None"
proof -
  let ?init = "\<lparr>sc_slots = [\<lparr>pr_interval = 100, pr_due = 0, pr_in_flight = False\<rparr>,
        \<lparr>pr_interval = 200, pr_due = 0, pr_in_flight = False\<rparr>], sc_cursor = 0,
      sc_active = 0, sc_stopped = False\<rparr>"
  let ?s = "\<lparr>sc_slots = [\<lparr>pr_interval = 100, pr_due = 100000000, pr_in_flight = True\<rparr>,
        \<lparr>pr_interval = 200, pr_due = 0, pr_in_flight = False\<rparr>], sc_cursor = 1,
      sc_active = 1, sc_stopped = False\<rparr>"
  have new: "ProbeSchedule_new [100, 200] 0 = Inr ?init"
    by code_simp
  have run: "?s = schedule_run ?init [Take_due 0]"
    by code_simp
  have "snd (ProbeSchedule_take_due ?s 5) = None \<longleftrightarrow> sc_stopped ?s \<or>
      length (filter pr_in_flight (sc_slots ?s)) = 4 \<or>
      (\<forall>slot \<in> set (sc_slots ?s). \<not> slot_due 5 slot)"
    by (rule take_due_correct [OF new run surjective_pairing, THEN conjunct1])
  then show ?thesis
    by (simp add: slot_due_def)
qed

text \<open>
  C20. No due slot is starved. Whenever \<open>take_due\<close> picks a slot other than a due slot \<open>k\<close>, the
  cyclic distance from the cursor to \<open>k\<close> strictly decreases, and \<open>k\<close> stays due at every
  later time; so \<open>k\<close> is picked after fewer successful calls than there are slots.
\<close>

theorem take_due_no_starvation:
  assumes "ProbeSchedule_new intervals t0 = Inr s0" and "s = schedule_run s0 es"
    and "ProbeSchedule_take_due s now = (s', Some i)"
    and "k < length (sc_slots s)" and "slot_due now (sc_slots s ! k)" and "i \<noteq> k"
  shows "cyclic_distance (length (sc_slots s')) (sc_cursor s') k <
           cyclic_distance (length (sc_slots s)) (sc_cursor s) k \<and>
         cyclic_distance (length (sc_slots s)) (sc_cursor s) k < length (sc_slots s) \<and>
         (\<forall>later. sint now \<le> sint later \<longrightarrow> slot_due later (sc_slots s' ! k))"
proof -
  have ok: "schedule_ok s"
    unfolding assms(2) using assms(1) by (rule schedule_run_ok)
  let ?n = "length (sc_slots s)" and ?c = "sc_cursor s"
  note got = take_due_Some [OF ok assms(3)]
  have "cyclic_distance ?n ?c i \<le> cyclic_distance ?n ?c k"
    using got(3) [of k] assms(4,5) by (meson leI)
  moreover have "cyclic_distance ?n ?c i \<noteq> cyclic_distance ?n ?c k"
    using cyclic_distance_inj [OF got(4) got(1) assms(4)] assms(6) by blast
  ultimately have "cyclic_distance ?n (next_index ?n i) k < cyclic_distance ?n ?c k"
    using got(1,4) assms(4) by (intro cyclic_distance_next) auto
  moreover have "cyclic_distance ?n ?c k < ?n"
    using got(4) unfolding cyclic_distance_def by (intro mod_less_divisor) linarith
  ultimately show ?thesis
    using assms(5,6) by (auto simp: got(5) slot_due_def)
qed

text \<open>
  C21. The wake-up time is exact. In every reachable schedule, when \<open>next_due\<close> gives a time, that
  time is the due time of an idle slot and \<open>take_due\<close> finds work exactly from that time on;
  when it gives none, \<open>take_due\<close> finds no work at any time.
\<close>

theorem next_due_exact:
  assumes "ProbeSchedule_new intervals t0 = Inr s0" and "s = schedule_run s0 es"
  shows "case ProbeSchedule_next_due s of
     None \<Rightarrow> (\<forall>now. snd (ProbeSchedule_take_due s now) = None)
   | Some d \<Rightarrow> (\<exists>slot \<in> set (sc_slots s). \<not> pr_in_flight slot \<and> pr_due slot = d) \<and>
       (\<forall>now. snd (ProbeSchedule_take_due s now) \<noteq> None \<longleftrightarrow> sint d \<le> sint now)"
proof -
  have ok: "schedule_ok s"
    unfolding assms(2) using assms(1) by (rule schedule_run_ok)
  show ?thesis
  proof (cases "sc_stopped s \<or> sc_active s = max_in_flight")
    case True
    then show ?thesis
      by (auto simp: ProbeSchedule_next_due_def ProbeSchedule_take_due_def)
  next
    case False
    then have full: "\<not> sc_stopped s" "in_flight_count s \<noteq> 4"
      using active_full [OF ok] by auto
    have none: "snd (ProbeSchedule_take_due s now) = None \<longleftrightarrow>
        (\<forall>slot \<in> set (sc_slots s). \<not> slot_due now slot)" for now
      using take_due_None_iff [OF ok] full by auto
    show ?thesis
    proof (cases "ProbeSchedule_next_due s")
      case None
      then have "\<forall>slot \<in> set (sc_slots s). pr_in_flight slot"
        using next_due_fold [of None "sc_slots s"] False by (simp add: ProbeSchedule_next_due_def)
      then show ?thesis
        using None by (simp add: none slot_due_def)
    next
      case (Some d)
      then have d: "\<exists>slot \<in> set (sc_slots s). \<not> pr_in_flight slot \<and> pr_due slot = d"
        and min: "\<forall>slot \<in> set (sc_slots s). \<not> pr_in_flight slot \<longrightarrow> sint d \<le> sint (pr_due slot)"
        using next_due_fold [of None "sc_slots s"] False by (auto simp: ProbeSchedule_next_due_def)
      have "snd (ProbeSchedule_take_due s now) \<noteq> None \<longleftrightarrow> sint d \<le> sint now" for now
        using d min unfolding none slot_due_def by (metis order_trans)
      then show ?thesis
        using Some d by simp
    qed
  qed
qed

theorem next_due_exact_witness:
  "snd (ProbeSchedule_take_due
     \<lparr>sc_slots = [\<lparr>pr_interval = 100, pr_due = 7, pr_in_flight = False\<rparr>], sc_cursor = 0,
      sc_active = 0, sc_stopped = False\<rparr> 6) = None"
proof -
  let ?s = "\<lparr>sc_slots = [\<lparr>pr_interval = 100, pr_due = 7, pr_in_flight = False\<rparr>], sc_cursor = 0,
      sc_active = 0, sc_stopped = False\<rparr>"
  have new: "ProbeSchedule_new [100] 7 = Inr ?s"
    by (simp add: ProbeSchedule_new_def)
  have run: "?s = schedule_run ?s []"
    by (simp add: schedule_run_def run_steps_def)
  have "ProbeSchedule_next_due ?s = Some 7"
    by (simp add: ProbeSchedule_next_due_def max_in_flight_def)
  then have "snd (ProbeSchedule_take_due ?s 6) \<noteq> None \<longleftrightarrow> sint (7 :: time_point) \<le> sint (6 :: time_point)"
    using next_due_exact [OF new run] by simp
  then show ?thesis by simp
qed

theorem take_due_no_starvation_witness:
  "cyclic_distance 2 1 1 < cyclic_distance 2 0 1"
proof -
  let ?s = "\<lparr>sc_slots = [\<lparr>pr_interval = 100, pr_due = 0, pr_in_flight = False\<rparr>,
        \<lparr>pr_interval = 200, pr_due = 0, pr_in_flight = False\<rparr>], sc_cursor = 0,
      sc_active = 0, sc_stopped = False\<rparr>"
  let ?s' = "\<lparr>sc_slots = [\<lparr>pr_interval = 100, pr_due = 100000000, pr_in_flight = True\<rparr>,
        \<lparr>pr_interval = 200, pr_due = 0, pr_in_flight = False\<rparr>], sc_cursor = 1,
      sc_active = 1, sc_stopped = False\<rparr>"
  have new: "ProbeSchedule_new [100, 200] 0 = Inr ?s"
    by (simp add: ProbeSchedule_new_def)
  have run: "?s = schedule_run ?s []"
    by (simp add: schedule_run_def run_steps_def)
  have take: "ProbeSchedule_take_due ?s 0 = (?s', Some 0)"
    by code_simp
  show ?thesis
    using take_due_no_starvation [OF new run take, of 1] by (simp add: slot_due_def numeral_2_eq_2)
qed

end
