(* ===== verification/ServerState.thy ===== *)
theory ServerState
  imports Prelude
begin

text \<open>
  The small state machines of the server, \<open>src/http_server_internal.hpp\<close> and lines 48 to 320
  of \<open>src/http_server.cpp\<close>: the disposition of completions, the shutdown signals, the drain,
  the accept capacity, the permits for concurrent proxies and the claim of the runtime failure.
  Counters are 64-bit words, incremented with wrap-around as in the code. A \<open>ProxyPermit\<close>
  holds a null pointer or a pointer to the one \<open>ProxyAdmissionState\<close> of the server.
\<close>

section \<open>Data\<close>

datatype http_write_disposition =
    Write_success | Write_expected_cancellation | Write_client_disconnected | Write_unexpected_error

datatype accept_retry_disposition = Retry_retry | Retry_stopped | Retry_fatal

datatype accept_capacity_action = Action_none | Start_accept | Pause | Resume_and_start

datatype server_drain_phase = Running | Draining | Force_stopping | Completed

datatype drain_start_result = Drain_unchanged | Drain_started | Drain_completed

datatype drain_timer_disposition = Timer_ignored | Timer_timed_out | Timer_fatal

datatype session_phase = Handshaking | Reading | Proxying | Writing | Closing | Finished

datatype session_drain_disposition = Close_immediately | Wait_for_current | Session_ignored

datatype shutdown_signal_disposition =
    Signal_begin_drain | Signal_force_stop | Signal_ignored | Signal_fatal

record shutdown_signal_state =
  sig_draining :: bool
  sig_force_requested :: bool
  sig_completed :: bool

record drain_state =
  drain_phase :: server_drain_phase
  active_sessions :: usize

record accept_capacity_state =
  max_connections :: usize
  active_connections :: usize
  accept_pending :: bool
  retry_pending :: bool
  accept_paused :: bool
  accept_stopped :: bool

record proxy_permit =
  pp_state :: bool

record proxy_admission_state =
  max_proxies :: usize
  active_proxies :: usize

record runtime_failure_state =
  rf_claimed :: bool

section \<open>Classification of completions\<close>

definition classify_http_write_result :: "error_code \<Rightarrow> bool \<Rightarrow> http_write_disposition" where
  "classify_http_write_result error stopping =
     (if stopping \<or> error = Some Operation_aborted then Write_expected_cancellation
      else if error = None then Write_success
      else if error = Some Broken_pipe \<or> error = Some Connection_aborted \<or>
        error = Some Connection_reset \<or> error = Some Eof then Write_client_disconnected
      else Write_unexpected_error)"

definition classify_accept_retry_completion ::
  "error_code \<Rightarrow> bool \<Rightarrow> accept_retry_disposition" where
  "classify_accept_retry_completion error stopping =
     (if stopping then Retry_stopped
      else if error \<noteq> None then Retry_fatal
      else Retry_retry)"

definition classify_drain_timer_completion ::
  "error_code \<Rightarrow> server_drain_phase \<Rightarrow> drain_timer_disposition" where
  "classify_drain_timer_completion error phase =
     (if phase \<noteq> Draining then Timer_ignored
      else if error = None then Timer_timed_out
      else Timer_fatal)"

fun classify_session_drain :: "session_phase \<Rightarrow> session_drain_disposition" where
  "classify_session_drain Handshaking = Close_immediately"
| "classify_session_drain Reading = Close_immediately"
| "classify_session_drain Proxying = Wait_for_current"
| "classify_session_drain Writing = Wait_for_current"
| "classify_session_drain Closing = Wait_for_current"
| "classify_session_drain Finished = Session_ignored"

section \<open>Shutdown signals\<close>

definition ShutdownSignalState_new :: shutdown_signal_state where
  "ShutdownSignalState_new =
     \<lparr>sig_draining = False, sig_force_requested = False, sig_completed = False\<rparr>"

definition ShutdownSignalState_on_wait_completion ::
  "shutdown_signal_state \<Rightarrow> error_code \<Rightarrow>
   shutdown_signal_state \<times> shutdown_signal_disposition" where
  "ShutdownSignalState_on_wait_completion s error =
     (if error \<noteq> None then
        if sig_completed s \<and> error = Some Operation_aborted then (s, Signal_ignored)
        else (s, Signal_fatal)
      else if sig_completed s \<or> sig_force_requested s then (s, Signal_ignored)
      else if \<not> sig_draining s then (s\<lparr>sig_draining := True\<rparr>, Signal_begin_drain)
      else (s\<lparr>sig_force_requested := True\<rparr>, Signal_force_stop))"

definition ShutdownSignalState_mark_completed ::
  "shutdown_signal_state \<Rightarrow> shutdown_signal_state" where
  "ShutdownSignalState_mark_completed s = s\<lparr>sig_completed := True\<rparr>"

section \<open>Draining\<close>

definition DrainState_new :: drain_state where
  "DrainState_new = \<lparr>drain_phase = Running, active_sessions = 0\<rparr>"

definition DrainState_session_started :: "drain_state \<Rightarrow> drain_state" where
  "DrainState_session_started d =
     (if drain_phase d = Running then d\<lparr>active_sessions := active_sessions d + 1\<rparr> else d)"

definition DrainState_session_finished :: "drain_state \<Rightarrow> drain_state \<times> bool" where
  "DrainState_session_finished d =
     (if active_sessions d = 0 then (d, False)
      else let d = d\<lparr>active_sessions := active_sessions d - 1\<rparr> in
        if active_sessions d = 0 \<and> (drain_phase d = Draining \<or> drain_phase d = Force_stopping)
        then (d\<lparr>drain_phase := Completed\<rparr>, True)
        else (d, False))"

definition DrainState_transition_to ::
  "drain_state \<Rightarrow> server_drain_phase \<Rightarrow> drain_state \<times> drain_start_result" where
  "DrainState_transition_to d phase =
     (if active_sessions d = 0 then (d\<lparr>drain_phase := Completed\<rparr>, Drain_completed)
      else (d\<lparr>drain_phase := phase\<rparr>, Drain_started))"

definition DrainState_begin_drain :: "drain_state \<Rightarrow> drain_state \<times> drain_start_result" where
  "DrainState_begin_drain d =
     (if drain_phase d \<noteq> Running then (d, Drain_unchanged)
      else DrainState_transition_to d Draining)"

definition DrainState_begin_force_stop :: "drain_state \<Rightarrow> drain_state \<times> drain_start_result" where
  "DrainState_begin_force_stop d =
     (if drain_phase d = Force_stopping \<or> drain_phase d = Completed then (d, Drain_unchanged)
      else DrainState_transition_to d Force_stopping)"

section \<open>Accept capacity\<close>

definition AcceptCapacityState_new :: "usize \<Rightarrow> accept_capacity_state" where
  "AcceptCapacityState_new limit =
     \<lparr>max_connections = limit, active_connections = 0, accept_pending = False,
      retry_pending = False, accept_paused = False, accept_stopped = False\<rparr>"

definition AcceptCapacityState_next_action ::
  "accept_capacity_state \<Rightarrow> accept_capacity_state \<times> accept_capacity_action" where
  "AcceptCapacityState_next_action a =
     (if accept_stopped a \<or> accept_pending a \<or> retry_pending a then (a, Action_none)
      else if max_connections a \<le> active_connections a then
        if accept_paused a then (a, Action_none)
        else (a\<lparr>accept_paused := True\<rparr>, Pause)
      else let a = a\<lparr>accept_pending := True\<rparr> in
        if accept_paused a then (a\<lparr>accept_paused := False\<rparr>, Resume_and_start)
        else (a, Start_accept))"

definition AcceptCapacityState_accept_completed ::
  "accept_capacity_state \<Rightarrow> accept_capacity_state" where
  "AcceptCapacityState_accept_completed a = a\<lparr>accept_pending := False\<rparr>"

definition AcceptCapacityState_retry_scheduled ::
  "accept_capacity_state \<Rightarrow> accept_capacity_state" where
  "AcceptCapacityState_retry_scheduled a = a\<lparr>retry_pending := True\<rparr>"

definition AcceptCapacityState_retry_completed ::
  "accept_capacity_state \<Rightarrow> accept_capacity_state" where
  "AcceptCapacityState_retry_completed a = a\<lparr>retry_pending := False\<rparr>"

definition AcceptCapacityState_session_started ::
  "accept_capacity_state \<Rightarrow> accept_capacity_state" where
  "AcceptCapacityState_session_started a =
     a\<lparr>active_connections := active_connections a + 1\<rparr>"

definition AcceptCapacityState_session_finished ::
  "accept_capacity_state \<Rightarrow> accept_capacity_state" where
  "AcceptCapacityState_session_finished a =
     (if 0 < active_connections a then a\<lparr>active_connections := active_connections a - 1\<rparr> else a)"

definition AcceptCapacityState_stop :: "accept_capacity_state \<Rightarrow> accept_capacity_state" where
  "AcceptCapacityState_stop a = a\<lparr>accept_stopped := True\<rparr>"

section \<open>Permits for concurrent proxies\<close>

definition ProxyAdmissionState_new :: "usize \<Rightarrow> proxy_admission_state" where
  "ProxyAdmissionState_new limit = \<lparr>max_proxies = limit, active_proxies = 0\<rparr>"

definition ProxyAdmissionState_release :: "proxy_admission_state \<Rightarrow> proxy_admission_state" where
  "ProxyAdmissionState_release s =
     (if 0 < active_proxies s then s\<lparr>active_proxies := active_proxies s - 1\<rparr> else s)"

text \<open>The argument \<open>state\<close> says whether the shared pointer passed is set.\<close>

definition ProxyPermit_try_acquire ::
  "proxy_admission_state \<Rightarrow> bool \<Rightarrow> proxy_admission_state \<times> proxy_permit option" where
  "ProxyPermit_try_acquire s state =
     (if \<not> state \<or> max_proxies s \<le> active_proxies s then (s, None)
      else (s\<lparr>active_proxies := active_proxies s + 1\<rparr>, Some \<lparr>pp_state = state\<rparr>))"

definition ProxyPermit_release ::
  "proxy_admission_state \<Rightarrow> proxy_permit \<Rightarrow> proxy_admission_state \<times> proxy_permit" where
  "ProxyPermit_release s p =
     (if \<not> pp_state p then (s, p)
      else (ProxyAdmissionState_release s, p\<lparr>pp_state := False\<rparr>))"

definition ProxyPermit_move :: "proxy_permit \<Rightarrow> proxy_permit \<times> proxy_permit" where
  "ProxyPermit_move q = (q, q\<lparr>pp_state := False\<rparr>)"

definition ProxyPermit_assign ::
  "proxy_admission_state \<Rightarrow> proxy_permit \<Rightarrow> proxy_permit \<Rightarrow>
   proxy_admission_state \<times> proxy_permit \<times> proxy_permit" where
  "ProxyPermit_assign s p q =
     (case ProxyPermit_release s p of (s', _) \<Rightarrow> (s', ProxyPermit_move q))"

definition ProxyPermit_owns_capacity :: "proxy_permit \<Rightarrow> bool" where
  "ProxyPermit_owns_capacity p = pp_state p"

definition permit_count :: "proxy_permit \<Rightarrow> nat" where
  "permit_count p = (if pp_state p then 1 else 0)"

definition proxy_touch ::
  "proxy_admission_state \<Rightarrow> proxy_permit \<Rightarrow> unit \<Rightarrow> proxy_admission_state \<times> proxy_permit" where
  "proxy_touch s p u = ProxyPermit_release s p"

definition proxy_run ::
  "proxy_admission_state \<times> proxy_permit list \<Rightarrow> (bool, unit) ledger_op list \<Rightarrow>
   proxy_admission_state \<times> proxy_permit list" where
  "proxy_run = run_steps (ledger_step ProxyPermit_try_acquire proxy_touch ProxyPermit_assign)"

section \<open>The runtime failure\<close>

definition RuntimeFailureState_new :: runtime_failure_state where
  "RuntimeFailureState_new = \<lparr>rf_claimed = False\<rparr>"

definition RuntimeFailureState_claim ::
  "runtime_failure_state \<Rightarrow> bool \<times> runtime_failure_state" where
  "RuntimeFailureState_claim s =
     (if rf_claimed s then (False, s) else (True, s\<lparr>rf_claimed := True\<rparr>))"

text \<open>
  The four actions work on the state \<open>'w\<close> of the caller. The report may throw, in which case
  the flag it returns is set; the other three are \<open>noexcept\<close>.
\<close>

definition run_accept_retry_failure_actions ::
  "runtime_failure_state \<Rightarrow> ('w \<Rightarrow> bool \<times> 'w) \<Rightarrow> ('w \<Rightarrow> 'w) \<Rightarrow> ('w \<Rightarrow> 'w) \<Rightarrow> ('w \<Rightarrow> 'w) \<Rightarrow>
   'w \<Rightarrow> runtime_failure_state \<times> 'w" where
  "run_accept_retry_failure_actions s report fallback stop notify w =
     (case RuntimeFailureState_claim s of
        (False, s') \<Rightarrow> (s', w)
      | (True, s') \<Rightarrow>
          (case report w of
             (threw, w') \<Rightarrow>
               let w'' = (if threw then fallback w' else w') in
               (s', notify (stop w''))))"

section \<open>Runs\<close>

text \<open>
  Runs of the signal, drain and capacity machines collect what the operations return: the
  dispositions of the signal waits, whether a drain operation reported completion, and the
  actions of the accept loop.
\<close>

datatype signal_op = Wait_completed error_code | Mark_completed

fun signal_step ::
  "shutdown_signal_state \<times> shutdown_signal_disposition list \<Rightarrow> signal_op \<Rightarrow>
   shutdown_signal_state \<times> shutdown_signal_disposition list" where
  "signal_step (s, ds) (Wait_completed error) =
     (case ShutdownSignalState_on_wait_completion s error of (s', d) \<Rightarrow> (s', ds @ [d]))"
| "signal_step (s, ds) Mark_completed = (ShutdownSignalState_mark_completed s, ds)"

datatype drain_op = Session_started | Session_finished | Begin_drain | Begin_force_stop

fun drain_step :: "drain_state \<times> nat \<Rightarrow> drain_op \<Rightarrow> drain_state \<times> nat" where
  "drain_step (d, n) Session_started = (DrainState_session_started d, n)"
| "drain_step (d, n) Session_finished =
     (case DrainState_session_finished d of (d', done) \<Rightarrow> (d', if done then n + 1 else n))"
| "drain_step (d, n) Begin_drain =
     (case DrainState_begin_drain d of
        (d', r) \<Rightarrow> (d', if r = Drain_completed then n + 1 else n))"
| "drain_step (d, n) Begin_force_stop =
     (case DrainState_begin_force_stop d of
        (d', r) \<Rightarrow> (d', if r = Drain_completed then n + 1 else n))"

datatype capacity_op =
    Next_action | Accept_completed | Retry_scheduled | Retry_completed
  | Capacity_session_started | Capacity_session_finished | Capacity_stop

fun capacity_step ::
  "accept_capacity_state \<times> accept_capacity_action list \<Rightarrow> capacity_op \<Rightarrow>
   accept_capacity_state \<times> accept_capacity_action list" where
  "capacity_step (a, xs) Next_action =
     (case AcceptCapacityState_next_action a of (a', x) \<Rightarrow> (a', xs @ [x]))"
| "capacity_step (a, xs) Accept_completed = (AcceptCapacityState_accept_completed a, xs)"
| "capacity_step (a, xs) Retry_scheduled = (AcceptCapacityState_retry_scheduled a, xs)"
| "capacity_step (a, xs) Retry_completed = (AcceptCapacityState_retry_completed a, xs)"
| "capacity_step (a, xs) Capacity_session_started = (AcceptCapacityState_session_started a, xs)"
| "capacity_step (a, xs) Capacity_session_finished = (AcceptCapacityState_session_finished a, xs)"
| "capacity_step (a, xs) Capacity_stop = (AcceptCapacityState_stop a, xs)"

declare ShutdownSignalState_on_wait_completion_def [op_defs]
  ShutdownSignalState_mark_completed_def [op_defs] ShutdownSignalState_new_def [op_defs]
  DrainState_new_def [op_defs] DrainState_session_started_def [op_defs]
  DrainState_session_finished_def [op_defs] DrainState_transition_to_def [op_defs]
  DrainState_begin_drain_def [op_defs] DrainState_begin_force_stop_def [op_defs]
  AcceptCapacityState_new_def [op_defs] AcceptCapacityState_next_action_def [op_defs]
  AcceptCapacityState_accept_completed_def [op_defs]
  AcceptCapacityState_retry_scheduled_def [op_defs]
  AcceptCapacityState_retry_completed_def [op_defs]
  AcceptCapacityState_session_started_def [op_defs]
  AcceptCapacityState_session_finished_def [op_defs] AcceptCapacityState_stop_def [op_defs]
  ProxyAdmissionState_release_def [op_defs] ProxyPermit_try_acquire_def [op_defs]
  ProxyPermit_release_def [op_defs] ProxyPermit_move_def [op_defs]
  ProxyPermit_assign_def [op_defs]

section \<open>Signals\<close>

definition signal_requests :: "shutdown_signal_disposition list \<Rightarrow> shutdown_signal_disposition list"
  where "signal_requests ds = filter (\<lambda>d. d = Signal_begin_drain \<or> d = Signal_force_stop) ds"

definition signal_inv :: "shutdown_signal_state \<times> shutdown_signal_disposition list \<Rightarrow> bool" where
  "signal_inv sd =
     (signal_requests (snd sd) =
       (if sig_force_requested (fst sd) then [Signal_begin_drain, Signal_force_stop]
        else if sig_draining (fst sd) then [Signal_begin_drain] else []) \<and>
      (sig_force_requested (fst sd) \<longrightarrow> sig_draining (fst sd)))"

interpretation signals: step_invariant signal_step signal_inv
proof
  fix s e assume "signal_inv s"
  then show "signal_inv (signal_step s e)"
    by (cases s; cases e) (auto simp: signal_inv_def signal_requests_def op_defs split: if_splits)
qed

lemma signals_forced:
  "sig_draining s \<Longrightarrow> sig_force_requested s \<Longrightarrow>
   run_steps signal_step (s, ds) (replicate n (Wait_completed None)) =
     (s, ds @ replicate n Signal_ignored)"
  by (induction n arbitrary: ds) (simp_all add: run_steps_def op_defs replicate_app_Cons_same)

text \<open>
  C22. Shutdown signals are honoured in order and once each. Whatever errors the signal waits
  report and whenever the stop completes, the waits request at most one drain and then at most
  one forced stop; when no wait fails before the stop completes, the first signal starts the
  drain, the second forces the stop and every further one is ignored.
\<close>

theorem shutdown_signal_order:
  "signal_requests (snd (run_steps signal_step (ShutdownSignalState_new, []) es))
     \<in> {[], [Signal_begin_drain], [Signal_begin_drain, Signal_force_stop]} \<and>
   snd (run_steps signal_step (ShutdownSignalState_new, [])
          (replicate (n + 2) (Wait_completed None))) =
     [Signal_begin_drain, Signal_force_stop] @ replicate n Signal_ignored"
proof
  have "signal_inv (ShutdownSignalState_new, [])"
    by (simp add: signal_inv_def signal_requests_def op_defs)
  from signals.run_inv [OF this, of es]
  show "signal_requests (snd (run_steps signal_step (ShutdownSignalState_new, []) es))
     \<in> {[], [Signal_begin_drain], [Signal_begin_drain, Signal_force_stop]}"
    by (auto simp: signal_inv_def)
  show "snd (run_steps signal_step (ShutdownSignalState_new, [])
          (replicate (n + 2) (Wait_completed None))) =
     [Signal_begin_drain, Signal_force_stop] @ replicate n Signal_ignored"
    using signals_forced [of "\<lparr>sig_draining = True, sig_force_requested = True,
        sig_completed = False\<rparr>" "[Signal_begin_drain, Signal_force_stop]" n]
    by (simp add: run_steps_def op_defs)
qed

section \<open>Drain\<close>

definition drain_inv :: "drain_state \<times> nat \<Rightarrow> bool" where
  "drain_inv dn =
     ((drain_phase (fst dn) = Draining \<or> drain_phase (fst dn) = Force_stopping \<longrightarrow>
         active_sessions (fst dn) \<noteq> 0) \<and>
      (drain_phase (fst dn) = Completed \<longrightarrow> active_sessions (fst dn) = 0) \<and>
      snd dn = (if drain_phase (fst dn) = Completed then 1 else 0))"

interpretation drain: step_invariant drain_step drain_inv
proof
  fix s e assume "drain_inv s"
  then show "drain_inv (drain_step s e)"
    by (cases s; cases e; cases "drain_phase (fst s)")
      (auto simp: drain_inv_def op_defs Let_def)
qed

text \<open>
  C23. The drain completes at most once, and only with no session left: over any sequence of
  session starts, session ends, drain and force-stop requests, the number of times an operation
  reported completion is one if the phase is \<open>completed\<close> and zero otherwise; a completed drain
  has no active session, and one still draining or force-stopping has at least one.
\<close>

theorem drain_completes_once:
  "case run_steps drain_step (DrainState_new, 0) es of (d, n) \<Rightarrow>
     n = (if drain_phase d = Completed then 1 else 0) \<and>
     (drain_phase d = Completed \<longrightarrow> active_sessions d = 0) \<and>
     (drain_phase d = Draining \<or> drain_phase d = Force_stopping \<longrightarrow> active_sessions d \<noteq> 0)"
proof -
  have "drain_inv (DrainState_new, 0)"
    by (simp add: drain_inv_def op_defs)
  from drain.run_inv [OF this, of es] show ?thesis
    by (auto simp: drain_inv_def split: prod.split)
qed

theorem drain_completes_once_witness:
  "drain_phase (fst (run_steps drain_step (DrainState_new, 0)
      [Session_started, Begin_drain, Begin_force_stop, Session_finished])) = Completed \<and>
   active_sessions (fst (run_steps drain_step (DrainState_new, 0)
      [Session_started, Begin_drain, Begin_force_stop, Session_finished])) = 0"
  using drain_completes_once [of "[Session_started, Begin_drain, Begin_force_stop,
    Session_finished]"]
  by (simp add: run_steps_def op_defs)

definition drain_finishes :: "drain_op list \<Rightarrow> nat" where
  "drain_finishes es = length (filter (\<lambda>e. e = Session_finished) es)"

lemma drain_completed_step:
  "drain_phase d = Completed \<Longrightarrow> active_sessions d = 0 \<Longrightarrow> drain_step (d, n) e = (d, n)"
  by (cases e) (simp_all add: op_defs)

lemma drain_completed_run:
  "drain_phase d = Completed \<Longrightarrow> active_sessions d = 0 \<Longrightarrow> run_steps drain_step (d, n) es = (d, n)"
  by (induction es) (simp_all add: run_steps_def drain_completed_step)

lemma drain_active_step:
  assumes "drain_phase d = Draining \<or> drain_phase d = Force_stopping" "e \<noteq> Session_finished"
  shows "\<exists>d'. drain_step (d, n) e = (d', n) \<and> active_sessions d' = active_sessions d \<and>
    (active_sessions d \<noteq> 0 \<longrightarrow> drain_phase d' = Draining \<or> drain_phase d' = Force_stopping)
    \<or> active_sessions d = 0"
  using assms by (cases e) (auto simp: op_defs)

lemma drain_run_exact:
  assumes "drain_phase d = Draining \<or> drain_phase d = Force_stopping" "active_sessions d \<noteq> 0"
  shows "case run_steps drain_step (d, n) es of (d', n') \<Rightarrow>
    unat (active_sessions d') = unat (active_sessions d) - drain_finishes es \<and>
    (drain_phase d' = Completed \<longleftrightarrow> unat (active_sessions d) \<le> drain_finishes es) \<and>
    n' = n + (if unat (active_sessions d) \<le> drain_finishes es then 1 else 0)"
  using assms
proof (induction es arbitrary: d n)
  case Nil
  then show ?case by (auto simp: run_steps_def drain_finishes_def unat_eq_0)
next
  case (Cons e es)
  have pos: "0 < active_sessions d"
    using Cons.prems(2) by (simp add: word_neq_0_conv)
  have step: "run_steps drain_step (d, n) (e # es) =
      run_steps drain_step (drain_step (d, n) e) es"
    by (simp add: run_steps_def)
  show ?case
  proof (cases "e = Session_finished")
    case False
    then obtain d' where d': "drain_step (d, n) e = (d', n)"
      "active_sessions d' = active_sessions d"
      "drain_phase d' = Draining \<or> drain_phase d' = Force_stopping"
      using drain_active_step [of d e n] Cons.prems by blast
    show ?thesis
      unfolding step d'(1) using Cons.IH [of d' n] d' Cons.prems False
      by (simp add: drain_finishes_def)
  next
    case True
    let ?d1 = "d\<lparr>active_sessions := active_sessions d - 1\<rparr>"
    have dec: "unat (active_sessions ?d1) = unat (active_sessions d) - 1"
      using pos by (simp add: unat_dec)
    have fin: "drain_finishes (e # es) = Suc (drain_finishes es)"
      using True by (simp add: drain_finishes_def)
    show ?thesis
    proof (cases "active_sessions ?d1 = 0")
      case True
      then have one: "unat (active_sessions d) = 1"
        using dec pos by (simp add: word_less_nat_alt)
      have "drain_step (d, n) e = (?d1\<lparr>drain_phase := Completed\<rparr>, n + 1)"
        using True \<open>e = Session_finished\<close> Cons.prems
        by (simp add: DrainState_session_finished_def Let_def)
      then show ?thesis
        unfolding step fin
        using one True drain_completed_run [of "?d1\<lparr>drain_phase := Completed\<rparr>" "n + 1" es]
        by simp
    next
      case False
      have "drain_step (d, n) e = (?d1, n)"
        using False \<open>e = Session_finished\<close> Cons.prems
        by (simp add: DrainState_session_finished_def Let_def)
      then show ?thesis
        unfolding step fin using Cons.IH [of ?d1 n] Cons.prems False dec pos
        by (auto simp: word_less_nat_alt split: prod.splits)
    qed
  qed
qed

text \<open>
  C24. A started drain ends exactly when its sessions have ended. From a drain (or forced stop)
  with \<open>k > 0\<close> active sessions, whatever else happens (new session starts are not counted,
  repeated drain requests and the escalation to a forced stop keep it going), the phase becomes
  \<open>completed\<close> at the \<open>k\<close>-th session end, not before, and that end reports it.
\<close>

theorem drain_progress:
  assumes "drain_phase d = Draining \<or> drain_phase d = Force_stopping"
    and "active_sessions d \<noteq> 0"
  shows "case run_steps drain_step (d, 0) es of (d', reported) \<Rightarrow>
    unat (active_sessions d') = unat (active_sessions d) - drain_finishes es \<and>
    (drain_phase d' = Completed \<longleftrightarrow> unat (active_sessions d) \<le> drain_finishes es) \<and>
    reported = (if unat (active_sessions d) \<le> drain_finishes es then 1 else 0)"
  using drain_run_exact [OF assms, of es 0] by simp

theorem drain_progress_witness:
  "drain_phase (fst (run_steps drain_step (\<lparr>drain_phase = Draining, active_sessions = 2\<rparr>, 0)
     [Session_finished, Begin_force_stop, Session_started, Session_finished])) = Completed"
  using drain_progress [of "\<lparr>drain_phase = Draining, active_sessions = 2\<rparr>"
      "[Session_finished, Begin_force_stop, Session_started, Session_finished]"]
  by (simp add: drain_finishes_def split: prod.splits)

section \<open>Accept capacity\<close>

definition pause_actions :: "accept_capacity_action list \<Rightarrow> accept_capacity_action list" where
  "pause_actions xs = filter (\<lambda>x. x = Pause \<or> x = Resume_and_start) xs"

fun alternating :: "accept_capacity_action \<Rightarrow> nat \<Rightarrow> accept_capacity_action list" where
  "alternating x 0 = []"
| "alternating x (Suc n) = x # alternating (if x = Pause then Resume_and_start else Pause) n"

lemma alternating_snoc:
  "x = Pause \<or> x = Resume_and_start \<Longrightarrow>
   alternating x (Suc n) =
     alternating x n @ [if even n \<longleftrightarrow> x = Pause then Pause else Resume_and_start]"
proof (induction n arbitrary: x)
  case 0
  then show ?case by auto
next
  case (Suc n)
  have "alternating (if x = Pause then Resume_and_start else Pause) (Suc n) =
      alternating (if x = Pause then Resume_and_start else Pause) n @
      [if even n \<longleftrightarrow> (if x = Pause then Resume_and_start else Pause) = Pause
       then Pause else Resume_and_start]"
    by (rule Suc.IH) simp
  then show ?case using Suc.prems by auto
qed

definition capacity_inv :: "accept_capacity_state \<times> accept_capacity_action list \<Rightarrow> bool" where
  "capacity_inv ax =
     (pause_actions (snd ax) = alternating Pause (length (pause_actions (snd ax))) \<and>
      (accept_paused (fst ax) \<longleftrightarrow> odd (length (pause_actions (snd ax)))))"

interpretation capacity: step_invariant capacity_step capacity_inv
proof
  fix s e assume inv: "capacity_inv s"
  note snoc = alternating_snoc [of Pause]
  from inv show "capacity_inv (capacity_step s e)"
    by (cases s; cases e)
      (auto simp: capacity_inv_def pause_actions_def op_defs Let_def snoc
        simp del: alternating.simps(2))
qed

lemma capacity_stopped_step:
  "accept_stopped a \<Longrightarrow>
   \<exists>a' ys. capacity_step (a, xs) e = (a', xs @ ys) \<and> accept_stopped a' \<and> set ys \<subseteq> {Action_none}"
  by (cases e) (auto simp: op_defs)

lemma capacity_stopped_run:
  "accept_stopped a \<Longrightarrow>
   \<exists>ys. snd (run_steps capacity_step (a, xs) es) = xs @ ys \<and> set ys \<subseteq> {Action_none}"
proof (induction es arbitrary: a xs)
  case Nil
  then show ?case by (simp add: run_steps_def)
next
  case (Cons e es)
  obtain a' ys where a': "capacity_step (a, xs) e = (a', xs @ ys)" "accept_stopped a'"
    "set ys \<subseteq> {Action_none}"
    using capacity_stopped_step [OF Cons.prems] by blast
  then obtain zs where "snd (run_steps capacity_step (a', xs @ ys) es) = (xs @ ys) @ zs"
    "set zs \<subseteq> {Action_none}"
    using Cons.IH by blast
  then show ?case
    using a' by (intro exI [where x = "ys @ zs"]) (simp add: run_steps_def)
qed

text \<open>
  Pausing and stopping the accept loop. Over any sequence of operations the actions
  \<open>pause\<close> and \<open>resume_and_start\<close> alternate, starting with a pause (each is logged once per
  change); after \<open>stop\<close> no accept is ever started again.
\<close>

lemma accept_pause_stop:
  "(let xs = snd (run_steps capacity_step (AcceptCapacityState_new m, []) es) in
      pause_actions xs = alternating Pause (length (pause_actions xs))) \<and>
   (\<exists>ys. snd (run_steps capacity_step (AcceptCapacityState_new m, []) (es @ Capacity_stop # fs)) =
       snd (run_steps capacity_step (AcceptCapacityState_new m, []) es) @ ys \<and>
     set ys \<subseteq> {Action_none})"
proof
  have "capacity_inv (AcceptCapacityState_new m, [])"
    by (simp add: capacity_inv_def pause_actions_def op_defs)
  from capacity.run_inv [OF this, of es]
  show "let xs = snd (run_steps capacity_step (AcceptCapacityState_new m, []) es) in
      pause_actions xs = alternating Pause (length (pause_actions xs))"
    by (simp add: capacity_inv_def Let_def)
  obtain a xs where run: "run_steps capacity_step (AcceptCapacityState_new m, []) es = (a, xs)"
    by fastforce
  have "accept_stopped (AcceptCapacityState_stop a)"
    by (simp add: op_defs)
  from capacity_stopped_run [OF this, of xs fs] run
  show "\<exists>ys. snd (run_steps capacity_step (AcceptCapacityState_new m, [])
        (es @ Capacity_stop # fs)) =
       snd (run_steps capacity_step (AcceptCapacityState_new m, []) es) @ ys \<and>
     set ys \<subseteq> {Action_none}"
    by (simp add: run_steps_def)
qed

section \<open>Proxy permits\<close>

lemma proxy_release_moves:
  assumes "permit_count p \<le> unat (active_proxies s)" "ProxyPermit_release s p = (s', p')"
  shows "unat (active_proxies s') + permit_count p = unat (active_proxies s) \<and>
    permit_count p' = 0 \<and> max_proxies s' = max_proxies s"
  using assms
  by (auto simp: op_defs permit_count_def unat_dec word_less_nat_alt split: if_splits)

interpretation proxies: permit_ledger
  "\<lambda>s. unat (active_proxies s)" "\<lambda>s. unat (max_proxies s)" permit_count
  ProxyPermit_try_acquire proxy_touch ProxyPermit_assign
proof (unfold_locales, goal_cases)
  case (1 s r s' p)
  then have less: "active_proxies s < max_proxies s" and
    eq: "s' = s\<lparr>active_proxies := active_proxies s + 1\<rparr>" "p = \<lparr>pp_state = True\<rparr>"
    by (auto simp: ProxyPermit_try_acquire_def split: if_splits)
  then show ?case
    using unat_inc [OF less] by (simp add: permit_count_def word_less_nat_alt)
next
  case (2 s r s')
  then show ?case by (auto simp: ProxyPermit_try_acquire_def split: if_splits)
next
  case (3 p s x s' p')
  then show ?case using proxy_release_moves [of p s s' p'] by (simp add: proxy_touch_def)
next
  case (4 p s q s' p' q')
  then show ?case
    using proxy_release_moves [of p s s'] 
    by (auto simp: ProxyPermit_assign_def ProxyPermit_move_def permit_count_def split: prod.splits)
qed

lemma proxy_run_new:
  "proxies.balanced (proxy_run (ProxyAdmissionState_new m, []) xs) \<and>
   max_proxies (fst (proxy_run (ProxyAdmissionState_new m, []) xs)) = m"
proof -
  have "proxies.balanced (ProxyAdmissionState_new m, [])"
    by (simp add: proxies.balanced_def ProxyAdmissionState_new_def)
  from proxies.run_balanced [OF this, of xs] show ?thesis
    by (simp add: proxy_run_def ProxyAdmissionState_new_def word_unat_eq_iff)
qed

lemma sum_permit_count:
  "sum_list (map permit_count ps) = length (filter ProxyPermit_owns_capacity ps)"
  by (induction ps) (auto simp: permit_count_def ProxyPermit_owns_capacity_def)

text \<open>
  Concurrent proxies are bounded and permits are never lost. Over any sequence of
  acquisitions, releases (destructors included) and moves, the counter is the number of permits
  that own capacity and is at most the maximum; another permit is granted exactly while fewer
  than the maximum are owned.
\<close>

lemma proxy_permits_bounded:
  "case proxy_run (ProxyAdmissionState_new m, []) xs of (s, ps) \<Rightarrow>
     unat (active_proxies s) = length (filter ProxyPermit_owns_capacity ps) \<and>
     length (filter ProxyPermit_owns_capacity ps) \<le> unat m \<and>
     (snd (ProxyPermit_try_acquire s True) \<noteq> None \<longleftrightarrow>
        length (filter ProxyPermit_owns_capacity ps) < unat m)"
proof (cases "proxy_run (ProxyAdmissionState_new m, []) xs")
  case (Pair s ps)
  with proxy_run_new [of m xs]
  have "unat (active_proxies s) = length (filter ProxyPermit_owns_capacity ps)"
    "unat (active_proxies s) \<le> unat m" "max_proxies s = m"
    by (auto simp: proxies.balanced_def sum_permit_count)
  then show ?thesis
    by (auto simp: Pair ProxyPermit_try_acquire_def word_le_nat_alt)
qed

section \<open>Failure actions\<close>

interpretation failure: claim_once RuntimeFailureState_claim rf_claimed
  by unfold_locales (auto simp: RuntimeFailureState_claim_def)

definition failure_calls ::
  "(('w \<Rightarrow> bool \<times> 'w) \<times> ('w \<Rightarrow> 'w) \<times> ('w \<Rightarrow> 'w) \<times> ('w \<Rightarrow> 'w)) list \<Rightarrow>
   runtime_failure_state \<times> 'w \<Rightarrow> runtime_failure_state \<times> 'w" where
  "failure_calls calls sw =
     foldl (\<lambda>(s, w) (report, fallback, stop, notify).
       run_accept_retry_failure_actions s report fallback stop notify w) sw calls"

lemma failure_calls_claimed: "rf_claimed s \<Longrightarrow> failure_calls calls (s, w) = (s, w)"
proof (induction calls)
  case Nil
  then show ?case by (simp add: failure_calls_def)
next
  case (Cons c calls)
  have "\<not> fst (RuntimeFailureState_claim s)"
    using Cons.prems by (simp add: failure.claim_result)
  then have "run_accept_retry_failure_actions s report fallback stop notify w = (s, w)"
    for report :: "'a \<Rightarrow> bool \<times> 'a" and fallback stop notify :: "'a \<Rightarrow> 'a"
    using Cons.prems
    by (simp add: run_accept_retry_failure_actions_def RuntimeFailureState_claim_def)
  with Cons show ?case by (simp add: failure_calls_def split: prod.splits)
qed

text \<open>
  Only the first failure acts. Of any sequence of calls that share one failure state, the
  first runs its report (and its fallback when the report throws), then stop, then notify, in
  that order; every later call changes nothing.
\<close>

lemma failure_actions_once:
  "failure_calls ((report, fallback, stop, notify) # calls) (RuntimeFailureState_new, w) =
   (\<lparr>rf_claimed = True\<rparr>,
    notify (stop (if fst (report w) then fallback (snd (report w)) else snd (report w))))"
proof -
  have "fst (RuntimeFailureState_claim RuntimeFailureState_new)"
    by (simp add: failure.claim_result RuntimeFailureState_new_def)
  then have "run_accept_retry_failure_actions RuntimeFailureState_new report fallback stop notify w =
    (\<lparr>rf_claimed = True\<rparr>,
     notify (stop (if fst (report w) then fallback (snd (report w)) else snd (report w))))"
    by (simp add: run_accept_retry_failure_actions_def RuntimeFailureState_claim_def
        RuntimeFailureState_new_def Let_def split: prod.split)
  then show ?thesis
    using failure_calls_claimed [of "\<lparr>rf_claimed = True\<rparr>" calls]
    by (simp add: failure_calls_def)
qed

end
