(* ===== verification/Http.thy ===== *)
theory Http
  imports ConfigTypes
begin

text \<open>
  Strings and HTTP messages as the program uses them. The operations of \<open>std::string_view\<close>
  that the code calls are written out. Boost.Beast and nlohmann::json are not part of the
  repository: the functions of theirs that the code calls are the fields of the record
  \<open>beast\<close>, an argument of every definition that uses one, and what the properties rely on is
  stated by the predicates \<open>beast_names\<close>, \<open>beast_fields\<close> and \<open>beast_payload\<close>, each the
  documented behaviour of the function it mentions.
\<close>

section \<open>Strings\<close>

text \<open>\<open>std::string_view::npos\<close> is \<open>None\<close>.\<close>

definition sv_find :: "char \<Rightarrow> string \<Rightarrow> nat option" where
  "sv_find c s =
     (let n = length (takeWhile (\<lambda>x. x \<noteq> c) s) in if n < length s then Some n else None)"

definition sv_find_first_not_of :: "char list \<Rightarrow> string \<Rightarrow> nat option" where
  "sv_find_first_not_of cs s =
     (let n = length (takeWhile (\<lambda>x. x \<in> set cs) s) in if n < length s then Some n else None)"

definition sv_find_last_not_of :: "char list \<Rightarrow> string \<Rightarrow> nat option" where
  "sv_find_last_not_of cs s =
     (let n = length (takeWhile (\<lambda>x. x \<in> set cs) (rev s)) in
      if n < length s then Some (length s - 1 - n) else None)"

definition starts_with :: "string \<Rightarrow> string \<Rightarrow> bool" where
  "starts_with s prefix = (take (length prefix) s = prefix)"

definition char_between :: "char \<Rightarrow> char \<Rightarrow> char \<Rightarrow> bool" where
  "char_between lo hi c =
     ((of_char lo :: nat) \<le> of_char c \<and> (of_char c :: nat) \<le> of_char hi)"

text \<open>\<open>std::to_string\<close> of an unsigned integer.\<close>

fun nat_to_string :: "nat \<Rightarrow> string" where
  "nat_to_string n =
     (if n < 10 then [char_of (48 + n)] else nat_to_string (n div 10) @ [char_of (48 + n mod 10)])"

declare nat_to_string.simps [simp del]

section \<open>JSON values\<close>

text \<open>
  A value of \<open>nlohmann::json\<close>. Numbers are integers or, opaque here, floating point; an object
  is its members in the order the library iterates over them.
\<close>

datatype json =
    JNull
  | JBool bool
  | JNumber int
  | JFloat string
  | JString string
  | JArray "json list"
  | JObject "(string \<times> json) list"

section \<open>Messages\<close>

datatype verb = Get | Post | Put | Patch | Other_verb string

datatype field_name =
    Field_allow | Field_authorization | Field_cache_control | Field_connection
  | Field_content_length | Field_content_type | Field_expect | Field_host | Field_retry_after
  | Field_server | Field_upgrade | Field_www_authenticate | Field_other

type_synonym fields = "(string \<times> string) list"

record http_request =
  req_method :: verb
  req_target :: string
  req_version :: nat
  req_fields :: fields
  req_body :: string

record http_response =
  res_status :: nat
  res_version :: nat
  res_reason :: string
  res_fields :: fields
  res_body :: string

text \<open>The enumerators of \<open>http::status\<close> the code names.\<close>

abbreviation status_ok :: nat where "status_ok \<equiv> 200"
abbreviation status_no_content :: nat where "status_no_content \<equiv> 204"
abbreviation status_not_modified :: nat where "status_not_modified \<equiv> 304"
abbreviation status_bad_request :: nat where "status_bad_request \<equiv> 400"
abbreviation status_unauthorized :: nat where "status_unauthorized \<equiv> 401"
abbreviation status_not_found :: nat where "status_not_found \<equiv> 404"
abbreviation status_method_not_allowed :: nat where "status_method_not_allowed \<equiv> 405"
abbreviation status_payload_too_large :: nat where "status_payload_too_large \<equiv> 413"
abbreviation status_expectation_failed :: nat where "status_expectation_failed \<equiv> 417"
abbreviation status_too_many_requests :: nat where "status_too_many_requests \<equiv> 429"
abbreviation status_request_header_fields_too_large :: nat where
  "status_request_header_fields_too_large \<equiv> 431"
abbreviation status_bad_gateway :: nat where "status_bad_gateway \<equiv> 502"
abbreviation status_service_unavailable :: nat where "status_service_unavailable \<equiv> 503"
abbreviation status_gateway_timeout :: nat where "status_gateway_timeout \<equiv> 504"

section \<open>The library functions the code calls\<close>

text \<open>
  \<^item> \<open>field_of\<close>: \<open>fields::value_type::name\<close>, the enumerator of a field's name;
  \<^item> \<open>field_insert\<close>, \<open>field_set\<close>: \<open>basic_fields::insert\<close> and \<open>set\<close>;
  \<^item> \<open>keep_alive_of\<close>, \<open>set_keep_alive\<close>: \<open>message::keep_alive\<close>, which reads the version and
    the fields;
  \<^item> \<open>set_content_length\<close>, \<open>set_chunked\<close>: \<open>message::content_length\<close> and \<open>chunked\<close>;
  \<^item> \<open>prepare_request\<close>, \<open>prepare_response\<close>: \<open>message::prepare_payload\<close>, which may throw;
  \<^item> \<open>need_eof\<close>: \<open>message::need_eof\<close>;
  \<^item> \<open>iequals\<close>: \<open>beast::iequals\<close>;
  \<^item> \<open>json_dump\<close>: \<open>nlohmann::json::dump\<close>, which may throw.
\<close>

record beast =
  field_of :: "string \<Rightarrow> field_name"
  field_insert :: "fields \<Rightarrow> string \<Rightarrow> string \<Rightarrow> fields"
  field_set :: "fields \<Rightarrow> field_name \<Rightarrow> string \<Rightarrow> fields"
  keep_alive_of :: "nat \<Rightarrow> fields \<Rightarrow> bool"
  set_keep_alive :: "nat \<Rightarrow> fields \<Rightarrow> bool \<Rightarrow> fields"
  set_content_length :: "fields \<Rightarrow> nat \<Rightarrow> fields"
  set_chunked :: "fields \<Rightarrow> bool \<Rightarrow> fields"
  prepare_request :: "http_request \<Rightarrow> http_request result"
  prepare_response :: "http_response \<Rightarrow> http_response result"
  need_eof :: "http_response \<Rightarrow> bool"
  iequals :: "string \<Rightarrow> string \<Rightarrow> bool"
  json_dump :: "json \<Rightarrow> string result"

definition HttpResponse_new :: "nat \<Rightarrow> nat \<Rightarrow> http_response" where
  "HttpResponse_new status version =
     \<lparr>res_status = status, res_version = version, res_reason = [], res_fields = [],
      res_body = []\<rparr>"

definition HttpRequest_new :: "verb \<Rightarrow> string \<Rightarrow> nat \<Rightarrow> http_request" where
  "HttpRequest_new method target version =
     \<lparr>req_method = method, req_target = target, req_version = version, req_fields = [],
      req_body = []\<rparr>"

definition response_set ::
  "beast \<Rightarrow> http_response \<Rightarrow> field_name \<Rightarrow> string \<Rightarrow> http_response" where
  "response_set B r f v = r\<lparr>res_fields := field_set B (res_fields r) f v\<rparr>"

definition response_keep_alive :: "beast \<Rightarrow> http_response \<Rightarrow> bool \<Rightarrow> http_response" where
  "response_keep_alive B r k =
     r\<lparr>res_fields := set_keep_alive B (res_version r) (res_fields r) k\<rparr>"

definition request_keep_alive :: "beast \<Rightarrow> http_request \<Rightarrow> bool" where
  "request_keep_alive B r = keep_alive_of B (req_version r) (req_fields r)"

section \<open>Lower case\<close>

text \<open>\<open>lowercase\<close> of \<open>src/http_proxy.cpp\<close>: ASCII letters only.\<close>

definition lowercase_char :: "char \<Rightarrow> char" where
  "lowercase_char c =
     (if char_between CHR ''A'' CHR ''Z'' c
      then char_of ((of_char c :: nat) - of_char CHR ''A'' + of_char CHR ''a'') else c)"

definition lowercase :: "string \<Rightarrow> string" where
  "lowercase s = map lowercase_char s"

section \<open>Documented behaviour of the library functions\<close>

text \<open>Field names are recognised without regard to case.\<close>

definition known_fields :: "(field_name \<times> string) list" where
  "known_fields =
     [(Field_allow, ''allow''), (Field_authorization, ''authorization''),
      (Field_cache_control, ''cache-control''), (Field_connection, ''connection''),
      (Field_content_length, ''content-length''), (Field_content_type, ''content-type''),
      (Field_expect, ''expect''), (Field_host, ''host''), (Field_retry_after, ''retry-after''),
      (Field_server, ''server''), (Field_upgrade, ''upgrade''),
      (Field_www_authenticate, ''www-authenticate'')]"

definition beast_names :: "beast \<Rightarrow> bool" where
  "beast_names B \<longleftrightarrow>
     (\<forall>f s. (f, s) \<in> set known_fields \<longrightarrow> (\<forall>t. field_of B t = f \<longleftrightarrow> lowercase t = s)) \<and>
     (\<forall>s t. iequals B s t \<longleftrightarrow> lowercase s = lowercase t)"

text \<open>
  \<open>insert\<close> adds one field and keeps the others; \<open>set\<close> replaces every field of that name by one;
  \<open>keep_alive\<close> touches only the Connection field.
\<close>

definition beast_fields :: "beast \<Rightarrow> bool" where
  "beast_fields B \<longleftrightarrow>
     (\<forall>fs n v. set (field_insert B fs n v) = insert (n, v) (set fs)) \<and>
     (\<forall>fs f v. f \<noteq> Field_other \<longrightarrow>
        (\<exists>n. field_of B n = f \<and>
          set (field_set B fs f v) = insert (n, v) {x \<in> set fs. field_of B (fst x) \<noteq> f})) \<and>
     (\<forall>ver fs k.
        {x \<in> set (set_keep_alive B ver fs k). field_of B (fst x) \<noteq> Field_connection} =
        {x \<in> set fs. field_of B (fst x) \<noteq> Field_connection})"

text \<open>
  \<open>content_length\<close> and \<open>prepare_payload\<close> touch only the Content-Length and Transfer-Encoding
  fields.
\<close>

definition framing_field :: "beast \<Rightarrow> string \<times> string \<Rightarrow> bool" where
  "framing_field B x \<longleftrightarrow>
     field_of B (fst x) = Field_content_length \<or> lowercase (fst x) = ''transfer-encoding''"

definition beast_payload :: "beast \<Rightarrow> bool" where
  "beast_payload B \<longleftrightarrow>
     (\<forall>fs n. {x \<in> set (set_content_length B fs n). \<not> framing_field B x} =
             {x \<in> set fs. \<not> framing_field B x}) \<and>
     (\<forall>r r'. prepare_request B r = Inr r' \<longrightarrow>
        r'\<lparr>req_fields := req_fields r\<rparr> = r \<and>
        {x \<in> set (req_fields r'). \<not> framing_field B x} =
        {x \<in> set (req_fields r). \<not> framing_field B x}) \<and>
     (\<forall>r r'. prepare_response B r = Inr r' \<longrightarrow>
        r'\<lparr>res_fields := res_fields r\<rparr> = r \<and>
        {x \<in> set (res_fields r'). \<not> framing_field B x} =
        {x \<in> set (res_fields r). \<not> framing_field B x})"

section \<open>A concrete library\<close>

text \<open>
  An instance of the record that satisfies the three predicates, for evaluation on concrete
  messages: fields are appended, names are looked up in the table, JSON objects are printed
  without escapes.
\<close>

definition sample_field_of :: "string \<Rightarrow> field_name" where
  "sample_field_of s =
     (case map_of (map (\<lambda>(f, t). (t, f)) known_fields) (lowercase s) of
        None \<Rightarrow> Field_other | Some f \<Rightarrow> f)"

definition sample_field_text :: "field_name \<Rightarrow> string" where
  "sample_field_text f = (case map_of known_fields f of None \<Rightarrow> [] | Some t \<Rightarrow> t)"

definition sample_set :: "fields \<Rightarrow> field_name \<Rightarrow> string \<Rightarrow> fields" where
  "sample_set fs f v =
     filter (\<lambda>x. sample_field_of (fst x) \<noteq> f) fs @ [(sample_field_text f, v)]"

definition sample_keep_alive :: "nat \<Rightarrow> fields \<Rightarrow> bool" where
  "sample_keep_alive ver fs =
     (\<forall>x \<in> set fs. sample_field_of (fst x) = Field_connection \<longrightarrow> lowercase (snd x) \<noteq> ''close'')"

fun sample_dump :: "json \<Rightarrow> string" where
  "sample_dump JNull = ''null''"
| "sample_dump (JBool b) = (if b then ''true'' else ''false'')"
| "sample_dump (JNumber n) = nat_to_string (nat n)"
| "sample_dump (JFloat s) = s"
| "sample_dump (JString s) = [CHR 0x22] @ s @ [CHR 0x22]"
| "sample_dump (JArray js) = ''['' @ concat (map sample_dump js) @ '']''"
| "sample_dump (JObject kvs) =
     ''{'' @ concat (map (\<lambda>kv. [CHR 0x22] @ fst kv @ [CHR 0x22] @ '':'' @ sample_dump (snd kv)) kvs)
     @ ''}''"

definition sample_beast :: beast where
  "sample_beast =
     \<lparr>field_of = sample_field_of,
      field_insert = (\<lambda>fs n v. fs @ [(n, v)]),
      field_set = sample_set,
      keep_alive_of = sample_keep_alive,
      set_keep_alive = (\<lambda>ver fs k.
        if k then filter (\<lambda>x. sample_field_of (fst x) \<noteq> Field_connection) fs
        else sample_set fs Field_connection ''close''),
      set_content_length = (\<lambda>fs n. sample_set fs Field_content_length (nat_to_string n)),
      set_chunked = (\<lambda>fs k. if k then fs @ [(''Transfer-Encoding'', ''chunked'')] else fs),
      prepare_request = (\<lambda>r. Inr (r\<lparr>req_fields :=
        sample_set (req_fields r) Field_content_length (nat_to_string (length (req_body r)))\<rparr>)),
      prepare_response = (\<lambda>r. Inr (r\<lparr>res_fields :=
        sample_set (res_fields r) Field_content_length (nat_to_string (length (res_body r)))\<rparr>)),
      need_eof = (\<lambda>r. \<not> sample_keep_alive (res_version r) (res_fields r)),
      iequals = (\<lambda>s t. lowercase s = lowercase t),
      json_dump = (\<lambda>j. Inr (sample_dump j))\<rparr>"

lemma known_fields_facts:
  "distinct (map fst known_fields)" "distinct (map snd known_fields)"
  "\<forall>x \<in> set known_fields. fst x \<noteq> Field_other \<and> lowercase (snd x) = snd x"
  by code_simp+

lemma known_fields_complete: "f \<noteq> Field_other \<Longrightarrow> \<exists>s. (f, s) \<in> set known_fields"
  by (cases f) (auto simp: known_fields_def)

lemma sample_field_of_known:
  assumes "(f, s) \<in> set known_fields"
  shows "sample_field_of t = f \<longleftrightarrow> lowercase t = s"
proof -
  let ?tbl = "map (\<lambda>(f, t). (t, f)) known_fields"
  have d: "distinct (map fst ?tbl)"
    using known_fields_facts(2) by (simp add: comp_def case_prod_beta)
  have f: "f \<noteq> Field_other"
    using assms known_fields_facts(3) by fastforce
  have "map_of ?tbl u = Some f \<longleftrightarrow> u = s" for u
  proof -
    have "map_of ?tbl u = Some f \<longleftrightarrow> (f, u) \<in> set known_fields"
      using map_of_eq_Some_iff [OF d, of u f] by force
    also have "\<dots> \<longleftrightarrow> u = s"
      using assms known_fields_facts(1) eq_key_imp_eq_value by fastforce
    finally show ?thesis .
  qed
  from this [of "lowercase t"] f show ?thesis
    unfolding sample_field_of_def by (cases "map_of ?tbl (lowercase t)") auto
qed

lemma sample_field_text: "f \<noteq> Field_other \<Longrightarrow> sample_field_of (sample_field_text f) = f"
proof -
  assume "f \<noteq> Field_other"
  then obtain s where s: "(f, s) \<in> set known_fields"
    using known_fields_complete by blast
  then have "sample_field_text f = s"
    using known_fields_facts(1) by (simp add: sample_field_text_def)
  then show ?thesis
    using sample_field_of_known [OF s] s known_fields_facts(3) by fastforce
qed

lemma sample_beast_names: "beast_names sample_beast"
  by (simp add: beast_names_def sample_beast_def sample_field_of_known)

lemma set_sample_set:
  "set (sample_set fs f v) =
   insert (sample_field_text f, v) {x \<in> set fs. sample_field_of (fst x) \<noteq> f}"
  by (auto simp: sample_set_def)

lemma sample_beast_fields: "beast_fields sample_beast"
  unfolding beast_fields_def
proof (intro conjI allI impI)
  fix fs :: fields and n v
  show "set (field_insert sample_beast fs n v) = insert (n, v) (set fs)"
    by (simp add: sample_beast_def)
next
  fix fs :: fields and f v assume "f \<noteq> Field_other"
  then show "\<exists>n. field_of sample_beast n = f \<and> set (field_set sample_beast fs f v) =
      insert (n, v) {x \<in> set fs. field_of sample_beast (fst x) \<noteq> f}"
    by (intro exI [where x = "sample_field_text f"])
      (simp add: sample_beast_def set_sample_set sample_field_text)
next
  fix ver and fs :: fields and k
  show "{x \<in> set (set_keep_alive sample_beast ver fs k).
        field_of sample_beast (fst x) \<noteq> Field_connection} =
      {x \<in> set fs. field_of sample_beast (fst x) \<noteq> Field_connection}"
    using sample_field_text [of Field_connection]
    by (auto simp: sample_beast_def set_sample_set)
qed

lemma sample_beast_payload: "beast_payload sample_beast"
  using sample_field_text [of Field_content_length]
  by (auto simp: beast_payload_def framing_field_def sample_beast_def set_sample_set)

lemmas sample_beast_ok = sample_beast_names sample_beast_fields sample_beast_payload

section \<open>Lemmas on strings and fields\<close>

lemma takeWhile_less_iff: "length (takeWhile P s) < length s \<longleftrightarrow> (\<exists>c \<in> set s. \<not> P c)"
proof
  assume "length (takeWhile P s) < length s"
  then show "\<exists>c \<in> set s. \<not> P c"
    using nth_length_takeWhile nth_mem by blast
next
  assume "\<exists>c \<in> set s. \<not> P c"
  then have "takeWhile P s \<noteq> s"
    by (metis set_takeWhileD)
  then show "length (takeWhile P s) < length s"
    by (metis length_takeWhile_le le_neq_implies_less takeWhile_eq_take take_all_iff order_refl)
qed

lemma sv_find_None: "sv_find c s = None \<longleftrightarrow> c \<notin> set s"
  using takeWhile_less_iff [of "\<lambda>x. x \<noteq> c" s] by (auto simp: sv_find_def Let_def)

lemma sv_find_SomeD:
  assumes "sv_find c s = Some n"
  shows "n < length s" "s ! n = c" "c \<notin> set (take n s)"
proof -
  have n: "n = length (takeWhile (\<lambda>x. x \<noteq> c) s)" "n < length s"
    using assms by (auto simp: sv_find_def Let_def split: if_splits)
  show "n < length s" by (rule n(2))
  show "s ! n = c" using nth_length_takeWhile [of "\<lambda>x. x \<noteq> c" s] n by simp
  have "take n s = takeWhile (\<lambda>x. x \<noteq> c) s"
    unfolding n(1) by (simp add: takeWhile_eq_take [symmetric])
  then show "c \<notin> set (take n s)" by (metis set_takeWhileD)
qed

lemma starts_with_append [simp]: "starts_with (p @ s) p"
  by (simp add: starts_with_def)

lemma starts_with_iff: "starts_with s p \<longleftrightarrow> (\<exists>t. s = p @ t)"
  by (metis append_take_drop_id starts_with_append starts_with_def)

lemma lowercase_length [simp]: "length (lowercase s) = length s"
  by (simp add: lowercase_def)

lemma beast_namesD:
  assumes "beast_names B"
  shows "field_of B t = Field_connection \<longleftrightarrow> lowercase t = ''connection''"
    and "field_of B t = Field_host \<longleftrightarrow> lowercase t = ''host''"
    and "field_of B t = Field_expect \<longleftrightarrow> lowercase t = ''expect''"
    and "field_of B t = Field_server \<longleftrightarrow> lowercase t = ''server''"
    and "field_of B t = Field_upgrade \<longleftrightarrow> lowercase t = ''upgrade''"
    and "field_of B t = Field_content_length \<longleftrightarrow> lowercase t = ''content-length''"
    and "field_of B t = Field_authorization \<longleftrightarrow> lowercase t = ''authorization''"
  using assms by (simp_all add: beast_names_def known_fields_def)

lemma prepare_response_keeps:
  assumes "beast_payload B" "prepare_response B r = Inr r'"
  shows "res_status r' = res_status r" "res_version r' = res_version r"
    "res_reason r' = res_reason r" "res_body r' = res_body r"
    "{x \<in> set (res_fields r'). \<not> framing_field B x} = {x \<in> set (res_fields r). \<not> framing_field B x}"
proof -
  have eq: "r'\<lparr>res_fields := res_fields r\<rparr> = r"
    using assms by (simp add: beast_payload_def)
  from arg_cong [OF eq, of res_status] show "res_status r' = res_status r" by simp
  from arg_cong [OF eq, of res_version] show "res_version r' = res_version r" by simp
  from arg_cong [OF eq, of res_reason] show "res_reason r' = res_reason r" by simp
  from arg_cong [OF eq, of res_body] show "res_body r' = res_body r" by simp
  show "{x \<in> set (res_fields r'). \<not> framing_field B x} =
      {x \<in> set (res_fields r). \<not> framing_field B x}"
    using assms by (simp add: beast_payload_def)
qed

lemma prepare_request_keeps:
  assumes "beast_payload B" "prepare_request B r = Inr r'"
  shows "req_method r' = req_method r" "req_target r' = req_target r"
    "req_version r' = req_version r" "req_body r' = req_body r"
    "{x \<in> set (req_fields r'). \<not> framing_field B x} = {x \<in> set (req_fields r). \<not> framing_field B x}"
proof -
  have eq: "r'\<lparr>req_fields := req_fields r\<rparr> = r"
    using assms by (simp add: beast_payload_def)
  from arg_cong [OF eq, of req_method] show "req_method r' = req_method r" by simp
  from arg_cong [OF eq, of req_target] show "req_target r' = req_target r" by simp
  from arg_cong [OF eq, of req_version] show "req_version r' = req_version r" by simp
  from arg_cong [OF eq, of req_body] show "req_body r' = req_body r" by simp
  show "{x \<in> set (req_fields r'). \<not> framing_field B x} =
      {x \<in> set (req_fields r). \<not> framing_field B x}"
    using assms by (simp add: beast_payload_def)
qed

lemma nat_to_string_length: "n < 10 ^ k \<Longrightarrow> 0 < k \<Longrightarrow> length (nat_to_string n) \<le> k"
proof (induction n arbitrary: k rule: nat_to_string.induct)
  case (1 n)
  show ?case
  proof (cases "n < 10")
    case True
    then show ?thesis using 1 by (simp add: nat_to_string.simps [of n])
  next
    case False
    obtain j where j: "k = Suc j"
      using 1 by (cases k) auto
    moreover have "0 < j"
      using 1 False j by (cases j) auto
    ultimately have j: "k = Suc j" "0 < j" by auto
    have "n div 10 < 10 ^ j"
      using 1 j by (simp add: div_less_iff_less_mult mult.commute)
    then have "length (nat_to_string (n div 10)) \<le> j"
      using 1 False j by blast
    then show ?thesis using False j by (simp add: nat_to_string.simps [of n])
  qed
qed

lemma nat_to_string_digits:
  "c \<in> set (nat_to_string n) \<Longrightarrow> char_between CHR ''0'' CHR ''9'' c"
proof (induction n rule: nat_to_string.induct)
  case (1 n)
  have digit: "char_between CHR ''0'' CHR ''9'' (char_of (48 + d))" if "d < 10" for d :: nat
    using that by (simp add: char_between_def)
  show ?case
  proof (cases "n < 10")
    case True
    then show ?thesis using 1 digit [of n] by (simp add: nat_to_string.simps [of n])
  next
    case False
    then show ?thesis using 1 digit [of "n mod 10"] by (auto simp: nat_to_string.simps [of n])
  qed
qed

end
