(* ===== verification/Handler.thy ===== *)
theory Handler
  imports Http
begin

text \<open>
  Routing and the responses the gateway makes itself, \<open>include/apigate/http_handler.hpp\<close> and
  \<open>src/http_handler.cpp\<close>. A response is built through the Boost.Beast and JSON functions of
  the \<open>beast\<close> argument; those may throw, so the builders return a result.
\<close>

section \<open>Data\<close>

datatype gateway_failure =
    Bad_gateway | Gateway_timeout | Gateway_overloaded | Buffer_capacity_exhausted
  | No_healthy_upstream

record selected_upstream =
  su_upstream :: upstream_config
  su_prefix :: string
  su_strip_prefix :: bool
  su_route_index :: "nat option"
  su_strip_authorization :: bool
  su_stream_response :: bool

record selected_route =
  sr_upstreams :: "upstream_config list"
  sr_prefix :: string
  sr_strip_prefix :: bool
  sr_route_index :: "nat option"
  sr_auth :: "api_key_auth_config option"
  sr_stream_response :: bool

section \<open>Requests\<close>

definition request_path :: "string \<Rightarrow> string" where
  "request_path target =
     (case sv_find CHR ''?'' target of None \<Rightarrow> target | Some query_position \<Rightarrow> take query_position target)"

definition is_supported_proxy_target :: "string \<Rightarrow> bool" where
  "is_supported_proxy_target target \<longleftrightarrow>
     target \<noteq> [] \<and> hd target = CHR ''/'' \<and> sv_find CHR 0x23 target = None"

definition requests_upgrade :: "beast \<Rightarrow> http_request \<Rightarrow> bool" where
  "requests_upgrade B request \<longleftrightarrow>
     list_ex (\<lambda>f. field_of B (fst f) = Field_upgrade) (req_fields request)"

definition is_supported_proxy_method :: "verb \<Rightarrow> bool" where
  "is_supported_proxy_method method \<longleftrightarrow>
     method = Get \<or> method = Post \<or> method = Put \<or> method = Patch"

section \<open>Responses\<close>

definition make_json_response ::
  "beast \<Rightarrow> http_request \<Rightarrow> nat \<Rightarrow> json \<Rightarrow> http_response result" where
  "make_json_response B request status body =
     (let response = HttpResponse_new status (req_version request);
          response = response_set B response Field_server ''ApiGate'';
          response = response_set B response Field_content_type ''application/json'';
          response = response_set B response Field_cache_control ''no-store'';
          response = response_keep_alive B response (request_keep_alive B request) in
      bind_result (json_dump B body) (\<lambda>text.
        prepare_response B (response\<lparr>res_body := text\<rparr>)))"

definition error_json :: "string \<Rightarrow> string \<Rightarrow> json" where
  "error_json code message =
     JObject [(''error'', JObject [(''code'', JString code), (''message'', JString message)])]"

definition make_method_not_allowed ::
  "beast \<Rightarrow> http_request \<Rightarrow> bool \<Rightarrow> http_response result" where
  "make_method_not_allowed B request proxy_enabled =
     (let allowed = (if proxy_enabled then ''GET, POST, PUT, PATCH'' else ''GET'');
          message = (if proxy_enabled then ''method is not supported'' else ''only GET is supported'') in
      bind_result
        (make_json_response B request status_method_not_allowed
           (error_json ''method_not_allowed'' message))
        (\<lambda>response. Inr (response_set B response Field_allow allowed)))"

section \<open>Routing\<close>

definition classify_http_route :: "string \<Rightarrow> string" where
  "classify_http_route target =
     (let path = request_path target in
      if path = ''/healthz'' then ''healthz''
      else if path = ''/readyz'' then ''readyz''
      else ''unmatched'')"

definition is_metrics_target :: "app_config \<Rightarrow> string \<Rightarrow> bool" where
  "is_metrics_target config target \<longleftrightarrow>
     cfg_metrics_enabled config \<and> request_path target = ''/metrics''"

definition make_metrics_response ::
  "beast \<Rightarrow> http_request \<Rightarrow> string \<Rightarrow> http_response result" where
  "make_metrics_response B request body =
     (let response = HttpResponse_new status_ok (req_version request);
          response = response_set B response Field_server ''ApiGate'';
          response = response_set B response Field_content_type
            ''text/plain; version=0.0.4; charset=utf-8'';
          response = response_set B response Field_cache_control ''no-store'';
          response = response_keep_alive B response (request_keep_alive B request) in
      prepare_response B (response\<lparr>res_body := body\<rparr>))"

definition route_candidate :: "string \<Rightarrow> nat \<Rightarrow> string \<Rightarrow> bool" where
  "route_candidate path longest prefix \<longleftrightarrow>
     longest < length prefix \<and> starts_with path prefix \<and>
     (prefix = ''/'' \<or> length path = length prefix \<or> path ! length prefix = CHR ''/'')"

text \<open>The loop over the routes: \<open>longest\<close> and \<open>selected\<close> are its variables.\<close>

fun select_loop ::
  "string \<Rightarrow> route_config list \<Rightarrow> nat \<Rightarrow> nat \<Rightarrow> selected_route option \<Rightarrow> selected_route option"
where
  "select_loop path [] index longest selected = selected"
| "select_loop path (route # routes) index longest selected =
     (if route_candidate path longest (route_prefix route)
      then select_loop path routes (index + 1) (length (route_prefix route))
        (Some \<lparr>sr_upstreams = route_upstreams route, sr_prefix = route_prefix route,
               sr_strip_prefix = route_strip_prefix route, sr_route_index = Some index,
               sr_auth = route_auth route, sr_stream_response = route_stream_response route\<rparr>)
      else select_loop path routes (index + 1) longest selected)"

definition select_http_route ::
  "beast \<Rightarrow> app_config \<Rightarrow> http_request \<Rightarrow> selected_route option" where
  "select_http_route B config request =
     (if \<not> is_supported_proxy_method (req_method request) then None
      else let target = req_target request in
        if classify_http_route target \<noteq> ''unmatched'' \<or> is_metrics_target config target then None
        else if \<not> is_supported_proxy_target target \<or> requests_upgrade B request \<or>
          (req_method request = Get \<and> req_body request \<noteq> []) then None
        else case cfg_upstream config of
          Some u \<Rightarrow>
            Some \<lparr>sr_upstreams = [u], sr_prefix = [], sr_strip_prefix = False,
                  sr_route_index = None, sr_auth = None, sr_stream_response = False\<rparr>
        | None \<Rightarrow> select_loop (request_path target) (cfg_routes config) 0 0 None)"

definition should_proxy_http_request :: "beast \<Rightarrow> app_config \<Rightarrow> http_request \<Rightarrow> bool" where
  "should_proxy_http_request B config request = (select_http_route B config request \<noteq> None)"

definition handle_http_request ::
  "beast \<Rightarrow> app_config \<Rightarrow> http_request \<Rightarrow> http_response result" where
  "handle_http_request B config request =
     (let target = req_target request;
          route = classify_http_route target;
          proxy_enabled = (cfg_upstream config \<noteq> None \<or> cfg_routes config \<noteq> []) in
      if is_metrics_target config target then
        if req_method request \<noteq> Get then make_method_not_allowed B request False
        else if req_body request \<noteq> [] \<or> requests_upgrade B request then
          make_json_response B request status_bad_request
            (error_json ''unsupported_request'' ''invalid metrics request'')
        else make_metrics_response B request []
      else if route \<noteq> ''unmatched'' \<and> req_method request \<noteq> Get then
        make_method_not_allowed B request False
      else if \<not> is_supported_proxy_method (req_method request) then
        make_method_not_allowed B request proxy_enabled
      else if proxy_enabled \<and> requests_upgrade B request then
        make_json_response B request status_bad_request
          (error_json ''unsupported_request'' ''request cannot be proxied'')
      else if route = ''healthz'' then
        make_json_response B request status_ok
          (JObject [(''status'', JString ''ok''), (''service'', JString (cfg_service_name config))])
      else if route = ''readyz'' then
        make_json_response B request status_ok
          (JObject [(''status'', JString ''ready''), (''service'', JString (cfg_service_name config))])
      else if \<not> proxy_enabled \<and> req_method request \<noteq> Get then
        make_method_not_allowed B request False
      else if proxy_enabled \<and>
          (\<not> is_supported_proxy_target target \<or> (req_method request = Get \<and> req_body request \<noteq> []))
      then
        make_json_response B request status_bad_request
          (error_json ''unsupported_request'' ''request cannot be proxied'')
      else
        make_json_response B request status_not_found
          (error_json ''not_found'' ''route not found''))"

section \<open>Error responses\<close>

definition make_authentication_failed_response ::
  "beast \<Rightarrow> http_request \<Rightarrow> http_response result" where
  "make_authentication_failed_response B request =
     bind_result
       (make_json_response B request status_unauthorized
          (error_json ''authentication_failed'' ''authentication failed''))
       (\<lambda>response. Inr (response_set B response Field_www_authenticate
          (''Bearer realm='' @ [CHR 0x22] @ ''ApiGate'' @ [CHR 0x22])))"

definition make_rate_limited_response ::
  "beast \<Rightarrow> http_request \<Rightarrow> u32 \<Rightarrow> http_response result" where
  "make_rate_limited_response B request retry_after_seconds =
     bind_result
       (make_json_response B request status_too_many_requests
          (error_json ''rate_limited'' ''request rate limit is exceeded''))
       (\<lambda>response. Inr (response_set B response Field_retry_after
          (nat_to_string (unat retry_after_seconds))))"

definition make_gateway_error_response ::
  "beast \<Rightarrow> http_request \<Rightarrow> gateway_failure \<Rightarrow> http_response result" where
  "make_gateway_error_response B request failure =
     (if failure = No_healthy_upstream then
        make_json_response B request status_service_unavailable
          (error_json ''no_healthy_upstream'' ''no healthy upstream is available'')
      else if failure = Gateway_timeout then
        make_json_response B request status_gateway_timeout
          (error_json ''gateway_timeout'' ''upstream request timed out'')
      else if failure = Gateway_overloaded then
        make_json_response B request status_service_unavailable
          (error_json ''gateway_overloaded'' ''proxy capacity is exhausted'')
      else if failure = Buffer_capacity_exhausted then
        make_json_response B request status_service_unavailable
          (error_json ''gateway_overloaded'' ''buffer capacity is exhausted'')
      else
        make_json_response B request status_bad_gateway
          (error_json ''bad_gateway'' ''upstream request failed''))"

section \<open>Specification of routing\<close>

text \<open>
  A prefix matches a path on a segment boundary: the rest of the path is empty or starts a new
  segment. The prefix \<open>/\<close> matches every path that starts with it.
\<close>

definition prefix_matches :: "string \<Rightarrow> string \<Rightarrow> bool" where
  "prefix_matches path prefix \<longleftrightarrow>
     prefix \<noteq> [] \<and>
     (\<exists>rest. path = prefix @ rest \<and> (prefix = ''/'' \<or> rest = [] \<or> hd rest = CHR ''/''))"

definition local_target :: "app_config \<Rightarrow> string \<Rightarrow> bool" where
  "local_target config target \<longleftrightarrow>
     request_path target = ''/healthz'' \<or> request_path target = ''/readyz'' \<or>
     (cfg_metrics_enabled config \<and> request_path target = ''/metrics'')"

definition proxyable :: "beast \<Rightarrow> app_config \<Rightarrow> http_request \<Rightarrow> bool" where
  "proxyable B config request \<longleftrightarrow>
     req_method request \<in> {Get, Post, Put, Patch} \<and>
     \<not> local_target config (req_target request) \<and>
     (\<exists>rest. req_target request = CHR ''/'' # rest) \<and> CHR 0x23 \<notin> set (req_target request) \<and>
     \<not> requests_upgrade B request \<and>
     \<not> (req_method request = Get \<and> req_body request \<noteq> [])"

definition route_selection :: "route_config \<Rightarrow> nat \<Rightarrow> selected_route" where
  "route_selection route index =
     \<lparr>sr_upstreams = route_upstreams route, sr_prefix = route_prefix route,
      sr_strip_prefix = route_strip_prefix route, sr_route_index = Some index,
      sr_auth = route_auth route, sr_stream_response = route_stream_response route\<rparr>"

lemma route_candidate_iff:
  "route_candidate path longest prefix \<longleftrightarrow> longest < length prefix \<and> prefix_matches path prefix"
  unfolding route_candidate_def prefix_matches_def starts_with_iff
  by (auto simp: nth_append) (metis hd_conv_nth)+

lemma local_target_iff:
  "local_target config target \<longleftrightarrow>
   classify_http_route target \<noteq> ''unmatched'' \<or> is_metrics_target config target"
  by (simp add: local_target_def classify_http_route_def is_metrics_target_def Let_def)

lemma proxyable_iff:
  "proxyable B config request \<longleftrightarrow>
   is_supported_proxy_method (req_method request) \<and>
   \<not> (classify_http_route (req_target request) \<noteq> ''unmatched'' \<or>
      is_metrics_target config (req_target request)) \<and>
   \<not> (\<not> is_supported_proxy_target (req_target request) \<or> requests_upgrade B request \<or>
      (req_method request = Get \<and> req_body request \<noteq> []))"
  by (cases "req_target request")
    (auto simp: proxyable_def local_target_iff is_supported_proxy_method_def
      is_supported_proxy_target_def sv_find_None)

lemma select_http_route_eq:
  "select_http_route B config request =
   (if proxyable B config request then
      (case cfg_upstream config of
         Some u \<Rightarrow>
           Some \<lparr>sr_upstreams = [u], sr_prefix = [], sr_strip_prefix = False,
                 sr_route_index = None, sr_auth = None, sr_stream_response = False\<rparr>
       | None \<Rightarrow> select_loop (request_path (req_target request)) (cfg_routes config) 0 0 None)
    else None)"
  unfolding select_http_route_def proxyable_iff Let_def by (simp split: if_split)

lemma select_loop_spec:
  "(select_loop path routes index longest selected = selected \<and>
    (\<forall>r \<in> set routes. prefix_matches path (route_prefix r) \<longrightarrow> length (route_prefix r) \<le> longest)) \<or>
   (\<exists>i < length routes.
      select_loop path routes index longest selected =
        Some (route_selection (routes ! i) (index + i)) \<and>
      longest < length (route_prefix (routes ! i)) \<and>
      prefix_matches path (route_prefix (routes ! i)) \<and>
      (\<forall>j < length routes. prefix_matches path (route_prefix (routes ! j)) \<longrightarrow>
         length (route_prefix (routes ! j)) \<le> length (route_prefix (routes ! i))) \<and>
      (\<forall>j < i. prefix_matches path (route_prefix (routes ! j)) \<longrightarrow>
         length (route_prefix (routes ! j)) < length (route_prefix (routes ! i))))"
proof (induction routes arbitrary: index longest selected)
  case Nil
  then show ?case by simp
next
  case (Cons r rs)
  show ?case
  proof (cases "route_candidate path longest (route_prefix r)")
    case True
    then have r: "longest < length (route_prefix r)" "prefix_matches path (route_prefix r)"
      by (simp_all add: route_candidate_iff)
    have eq: "select_loop path (r # rs) index longest selected =
        select_loop path rs (Suc index) (length (route_prefix r)) (Some (route_selection r index))"
      using True by (simp add: route_selection_def)
    from Cons.IH [of "Suc index" "length (route_prefix r)" "Some (route_selection r index)"]
    show ?thesis
    proof (elim disjE exE conjE)
      assume "select_loop path rs (Suc index) (length (route_prefix r))
          (Some (route_selection r index)) = Some (route_selection r index)"
        and "\<forall>ra\<in>set rs. prefix_matches path (route_prefix ra) \<longrightarrow>
          length (route_prefix ra) \<le> length (route_prefix r)"
      then show ?thesis
        unfolding eq using r
        by (intro disjI2 exI [where x = 0]) (auto simp: nth_Cons split: nat.split)
    next
      fix i assume i: "i < length rs"
        "select_loop path rs (Suc index) (length (route_prefix r))
          (Some (route_selection r index)) = Some (route_selection (rs ! i) (Suc index + i))"
        "length (route_prefix r) < length (route_prefix (rs ! i))"
        "prefix_matches path (route_prefix (rs ! i))"
        "\<forall>j<length rs. prefix_matches path (route_prefix (rs ! j)) \<longrightarrow>
          length (route_prefix (rs ! j)) \<le> length (route_prefix (rs ! i))"
        "\<forall>j<i. prefix_matches path (route_prefix (rs ! j)) \<longrightarrow>
          length (route_prefix (rs ! j)) < length (route_prefix (rs ! i))"
      then show ?thesis
        unfolding eq using r
        by (intro disjI2 exI [where x = "Suc i"]) (auto simp: nth_Cons split: nat.split)
    qed
  next
    case False
    then have r: "prefix_matches path (route_prefix r) \<longrightarrow> length (route_prefix r) \<le> longest"
      by (auto simp: route_candidate_iff)
    have eq: "select_loop path (r # rs) index longest selected =
        select_loop path rs (Suc index) longest selected"
      using False by simp
    from Cons.IH [of "Suc index" longest selected] show ?thesis
    proof (elim disjE exE conjE)
      assume "select_loop path rs (Suc index) longest selected = selected"
        and "\<forall>ra\<in>set rs. prefix_matches path (route_prefix ra) \<longrightarrow>
          length (route_prefix ra) \<le> longest"
      then show ?thesis unfolding eq using r by simp
    next
      fix i assume i: "i < length rs"
        "select_loop path rs (Suc index) longest selected =
          Some (route_selection (rs ! i) (Suc index + i))"
        "longest < length (route_prefix (rs ! i))"
        "prefix_matches path (route_prefix (rs ! i))"
        "\<forall>j<length rs. prefix_matches path (route_prefix (rs ! j)) \<longrightarrow>
          length (route_prefix (rs ! j)) \<le> length (route_prefix (rs ! i))"
        "\<forall>j<i. prefix_matches path (route_prefix (rs ! j)) \<longrightarrow>
          length (route_prefix (rs ! j)) < length (route_prefix (rs ! i))"
      then show ?thesis
        unfolding eq using r
        by (intro disjI2 exI [where x = "Suc i"]) (auto simp: nth_Cons split: nat.split)
    qed
  qed
qed

text \<open>
  C28. Routing by longest prefix. With a route table, a request that may be proxied goes to the
  route whose prefix is the longest that matches its path (the target before the query) on a
  segment boundary, the first of them when several are equally long; it is not proxied exactly
  when no prefix matches. A request that may not be proxied (a health, readiness or metrics
  path, an unsupported method, target or upgrade, a GET with a body) selects no route.
\<close>

theorem select_longest_prefix:
  assumes "cfg_upstream config = None"
  shows "if proxyable B config request
    then (let path = request_path (req_target request); routes = cfg_routes config in
      case select_http_route B config request of
        None \<Rightarrow> \<forall>r \<in> set routes. \<not> prefix_matches path (route_prefix r)
      | Some s \<Rightarrow> (\<exists>i < length routes.
          s = route_selection (routes ! i) i \<and>
          prefix_matches path (route_prefix (routes ! i)) \<and>
          (\<forall>j < length routes. prefix_matches path (route_prefix (routes ! j)) \<longrightarrow>
             length (route_prefix (routes ! j)) \<le> length (route_prefix (routes ! i))) \<and>
          (\<forall>j < i. prefix_matches path (route_prefix (routes ! j)) \<longrightarrow>
             length (route_prefix (routes ! j)) < length (route_prefix (routes ! i)))))
    else select_http_route B config request = None"
proof (cases "proxyable B config request")
  case True
  let ?p = "request_path (req_target request)"
  have sel: "select_http_route B config request = select_loop ?p (cfg_routes config) 0 0 None"
    using True assms by (simp add: select_http_route_eq)
  from select_loop_spec [of ?p "cfg_routes config" 0 0 None]
  show ?thesis
  proof (elim disjE exE conjE)
    assume "select_loop ?p (cfg_routes config) 0 0 None = None"
      and "\<forall>r\<in>set (cfg_routes config). prefix_matches ?p (route_prefix r) \<longrightarrow>
        length (route_prefix r) \<le> 0"
    then show ?thesis
      using True by (auto simp: sel Let_def prefix_matches_def)
  next
    fix i
    assume "i < length (cfg_routes config)"
      and "select_loop ?p (cfg_routes config) 0 0 None =
        Some (route_selection (cfg_routes config ! i) (0 + i))"
      and "prefix_matches ?p (route_prefix (cfg_routes config ! i))"
      and "\<forall>j<length (cfg_routes config). prefix_matches ?p (route_prefix (cfg_routes config ! j)) \<longrightarrow>
        length (route_prefix (cfg_routes config ! j)) \<le> length (route_prefix (cfg_routes config ! i))"
      and "\<forall>j<i. prefix_matches ?p (route_prefix (cfg_routes config ! j)) \<longrightarrow>
        length (route_prefix (cfg_routes config ! j)) < length (route_prefix (cfg_routes config ! i))"
    then show ?thesis
      using True by (auto simp: sel Let_def)
  qed
next
  case False
  then show ?thesis by (simp add: select_http_route_eq)
qed

text \<open>A concrete table: \<open>/\<close>, \<open>/api\<close> and \<open>/api/v2\<close>.\<close>

definition sample_route :: "string \<Rightarrow> route_config" where
  "sample_route prefix =
     \<lparr>route_prefix = prefix,
      route_upstreams = [\<lparr>up_host = ''backend'', up_port = 8080, up_timeout_ms = 1000,
        up_scheme = Http\<rparr>],
      route_strip_prefix = True, route_rate_limit = None, route_health_check = None,
      route_auth = None, route_stream_response = False\<rparr>"

definition sample_config :: app_config where
  "sample_config =
     AppConfig_default\<lparr>cfg_routes := map sample_route [''/'', ''/api'', ''/api/v2'']\<rparr>"

definition sample_request :: "verb \<Rightarrow> string \<Rightarrow> http_request" where
  "sample_request method target = HttpRequest_new method target 11"

lemma sample_config_facts:
  "cfg_upstream sample_config = None" "cfg_routes sample_config \<noteq> []"
  by code_simp+

lemma sample_proxyable:
  "proxyable sample_beast sample_config (sample_request Get ''/api/v2?x'')"
  unfolding proxyable_iff by code_simp

lemma sample_selected:
  "select_http_route sample_beast sample_config (sample_request Get ''/api/v2?x'') =
   Some (route_selection (sample_route ''/api/v2'') 2)"
  by code_simp

theorem select_longest_prefix_witness:
  "\<exists>i < length (cfg_routes sample_config).
     route_selection (sample_route ''/api/v2'') 2 = route_selection (cfg_routes sample_config ! i) i"
  using select_longest_prefix [OF sample_config_facts(1), of sample_beast
      "sample_request Get ''/api/v2?x''"]
  by (auto simp: sample_proxyable sample_selected Let_def)

section \<open>Local answers\<close>

lemma make_json_response_status:
  "beast_payload B \<Longrightarrow> make_json_response B request status body = Inr r \<Longrightarrow> res_status r = status"
  by (auto simp: make_json_response_def Let_def prepare_response_keeps HttpResponse_new_def
      response_set_def response_keep_alive_def elim!: bind_result_InrE)

lemma make_metrics_response_status:
  "beast_payload B \<Longrightarrow> make_metrics_response B request body = Inr r \<Longrightarrow> res_status r = status_ok"
  by (auto simp: make_metrics_response_def Let_def prepare_response_keeps HttpResponse_new_def
      response_set_def response_keep_alive_def)

lemma make_method_not_allowed_status:
  "beast_payload B \<Longrightarrow> make_method_not_allowed B request enabled = Inr r \<Longrightarrow>
   res_status r = status_method_not_allowed"
  by (auto simp: make_method_not_allowed_def Let_def response_set_def make_json_response_status
      elim!: bind_result_InrE)

lemmas local_status =
  make_json_response_status make_metrics_response_status make_method_not_allowed_status

lemma classify_values:
  "classify_http_route target = ''healthz'' \<longleftrightarrow> request_path target = ''/healthz''"
  "classify_http_route target = ''readyz'' \<longleftrightarrow> request_path target = ''/readyz''"
  "classify_http_route target \<noteq> ''unmatched'' \<longleftrightarrow>
   request_path target = ''/healthz'' \<or> request_path target = ''/readyz''"
  by (auto simp: classify_http_route_def Let_def)



text \<open>What a selected route says of the request and the configuration.\<close>

lemma select_http_route_Some:
  assumes "select_http_route B config request = Some s"
  shows "proxyable B config request \<and>
    classify_http_route (req_target request) = ''unmatched'' \<and>
    (cfg_upstream config = None \<longrightarrow> (\<exists>i < length (cfg_routes config).
       sr_route_index s = Some i \<and> s = route_selection (cfg_routes config ! i) i)) \<and>
    (\<forall>u. cfg_upstream config = Some u \<longrightarrow> sr_upstreams s = [u] \<and> sr_route_index s = None)"
proof (intro conjI impI allI)
  show p: "proxyable B config request"
    using assms by (auto simp: select_http_route_eq split: if_splits)
  then show "classify_http_route (req_target request) = ''unmatched''"
    by (simp add: proxyable_iff)
  show "sr_upstreams s = [u]" "sr_route_index s = None" if "cfg_upstream config = Some u" for u
    using that assms p by (auto simp: select_http_route_eq)
  assume "cfg_upstream config = None"
  then have "select_loop (request_path (req_target request)) (cfg_routes config) 0 0 None = Some s"
    using assms p by (simp add: select_http_route_eq)
  then show "\<exists>i < length (cfg_routes config).
       sr_route_index s = Some i \<and> s = route_selection (cfg_routes config ! i) i"
    using select_loop_spec [of "request_path (req_target request)" "cfg_routes config" 0 0 None]
    by (auto simp: route_selection_def)
qed

end
