(* ===== verification/ApiKeyAuth.thy ===== *)
theory ApiKeyAuth
  imports Http
begin

text \<open>
  API keys, \<open>src/api_key_auth.cpp\<close>. The two OpenSSL functions are the fields of the record
  \<open>openssl\<close>: \<open>EVP_Digest\<close> with \<open>EVP_sha256\<close> gives its return value and the bytes it wrote,
  \<open>CRYPTO_memcmp\<close> compares the first \<open>n\<close> bytes. What the properties need of them is
  \<open>openssl_ok\<close>: the digest succeeds with 32 bytes and the comparison is zero exactly on equal
  bytes.
\<close>

record openssl =
  evp_digest :: "string \<Rightarrow> int \<times> u8 list"
  crypto_memcmp :: "u8 list \<Rightarrow> u8 list \<Rightarrow> nat \<Rightarrow> int"

definition openssl_ok :: "openssl \<Rightarrow> bool" where
  "openssl_ok S \<longleftrightarrow>
     (\<forall>key. fst (evp_digest S key) = 1 \<and> length (snd (evp_digest S key)) = 32) \<and>
     (\<forall>a b n. length a = n \<longrightarrow> length b = n \<longrightarrow> (crypto_memcmp S a b n = 0 \<longleftrightarrow> a = b))"

section \<open>Operations\<close>

definition upper_digit_or_underscore :: "char \<Rightarrow> bool" where
  "upper_digit_or_underscore c \<longleftrightarrow>
     char_between CHR ''A'' CHR ''Z'' c \<or> char_between CHR ''0'' CHR ''9'' c \<or> c = CHR ''_''"

definition valid_api_key_reference :: "string \<Rightarrow> bool" where
  "valid_api_key_reference reference =
     (let prefix = ''APIGATE_AUTH_KEY_'' in
      if \<not> starts_with reference prefix then False
      else let reference = drop (length prefix) reference in
        reference \<noteq> [] \<and> length reference \<le> 64 \<and> list_all upper_digit_or_underscore reference)"

definition valid_api_key :: "string \<Rightarrow> bool" where
  "valid_api_key key \<longleftrightarrow>
     32 \<le> length key \<and> length key \<le> 256 \<and>
     list_all (\<lambda>c. upper_digit_or_underscore c \<or> char_between CHR ''a'' CHR ''z'' c \<or> c = CHR ''-'')
       key"

definition hash_api_key :: "openssl \<Rightarrow> string \<Rightarrow> api_key_digest result" where
  "hash_api_key S key =
     (case evp_digest S key of (rc, bytes) \<Rightarrow>
        if rc \<noteq> 1 \<or> length bytes \<noteq> 32 then
          Inl (Runtime_error ''API key digest calculation failed'')
        else Inr bytes)"

text \<open>The loop over the configured digests; \<open>matched\<close> is its accumulator.\<close>

fun match_loop :: "openssl \<Rightarrow> api_key_digest list \<Rightarrow> api_key_digest \<Rightarrow> u32 \<Rightarrow> u32" where
  "match_loop S [] candidate matched = matched"
| "match_loop S (d # ds) candidate matched =
     match_loop S ds candidate
       (or matched (if crypto_memcmp S d candidate (length candidate) = 0 then 1 else 0))"

definition matches_api_key_digest ::
  "openssl \<Rightarrow> api_key_auth_config \<Rightarrow> api_key_digest \<Rightarrow> bool" where
  "matches_api_key_digest S config candidate =
     (if auth_key_count config = 0 \<or> length (auth_digests config) < auth_key_count config then False
      else match_loop S (take (auth_key_count config) (auth_digests config)) candidate 0 \<noteq> 0)"

definition authenticate_api_key ::
  "beast \<Rightarrow> openssl \<Rightarrow> api_key_auth_config \<Rightarrow> http_request \<Rightarrow> bool result" where
  "authenticate_api_key B S config request =
     (case filter (\<lambda>f. field_of B (fst f) = Field_authorization) (req_fields request) of
        [(name, value)] \<Rightarrow>
          (case sv_find CHR '' '' value of
             None \<Rightarrow> Inr False
           | Some separator \<Rightarrow>
               if \<not> iequals B (take separator value) ''Bearer'' then Inr False
               else let value = drop separator value in
                 (case sv_find_first_not_of [CHR '' ''] value of
                    None \<Rightarrow> Inr False
                  | Some credential \<Rightarrow>
                      let value = drop credential value in
                      if \<not> valid_api_key value then Inr False
                      else bind_result (hash_api_key S value)
                        (\<lambda>candidate. Inr (matches_api_key_digest S config candidate))))
      | _ \<Rightarrow> Inr False)"

section \<open>Specification\<close>

text \<open>
  \<open>bearer_credentials value key\<close>: the field value is the scheme \<open>Bearer\<close> in any case, one or
  more spaces, and the key.
\<close>

definition bearer_credentials :: "string \<Rightarrow> string \<Rightarrow> bool" where
  "bearer_credentials value key \<longleftrightarrow>
     (\<exists>scheme n. value = scheme @ replicate (Suc n) CHR '' '' @ key \<and>
        lowercase scheme = lowercase ''Bearer'' \<and> (key \<noteq> [] \<longrightarrow> hd key \<noteq> CHR '' ''))"

lemma match_loop_nonzero:
  "match_loop S ds candidate m \<noteq> 0 \<longleftrightarrow>
   m \<noteq> 0 \<or> (\<exists>d \<in> set ds. crypto_memcmp S d candidate (length candidate) = 0)"
proof (induction ds arbitrary: m)
  case Nil
  then show ?case by simp
next
  case (Cons d ds)
  have "or m (1 :: u32) \<noteq> 0"
    by (metis bit_or_iff bit_1_0 bit_0_eq bot_apply bot_bool_def)
  then show ?case using Cons by simp
qed

lemma matches_api_key_digest_iff:
  assumes "openssl_ok S" "length candidate = 32" "\<forall>d \<in> set (auth_digests config). length d = 32"
    and "auth_key_count config \<le> length (auth_digests config)"
  shows "matches_api_key_digest S config candidate \<longleftrightarrow>
    candidate \<in> set (take (auth_key_count config) (auth_digests config))"
proof -
  have "\<forall>d \<in> set (take (auth_key_count config) (auth_digests config)). length d = 32"
    using assms(3) set_take_subset by fast
  then have "\<forall>d \<in> set (take (auth_key_count config) (auth_digests config)).
      crypto_memcmp S d candidate (length candidate) = 0 \<longleftrightarrow> d = candidate"
    using assms(1,2) by (metis openssl_ok_def)
  then show ?thesis
    using assms(4) by (auto simp: matches_api_key_digest_def match_loop_nonzero)
qed

lemma drop_spaces:
  assumes "sv_find_first_not_of [c] value = Some k"
  shows "value = replicate k c @ drop k value \<and> drop k value \<noteq> [] \<and> hd (drop k value) \<noteq> c"
proof -
  let ?w = "takeWhile (\<lambda>x. x \<in> set [c]) value"
  have k: "k = length ?w" "k < length value"
    using assms by (auto simp: sv_find_first_not_of_def Let_def split: if_splits)
  have "?w = replicate k c"
    unfolding k(1) using set_takeWhileD by (metis (no_types, lifting) empty_iff list.set(1)
        insert_iff list.simps(15) replicate_eqI)
  moreover have "value = ?w @ drop k value"
    unfolding k(1) by (simp add: dropWhile_eq_drop [symmetric])
  moreover have "value ! k \<noteq> c"
    using nth_length_takeWhile [of "\<lambda>x. x \<in> set [c]" "value"] k by simp
  ultimately show ?thesis
    using k(2) by (simp add: hd_drop_conv_nth)
qed

lemma spaces_dropped:
  assumes "value = replicate k c @ rest" "rest \<noteq> []" "hd rest \<noteq> c"
  shows "sv_find_first_not_of [c] value = Some k"
proof -
  have "takeWhile (\<lambda>x. x \<in> set [c]) value = replicate k c"
    using assms by (cases rest) (simp_all add: takeWhile_append)
  then show ?thesis
    using assms by (simp add: sv_find_first_not_of_def Let_def)
qed

lemma bearer_no_space: "lowercase scheme = lowercase ''Bearer'' \<Longrightarrow> CHR '' '' \<notin> set scheme"
proof
  assume l: "lowercase scheme = lowercase ''Bearer''" and "CHR '' '' \<in> set scheme"
  then have "lowercase_char CHR '' '' \<in> set (lowercase scheme)"
    unfolding lowercase_def by (metis image_eqI list.set_map)
  moreover have "lowercase_char CHR '' '' \<notin> set (lowercase ''Bearer'')"
    by code_simp
  ultimately show False using l by simp
qed

lemma valid_api_key_head: "valid_api_key key \<Longrightarrow> key \<noteq> [] \<and> hd key \<noteq> CHR '' ''"
  by (cases key) (auto simp: valid_api_key_def upper_digit_or_underscore_def char_between_def)

text \<open>The parse of the field value finds exactly the credentials of the grammar.\<close>

lemma bearer_parse:
  assumes "beast_names B"
  shows "(\<exists>s k. sv_find CHR '' '' value = Some s \<and> iequals B (take s value) ''Bearer'' \<and>
      sv_find_first_not_of [CHR '' ''] (drop s value) = Some k \<and> key = drop k (drop s value)) \<longleftrightarrow>
    bearer_credentials value key \<and> key \<noteq> []"
proof
  assume "\<exists>s k. sv_find CHR '' '' value = Some s \<and> iequals B (take s value) ''Bearer'' \<and>
      sv_find_first_not_of [CHR '' ''] (drop s value) = Some k \<and> key = drop k (drop s value)"
  then obtain s k where s: "sv_find CHR '' '' value = Some s" "iequals B (take s value) ''Bearer''"
    and k: "sv_find_first_not_of [CHR '' ''] (drop s value) = Some k" "key = drop k (drop s value)"
    by blast
  have rest: "drop s value = replicate k CHR '' '' @ key" "key \<noteq> []" "hd key \<noteq> CHR '' ''"
    using drop_spaces [OF k(1)] k(2) by auto
  have "s < length value" "value ! s = CHR '' ''"
    using sv_find_SomeD [OF s(1)] by auto
  then have "hd (drop s value) = CHR '' ''"
    by (simp add: hd_drop_conv_nth)
  then have "k \<noteq> 0"
    using rest by (cases k) auto
  then obtain n where "k = Suc n" by (cases k) auto
  then have "value = take s value @ replicate (Suc n) CHR '' '' @ key"
    using rest(1) by (metis append_take_drop_id)
  then show "bearer_credentials value key \<and> key \<noteq> []"
    using s(2) assms rest by (auto simp: bearer_credentials_def beast_names_def)
next
  assume "bearer_credentials value key \<and> key \<noteq> []"
  then obtain scheme n where v: "value = scheme @ replicate (Suc n) CHR '' '' @ key"
    and sch: "lowercase scheme = lowercase ''Bearer''" and key: "key \<noteq> []" "hd key \<noteq> CHR '' ''"
    by (auto simp: bearer_credentials_def)
  have "takeWhile (\<lambda>x. x \<noteq> CHR '' '') value = scheme"
    using bearer_no_space [OF sch] v by (simp add: takeWhile_append)
  then have "sv_find CHR '' '' value = Some (length scheme)"
    using v by (simp add: sv_find_def Let_def)
  moreover have "take (length scheme) value = scheme"
    "drop (length scheme) value = replicate (Suc n) CHR '' '' @ key"
    using v by simp_all
  moreover have "sv_find_first_not_of [CHR '' ''] (replicate (Suc n) CHR '' '' @ key) = Some (Suc n)"
    using key by (intro spaces_dropped) simp_all
  moreover have "key = drop (Suc n) (replicate (Suc n) CHR '' '' @ key)"
    by simp
  ultimately show "\<exists>s k. sv_find CHR '' '' value = Some s \<and> iequals B (take s value) ''Bearer'' \<and>
      sv_find_first_not_of [CHR '' ''] (drop s value) = Some k \<and> key = drop k (drop s value)"
    using assms sch by (intro exI [where x = "length scheme"] exI [where x = "Suc n"])
      (simp add: beast_names_def)
qed

definition auth_config_ok :: "api_key_auth_config \<Rightarrow> bool" where
  "auth_config_ok config \<longleftrightarrow>
     list_all (\<lambda>d. length d = 32) (auth_digests config) \<and>
     auth_key_count config \<le> length (auth_digests config)"

definition authorization_values :: "http_request \<Rightarrow> string list" where
  "authorization_values request =
     map snd (filter (\<lambda>f. lowercase (fst f) = ''authorization'') (req_fields request))"

lemma authenticate_single:
  assumes "beast_names B" "openssl_ok S" "auth_config_ok config"
    and one: "filter (\<lambda>f. field_of B (fst f) = Field_authorization) (req_fields request) = [(n, v)]"
  shows "\<exists>ok. authenticate_api_key B S config request = Inr ok \<and>
    (ok \<longleftrightarrow> (\<exists>key. bearer_credentials v key \<and> valid_api_key key \<and>
       snd (evp_digest S key) \<in> set (take (auth_key_count config) (auth_digests config))))"
proof -
  have hash: "hash_api_key S key = Inr (snd (evp_digest S key))" "length (snd (evp_digest S key)) = 32"
    for key
    using assms(2) by (simp_all add: hash_api_key_def openssl_ok_def case_prod_beta)
  have matches: "matches_api_key_digest S config (snd (evp_digest S key)) \<longleftrightarrow>
      snd (evp_digest S key) \<in> set (take (auth_key_count config) (auth_digests config))" for key
    using assms(3) hash(2) [of key]
    by (intro matches_api_key_digest_iff [OF assms(2)]) (auto simp: auth_config_ok_def list_all_iff)
  have cred: "(\<exists>key. bearer_credentials v key \<and> valid_api_key key \<and> P key) \<longleftrightarrow>
      (\<exists>s k. sv_find CHR '' '' v = Some s \<and> iequals B (take s v) ''Bearer'' \<and>
        sv_find_first_not_of [CHR '' ''] (drop s v) = Some k \<and>
        valid_api_key (drop k (drop s v)) \<and> P (drop k (drop s v)))" for P
    using bearer_parse [OF assms(1), of v] valid_api_key_head by metis
  show ?thesis
    unfolding cred
    by (auto simp: authenticate_api_key_def one Let_def hash matches add.commute
        split: option.split)
qed

text \<open>
  C9. Authentication accepts exactly the configured keys. With OpenSSL's SHA-256 and comparison
  working as documented, \<open>authenticate_api_key\<close> returns (it does not throw), and it returns true
  exactly when the request has one Authorization field, its value is the Bearer scheme (in any
  case), spaces and a well-formed key, and the key's digest is among the first \<open>key_count\<close>
  configured ones. In particular no request passes when no key is configured or when the field
  is repeated.
\<close>

theorem authenticate_exact:
  assumes "beast_names B" "openssl_ok S" "auth_config_ok config"
  shows "\<exists>ok. authenticate_api_key B S config request = Inr ok \<and>
    (ok \<longleftrightarrow> (\<exists>v key. authorization_values request = [v] \<and> bearer_credentials v key \<and>
       valid_api_key key \<and>
       snd (evp_digest S key) \<in> set (take (auth_key_count config) (auth_digests config))))"
proof -
  let ?fs = "filter (\<lambda>f. field_of B (fst f) = Field_authorization) (req_fields request)"
  have vals: "authorization_values request = map snd ?fs"
    by (simp add: authorization_values_def beast_namesD [OF assms(1)])
  show ?thesis
  proof (cases "\<exists>n v. ?fs = [(n, v)]")
    case True
    then obtain n v where one: "?fs = [(n, v)]" by blast
    show ?thesis
      using authenticate_single [OF assms one] by (simp add: vals one)
  next
    case False
    have "length (authorization_values request) = length ?fs"
      by (simp add: vals)
    moreover have "length ?fs \<noteq> 1"
      using False by (auto simp: length_Suc_conv)
    ultimately have "authorization_values request \<noteq> [v]" for v
      by force
    moreover have "authenticate_api_key B S config request = Inr False"
      using False by (auto simp: authenticate_api_key_def split: list.split)
    ultimately show ?thesis by blast
  qed
qed

text \<open>A concrete digest and comparison, and a request with a configured key.\<close>

definition sample_openssl :: openssl where
  "sample_openssl =
     \<lparr>evp_digest = (\<lambda>key. (1, map of_char (take 32 (key @ replicate 32 CHR '' '')))),
      crypto_memcmp = (\<lambda>a b n. if take n a = take n b then 0 else 1)\<rparr>"

definition sample_key :: string where
  "sample_key = replicate 40 CHR ''k''"

definition sample_auth :: api_key_auth_config where
  "sample_auth =
     ApiKeyAuthConfig_default\<lparr>auth_digests := [replicate 32 107, replicate 32 0,
        replicate 32 0, replicate 32 0], auth_key_count := 1\<rparr>"

definition sample_auth_request :: http_request where
  "sample_auth_request =
     (HttpRequest_new Get ''/api'' 11)\<lparr>req_fields :=
        [(''Host'', ''gate''), (''authorization'', ''BEARER   '' @ sample_key)]\<rparr>"

lemma sample_openssl_ok: "openssl_ok sample_openssl"
  by (auto simp: openssl_ok_def sample_openssl_def min_def)

theorem authenticate_exact_witness:
  "authenticate_api_key sample_beast sample_openssl sample_auth sample_auth_request = Inr True"
proof -
  have cfg: "auth_config_ok sample_auth" by code_simp
  have v: "authorization_values sample_auth_request = [''BEARER   '' @ sample_key]"
    by code_simp
  have low: "lowercase ''BEARER'' = lowercase ''Bearer''"
    by code_simp
  have key: "hd sample_key \<noteq> CHR '' ''"
    by code_simp
  have "bearer_credentials (''BEARER   '' @ sample_key) sample_key"
    unfolding bearer_credentials_def
    using low key by (intro exI [where x = "''BEARER''"] exI [where x = 2]) (simp add: numeral_2_eq_2)
  moreover have "valid_api_key sample_key" by code_simp
  moreover have "snd (evp_digest sample_openssl sample_key)
      \<in> set (take (auth_key_count sample_auth) (auth_digests sample_auth))"
    by code_simp
  ultimately show ?thesis
    using authenticate_exact [OF sample_beast_names sample_openssl_ok cfg,
        of sample_auth_request] v
    by auto
qed

end
