(* ===== verification/Admission.thy ===== *)
theory Admission
  imports RateLimit Health ServerState Handler
begin

text \<open>
  Admission of a request to an upstream, \<open>src/route_proxy_admission.hpp\<close> and
  \<open>src/route_proxy_admission.cpp\<close>: rate limit, then proxy permit, then the choice of an
  upstream by round robin over the healthy ones. The object owns its rate limits and cursors and
  shares the proxy counter and the health state with the rest of the server; there is one of
  each, so they are fields of its state. When \<open>try_acquire\<close> throws after it took a permit, the
  permit is destroyed on the way out, which releases it; a consumed rate token stays consumed.
\<close>

section \<open>Data\<close>

record route_proxy_admission_result =
  ar_rate_limit :: rate_limit_decision
  ar_permit :: "proxy_permit option"
  ar_upstream :: "selected_upstream option"
  ar_no_healthy_upstream :: bool

record route_proxy_admission =
  adm_rate_limits :: "token_bucket option list"
  adm_proxies :: proxy_admission_state
  adm_next_upstream :: "nat list"
  adm_health :: "health_route list"

section \<open>Operations\<close>

text \<open>The pointer to the proxy counter may be null, which the constructor refuses.\<close>

definition RouteProxyAdmission_new ::
  "route_config list \<Rightarrow> proxy_admission_state option \<Rightarrow> time_point \<Rightarrow> route_proxy_admission result"
where
  "RouteProxyAdmission_new routes proxies now =
     bind_result (RouteRateLimits_new (map route_rate_limit routes) now) (\<lambda>rate_limits.
       case proxies of
         None \<Rightarrow> Inl (Invalid_argument ''proxy admission state must not be empty'')
       | Some p \<Rightarrow>
           Inr \<lparr>adm_rate_limits = rate_limits, adm_proxies = p,
                adm_next_upstream = replicate (length routes) 0,
                adm_health = UpstreamHealthState_new routes\<rparr>)"

text \<open>
  The loop that looks for an available upstream, with the number of slots left to visit:
  \<open>None\<close> when it has visited them all.
\<close>

fun upstream_scan :: "health_route list \<Rightarrow> nat \<Rightarrow> nat \<Rightarrow> nat \<Rightarrow> nat \<Rightarrow> nat option result" where
  "upstream_scan health route slots 0 index = Inr None"
| "upstream_scan health route slots (Suc todo) index =
     bind_result (UpstreamHealthState_available health route index) (\<lambda>available.
       if available then Inr (Some index)
       else upstream_scan health route slots todo (if index + 1 = slots then 0 else index + 1))"

definition admission_result ::
  "rate_limit_decision \<Rightarrow> proxy_permit option \<Rightarrow> selected_upstream option \<Rightarrow> bool \<Rightarrow>
   route_proxy_admission_result" where
  "admission_result d permit upstream no_healthy =
     \<lparr>ar_rate_limit = d, ar_permit = permit, ar_upstream = upstream,
      ar_no_healthy_upstream = no_healthy\<rparr>"

definition select_upstream :: "selected_route \<Rightarrow> nat \<Rightarrow> selected_upstream" where
  "select_upstream route index =
     \<lparr>su_upstream = sr_upstreams route ! index, su_prefix = sr_prefix route,
      su_strip_prefix = sr_strip_prefix route, su_route_index = sr_route_index route,
      su_strip_authorization = (sr_auth route \<noteq> None),
      su_stream_response = sr_stream_response route\<rparr>"

definition RouteProxyAdmission_try_acquire ::
  "route_proxy_admission \<Rightarrow> selected_route \<Rightarrow> time_point \<Rightarrow>
   route_proxy_admission \<times> route_proxy_admission_result result" where
  "RouteProxyAdmission_try_acquire a route now =
     (case (case sr_route_index route of
              None \<Rightarrow> Inr (decision_allowed, adm_rate_limits a)
            | Some i \<Rightarrow> RouteRateLimits_try_acquire (adm_rate_limits a) i now) of
        Inl e \<Rightarrow> (a, Inl e)
      | Inr (d, rate_limits) \<Rightarrow>
          let a = a\<lparr>adm_rate_limits := rate_limits\<rparr> in
          if \<not> allowed d then (a, Inr (admission_result d None None False))
          else case ProxyPermit_try_acquire (adm_proxies a) True of
            (_, None) \<Rightarrow> (a, Inr (admission_result d None None False))
          | (proxies, Some permit) \<Rightarrow>
              let held = a\<lparr>adm_proxies := proxies\<rparr>;
                  released = a\<lparr>adm_proxies := fst (ProxyPermit_release proxies permit)\<rparr>;
                  slots = length (sr_upstreams route) in
              if slots = 0 \<or> 16 < slots then
                (released, Inl (Logic_error ''route requires 1-16 upstream slots''))
              else case sr_route_index route of
                None \<Rightarrow>
                  (held, Inr (admission_result d (Some permit) (Some (select_upstream route 0)) False))
              | Some i \<Rightarrow>
                  (case vec_at (adm_next_upstream held) i of
                     Inl e \<Rightarrow> (released, Inl e)
                   | Inr next \<Rightarrow>
                       if slots \<le> next then
                         (released, Inl (Logic_error ''route upstream position is invalid''))
                       else case upstream_scan (adm_health held) i slots slots next of
                         Inl e \<Rightarrow> (released, Inl e)
                       | Inr None \<Rightarrow> (released, Inr (admission_result d None None True))
                       | Inr (Some index) \<Rightarrow>
                           (held\<lparr>adm_next_upstream := (adm_next_upstream held)
                              [i := if index = slots - 1 then 0 else index + 1]\<rparr>,
                            Inr (admission_result d (Some permit)
                              (Some (select_upstream route index)) False))))"

section \<open>Runs\<close>

text \<open>
  The server's use of the object: requests admitted on a configured route (the permit is kept in
  a list), permits released, and probe results recorded by the health checks.
\<close>

datatype admission_event =
    Admit nat time_point
  | Release_permit nat
  | Probe_result nat nat bool

fun admission_step ::
  "route_config list \<Rightarrow> route_proxy_admission \<times> proxy_permit list \<Rightarrow> admission_event \<Rightarrow>
   route_proxy_admission \<times> proxy_permit list" where
  "admission_step routes (a, ps) (Admit i now) =
     (if i < length routes then
        (case RouteProxyAdmission_try_acquire a (route_selection (routes ! i) i) now of
           (a', Inr r) \<Rightarrow> (a', case ar_permit r of None \<Rightarrow> ps | Some p \<Rightarrow> ps @ [p])
         | (a', Inl e) \<Rightarrow> (a', ps))
      else (a, ps))"
| "admission_step routes (a, ps) (Release_permit k) =
     (if k < length ps then
        (case ProxyPermit_release (adm_proxies a) (ps ! k) of
           (proxies, p) \<Rightarrow> (a\<lparr>adm_proxies := proxies\<rparr>, ps[k := p]))
      else (a, ps))"
| "admission_step routes (a, ps) (Probe_result i j success) =
     (case UpstreamHealthState_record (adm_health a) i j success of
        Inl e \<Rightarrow> (a, ps)
      | Inr (t, health) \<Rightarrow> (a\<lparr>adm_health := health\<rparr>, ps))"

definition admission_run ::
  "route_config list \<Rightarrow> usize \<Rightarrow> time_point \<Rightarrow> admission_event list \<Rightarrow>
   (route_proxy_admission \<times> proxy_permit list) result" where
  "admission_run routes limit t0 es =
     bind_result (RouteProxyAdmission_new routes (Some (ProxyAdmissionState_new limit)) t0)
       (\<lambda>a. Inr (run_steps (admission_step routes) (a, []) es))"

text \<open>Successive requests on one route, with what each returned.\<close>

fun admit_all ::
  "route_config list \<Rightarrow> nat \<Rightarrow> route_proxy_admission \<Rightarrow> time_point list \<Rightarrow>
   route_proxy_admission_result result list" where
  "admit_all routes i a [] = []"
| "admit_all routes i a (now # nows) =
     (case RouteProxyAdmission_try_acquire a (route_selection (routes ! i) i) now of
        (a', r) \<Rightarrow> r # admit_all routes i a' nows)"

section \<open>Invariant\<close>

definition routes_ok :: "route_config list \<Rightarrow> bool" where
  "routes_ok routes \<longleftrightarrow>
     list_all (\<lambda>r. 1 \<le> length (route_upstreams r) \<and> length (route_upstreams r) \<le> 16 \<and>
       (case route_rate_limit r of None \<Rightarrow> True | Some c \<Rightarrow> limit_in_range c)) routes"

definition admission_ok :: "route_config list \<Rightarrow> route_proxy_admission \<times> proxy_permit list \<Rightarrow> bool"
where
  "admission_ok routes ap \<longleftrightarrow>
     routes_ok routes \<and> limits_ok (adm_rate_limits (fst ap)) \<and>
     length (adm_rate_limits (fst ap)) = length routes \<and>
     length (adm_next_upstream (fst ap)) = length routes \<and>
     (\<forall>i < length routes. adm_next_upstream (fst ap) ! i < length (route_upstreams (routes ! i))) \<and>
     health_shape routes (adm_health (fst ap)) \<and>
     proxies.balanced (adm_proxies (fst ap), snd ap)"

definition healthy_upstream :: "route_proxy_admission \<Rightarrow> nat \<Rightarrow> nat \<Rightarrow> bool" where
  "healthy_upstream a i j = hs_healthy (hr_slots (adm_health a ! i) ! j)"

text \<open>
  What \<open>try_acquire\<close> decides on route \<open>i\<close> once the rate limit answered \<open>d\<close> and left the
  buckets \<open>limits\<close>, stated with a search in the cyclic order.
\<close>

definition spec_admission ::
  "route_config list \<Rightarrow> route_proxy_admission \<Rightarrow> nat \<Rightarrow> rate_limit_decision \<Rightarrow>
   token_bucket option list \<Rightarrow> route_proxy_admission \<times> route_proxy_admission_result result" where
  "spec_admission routes a i d limits =
     (let n = length (route_upstreams (routes ! i));
          a1 = a\<lparr>adm_rate_limits := limits\<rparr> in
      if \<not> allowed d \<or> max_proxies (adm_proxies a) \<le> active_proxies (adm_proxies a)
      then (a1, Inr (admission_result d None None False))
      else case find (healthy_upstream a i) (rotation n (adm_next_upstream a ! i)) of
        None \<Rightarrow> (a1, Inr (admission_result d None None True))
      | Some j \<Rightarrow>
          (a1\<lparr>adm_proxies := (adm_proxies a)\<lparr>active_proxies := active_proxies (adm_proxies a) + 1\<rparr>,
              adm_next_upstream := (adm_next_upstream a)[i := next_index n j]\<rparr>,
           Inr (admission_result d (Some \<lparr>pp_state = True\<rparr>)
             (Some (select_upstream (route_selection (routes ! i) i) j)) False)))"

lemma routes_okD:
  "routes_ok routes \<Longrightarrow> i < length routes \<Longrightarrow>
   0 < length (route_upstreams (routes ! i)) \<and> length (route_upstreams (routes ! i)) \<le> 16"
  by (auto simp: routes_ok_def list_all_length Suc_le_eq)

lemma upstream_scan_eq:
  assumes "health_shape routes hs" "i < length routes" "n = length (route_upstreams (routes ! i))"
    and "index < n"
  shows "upstream_scan hs i n todo index =
    Inr (scan_from todo (\<lambda>j. hs_healthy (hr_slots (hs ! i) ! j)) n index)"
  using assms(4)
proof (induction todo arbitrary: index)
  case 0
  then show ?case by simp
next
  case (Suc todo)
  have "UpstreamHealthState_available hs i index = Inr (hs_healthy (hr_slots (hs ! i) ! index))"
    using assms Suc.prems by (intro health_available_total) auto
  then show ?case
    using Suc.IH [OF next_index_less [OF Suc.prems]]
    by (simp add: next_index_def split: if_splits)
qed

lemma permit_round_trip:
  assumes "active_proxies p < max_proxies p"
  shows "fst (ProxyPermit_release (p\<lparr>active_proxies := active_proxies p + 1\<rparr>) \<lparr>pp_state = True\<rparr>) = p"
proof -
  have "0 < active_proxies p + 1"
    using unat_inc [OF assms] by (simp add: word_less_nat_alt)
  then show ?thesis
    by (simp add: ProxyPermit_release_def ProxyAdmissionState_release_def)
qed

text \<open>The decision, in a state where the invariant holds.\<close>

lemma admission_decision:
  assumes ok: "admission_ok routes (a, ps)" and i: "i < length routes"
  shows "\<exists>d limits.
    RouteRateLimits_try_acquire (adm_rate_limits a) i now = Inr (d, limits) \<and>
    RouteProxyAdmission_try_acquire a (route_selection (routes ! i) i) now =
     spec_admission routes a i d limits"
proof -
  let ?n = "length (route_upstreams (routes ! i))"
  let ?k = "adm_next_upstream a ! i"
  have n: "0 < ?n" "?n \<le> 16"
    using routes_okD [of routes i] ok i by (auto simp: admission_ok_def)
  have k: "?k < ?n" and len: "i < length (adm_next_upstream a)" "i < length (adm_rate_limits a)"
    and shape: "health_shape routes (adm_health a)"
    using ok i by (auto simp: admission_ok_def)
  obtain d limits where rl: "RouteRateLimits_try_acquire (adm_rate_limits a) i now = Inr (d, limits)"
    using len(2) by (cases "adm_rate_limits a ! i")
      (auto simp: RouteRateLimits_try_acquire_def vec_at_def case_prod_beta)
  have scan: "upstream_scan (adm_health a) i ?n ?n ?k =
      Inr (find (healthy_upstream a i) (rotation ?n ?k))"
    unfolding scan_from_rotation [OF k, symmetric] healthy_upstream_def
    by (rule upstream_scan_eq [OF shape i refl k])
  have idx: "(if j = ?n - 1 then 0 else j + 1) = next_index ?n j" for j
    using n(1) by (auto simp: next_index_def)
  have trip: "\<not> max_proxies (adm_proxies a) \<le> active_proxies (adm_proxies a) \<Longrightarrow>
      fst (ProxyPermit_release ((adm_proxies a)\<lparr>active_proxies := active_proxies (adm_proxies a) + 1\<rparr>)
        \<lparr>pp_state = True\<rparr>) = adm_proxies a"
    by (rule permit_round_trip) simp
  show ?thesis
  proof (intro exI conjI)
    show "RouteRateLimits_try_acquire (adm_rate_limits a) i now = Inr (d, limits)" by (rule rl)
    show "RouteProxyAdmission_try_acquire a (route_selection (routes ! i) i) now =
     spec_admission routes a i d limits"
      using rl n k len scan trip idx
      by (simp add: RouteProxyAdmission_try_acquire_def spec_admission_def route_selection_def Let_def
          ProxyPermit_try_acquire_def vec_at_def not_le split: option.split)
  qed
qed

lemma admission_ok_new:
  assumes "routes_ok routes"
  shows "\<exists>a. RouteProxyAdmission_new routes (Some (ProxyAdmissionState_new m)) t0 = Inr a \<and>
    admission_ok routes (a, []) \<and> adm_proxies a = ProxyAdmissionState_new m"
proof -
  have "limit_in_range c" if "Some c \<in> set (map route_rate_limit routes)" for c
    using that assms by (auto simp: routes_ok_def list_all_iff split: option.splits)
  then obtain buckets where b: "RouteRateLimits_new (map route_rate_limit routes) t0 = Inr buckets"
    using RouteRateLimits_new_total by blast
  have "limits_ok buckets" "length buckets = length routes"
    using limits_new_ok [OF b] by simp_all
  then show ?thesis
    using assms b routes_okD [OF assms]
    by (auto simp: RouteProxyAdmission_new_def admission_ok_def health_shape_new
        proxies.balanced_def ProxyAdmissionState_new_def)
qed

lemma admission_ok_admit:
  assumes ok: "admission_ok routes (a, ps)" and i: "i < length routes"
  shows "admission_ok routes (admission_step routes (a, ps) (Admit i now))"
proof -
  let ?n = "length (route_upstreams (routes ! i))"
  obtain d limits where rl: "RouteRateLimits_try_acquire (adm_rate_limits a) i now = Inr (d, limits)"
    and eq: "RouteProxyAdmission_try_acquire a (route_selection (routes ! i) i) now =
     spec_admission routes a i d limits"
    using admission_decision [OF ok i] by blast
  have limits: "limits_ok limits" "length limits = length routes"
    using limits_acquire(2,3) [OF rl] ok by (simp_all add: admission_ok_def)
  have bal: "proxies.balanced (adm_proxies a, ps)"
    using ok by (simp add: admission_ok_def)
  show ?thesis
  proof (cases "\<not> allowed d \<or> max_proxies (adm_proxies a) \<le> active_proxies (adm_proxies a)")
    case True
    then show ?thesis
      using ok i limits by (simp add: eq spec_admission_def Let_def admission_result_def admission_ok_def)
  next
    case False
    show ?thesis
    proof (cases "find (healthy_upstream a i) (rotation ?n (adm_next_upstream a ! i))")
      case None
      then show ?thesis
        using False ok i limits by (simp add: eq spec_admission_def Let_def admission_result_def admission_ok_def)
    next
      case (Some j)
      have "adm_next_upstream a ! i < ?n"
        using ok i by (simp add: admission_ok_def)
      then have "j < ?n"
        using find_rotation_Some(1) Some by blast
      then have nxt: "next_index ?n j < ?n"
        by (rule next_index_less)
      have "ProxyPermit_try_acquire (adm_proxies a) True =
          ((adm_proxies a)\<lparr>active_proxies := active_proxies (adm_proxies a) + 1\<rparr>,
           Some \<lparr>pp_state = True\<rparr>)"
        using False by (simp add: ProxyPermit_try_acquire_def)
      then have "proxies.balanced
          ((adm_proxies a)\<lparr>active_proxies := active_proxies (adm_proxies a) + 1\<rparr>,
           ps @ [\<lparr>pp_state = True\<rparr>])"
        using proxies.balanced_acquire [OF bal, of True] by simp
      then show ?thesis
        using False Some ok i limits nxt
        by (auto simp: eq spec_admission_def Let_def admission_result_def admission_ok_def nth_list_update)
    qed
  qed
qed

lemma admission_ok_step:
  assumes ok: "admission_ok routes ap"
  shows "admission_ok routes (admission_step routes ap e)"
proof (cases ap)
  case (Pair a ps)
  show ?thesis
  proof (cases e)
    case (Admit i now)
    then show ?thesis
      using admission_ok_admit [of routes a ps i now] ok Pair by (cases "i < length routes") auto
  next
    case (Release_permit k)
    have "proxies.balanced (adm_proxies a, ps)"
      using ok Pair by (simp add: admission_ok_def)
    then have "k < length ps \<Longrightarrow> ProxyPermit_release (adm_proxies a) (ps ! k) = (p', q) \<Longrightarrow>
        proxies.balanced (p', ps[k := q])" for p' q
      using proxies.balanced_touch [of "adm_proxies a" ps k "()" p' q]
      by (simp add: proxy_touch_def)
    then show ?thesis
      using ok Pair Release_permit by (auto simp: admission_ok_def split: prod.split)
  next
    case (Probe_result i j success)
    then show ?thesis
      using ok Pair health_shape_record [of routes "adm_health a" i j success]
      by (auto simp: admission_ok_def split: sum.split)
  qed
qed

interpretation admission: step_invariant "admission_step routes" "admission_ok routes" for routes
  by unfold_locales (rule admission_ok_step)

lemma admission_limit_step:
  assumes ok: "admission_ok routes ap"
  shows "max_proxies (adm_proxies (fst (admission_step routes ap e))) =
    max_proxies (adm_proxies (fst ap))"
proof (cases ap)
  case (Pair a ps)
  show ?thesis
  proof (cases e)
    case (Admit i now)
    then show ?thesis
      using admission_decision [of routes a ps i now] ok Pair
      by (cases "i < length routes") (auto simp: spec_admission_def Let_def split: option.split)
  qed (auto simp: Pair ProxyPermit_release_def ProxyAdmissionState_release_def
      split: sum.split prod.split)
qed

lemma admission_run_ok:
  assumes "routes_ok routes"
  shows "\<exists>a ps. admission_run routes m t0 es = Inr (a, ps) \<and> admission_ok routes (a, ps) \<and>
    max_proxies (adm_proxies a) = m"
proof -
  obtain a where a: "RouteProxyAdmission_new routes (Some (ProxyAdmissionState_new m)) t0 = Inr a"
    "admission_ok routes (a, [])" "adm_proxies a = ProxyAdmissionState_new m"
    using admission_ok_new [OF assms] by blast
  have "admission_ok routes ap \<Longrightarrow>
      max_proxies (adm_proxies (fst (run_steps (admission_step routes) ap es))) =
      max_proxies (adm_proxies (fst ap))" for ap
    by (induction es arbitrary: ap)
      (simp_all add: run_steps_def admission_limit_step admission_ok_step)
  from this [OF a(2)] have "max_proxies (adm_proxies (fst
      (run_steps (admission_step routes) (a, []) es))) = m"
    by (simp add: a(3) ProxyAdmissionState_new_def)
  then show ?thesis
    using a(1) admission.run_inv [OF a(2), of es]
    by (cases "run_steps (admission_step routes) (a, []) es") (simp add: admission_run_def)
qed

section \<open>Properties\<close>

text \<open>
  C25. Admission never leaks a permit and never throws. For routes with 1 to 16 upstreams and
  limits in range the constructor succeeds, and after any sequence of admissions, releases and
  probe results the proxy counter is the number of permits still held, at most the maximum, every
  cursor is a slot of its route, and \<open>try_acquire\<close> on any configured route returns a result.
\<close>

theorem admission_safe:
  assumes "routes_ok routes"
  shows "\<exists>a ps. admission_run routes m t0 es = Inr (a, ps) \<and>
    unat (active_proxies (adm_proxies a)) = length (filter ProxyPermit_owns_capacity ps) \<and>
    unat (active_proxies (adm_proxies a)) \<le> unat m \<and>
    (\<forall>i < length routes.
       adm_next_upstream a ! i < length (route_upstreams (routes ! i)) \<and>
       (\<exists>r. snd (RouteProxyAdmission_try_acquire a (route_selection (routes ! i) i) now) = Inr r))"
proof -
  obtain a ps where run: "admission_run routes m t0 es = Inr (a, ps)"
    and ok: "admission_ok routes (a, ps)" and m: "max_proxies (adm_proxies a) = m"
    using admission_run_ok [OF assms] by blast
  have "proxies.balanced (adm_proxies a, ps)"
    using ok by (simp add: admission_ok_def)
  then have "unat (active_proxies (adm_proxies a)) = length (filter ProxyPermit_owns_capacity ps)"
    "unat (active_proxies (adm_proxies a)) \<le> unat m"
    using m by (simp_all add: proxies.balanced_def sum_permit_count)
  moreover have "\<exists>r. snd (RouteProxyAdmission_try_acquire a (route_selection (routes ! i) i) now)
      = Inr r" if "i < length routes" for i
    using admission_decision [OF ok that, of now]
    by (auto simp: spec_admission_def Let_def split: option.split)
  ultimately show ?thesis
    using run ok by (auto simp: admission_ok_def)
qed

text \<open>
  C26. The decision of \<open>try_acquire\<close>, in every reachable state and on any configured route: the
  rate limit is asked first, and a refusal changes only the bucket; then the proxy capacity; then
  the first healthy upstream in the cyclic order from the route's cursor is selected, the cursor
  moves just past it and one permit is handed out. With no healthy upstream no permit is kept and
  the result says so.
\<close>

theorem admission_outcome:
  assumes "routes_ok routes" and "admission_run routes m t0 es = Inr (a, ps)"
    and "i < length routes"
    and "RouteProxyAdmission_try_acquire a (route_selection (routes ! i) i) now = (a', Inr r)"
    and "RouteRateLimits_try_acquire (adm_rate_limits a) i now = Inr (d, limits)"
  shows "ar_rate_limit r = d \<and> adm_rate_limits a' = limits \<and> adm_health a' = adm_health a \<and>
    (case ar_upstream r of
       None \<Rightarrow>
         ar_permit r = None \<and> a' = a\<lparr>adm_rate_limits := limits\<rparr> \<and>
         (ar_no_healthy_upstream r \<longleftrightarrow>
            allowed d \<and> active_proxies (adm_proxies a) < m \<and>
            (\<forall>j < length (route_upstreams (routes ! i)). \<not> healthy_upstream a i j)) \<and>
         (\<not> ar_no_healthy_upstream r \<longrightarrow> \<not> allowed d \<or> active_proxies (adm_proxies a) = m)
     | Some u \<Rightarrow>
         allowed d \<and> \<not> ar_no_healthy_upstream r \<and> ar_permit r = Some \<lparr>pp_state = True\<rparr> \<and>
         active_proxies (adm_proxies a') = active_proxies (adm_proxies a) + 1 \<and>
         (\<exists>j < length (route_upstreams (routes ! i)).
            healthy_upstream a i j \<and> su_upstream u = route_upstreams (routes ! i) ! j \<and>
            (\<forall>k < length (route_upstreams (routes ! i)).
               cyclic_distance (length (route_upstreams (routes ! i))) (adm_next_upstream a ! i) k <
               cyclic_distance (length (route_upstreams (routes ! i))) (adm_next_upstream a ! i) j \<longrightarrow>
               \<not> healthy_upstream a i k) \<and>
            adm_next_upstream a' = (adm_next_upstream a)
              [i := next_index (length (route_upstreams (routes ! i))) j]))"
proof -
  let ?n = "length (route_upstreams (routes ! i))"
  let ?k = "adm_next_upstream a ! i"
  have ok: "admission_ok routes (a, ps)" and m: "max_proxies (adm_proxies a) = m"
    using admission_run_ok [OF assms(1), of m t0 es] assms(2) by auto
  have k: "?k < ?n" and le: "active_proxies (adm_proxies a) \<le> m"
    using ok assms(3) m by (auto simp: admission_ok_def proxies.balanced_def word_le_nat_alt)
  have eq: "(a', Inr r) = spec_admission routes a i d limits"
    using admission_decision [OF ok assms(3), of now] assms(4,5) by force
  show ?thesis
  proof (cases "\<not> allowed d \<or> m \<le> active_proxies (adm_proxies a)")
    case True
    then show ?thesis using eq le by (auto simp: m spec_admission_def Let_def admission_result_def)
  next
    case False
    show ?thesis
    proof (cases "find (healthy_upstream a i) (rotation ?n ?k)")
      case None
      then have "\<forall>j<?n. \<not> healthy_upstream a i j"
        using find_rotation_None [OF k] by simp
      then show ?thesis using None False eq by (auto simp: m spec_admission_def Let_def admission_result_def)
    next
      case (Some j)
      note j = find_rotation_Some [OF k Some]
      show ?thesis
        using Some False eq j
        by (auto simp: m spec_admission_def Let_def admission_result_def select_upstream_def route_selection_def)
    qed
  qed
qed

text \<open>A concrete table of two routes, one with three upstreams and a rate limit.\<close>

definition sample_upstream :: "string \<Rightarrow> upstream_config" where
  "sample_upstream host =
     \<lparr>up_host = host, up_port = 8080, up_timeout_ms = 1000, up_scheme = Http\<rparr>"

definition sample_routes :: "route_config list" where
  "sample_routes =
     [\<lparr>route_prefix = ''/a'', route_upstreams = map sample_upstream [''u0'', ''u1'', ''u2''],
       route_strip_prefix = False,
       route_rate_limit = Some \<lparr>requests_per_second = 10, burst = 5\<rparr>,
       route_health_check = Some \<lparr>hc_path = ''/h'', hc_interval_ms = 1000, hc_timeout_ms = 500,
         hc_unhealthy_threshold = 1, hc_healthy_threshold = 1\<rparr>,
       route_auth = None, route_stream_response = False\<rparr>,
      sample_route ''/b'']"

definition sample_events :: "admission_event list" where
  "sample_events = [Admit 0 0, Probe_result 0 1 False, Release_permit 0]"

definition sample_admission :: route_proxy_admission where
  "sample_admission =
     (case admission_run sample_routes 2 0 sample_events of Inr (a, ps) \<Rightarrow> a
      | Inl e \<Rightarrow> \<lparr>adm_rate_limits = [], adm_proxies = ProxyAdmissionState_new 0,
          adm_next_upstream = [], adm_health = []\<rparr>)"

lemma sample_routes_ok: "routes_ok sample_routes"
  by (simp add: routes_ok_def sample_routes_def sample_route_def limit_in_range_def)

lemma sample_admission_run:
  "admission_run sample_routes 2 0 sample_events = Inr (sample_admission, [\<lparr>pp_state = False\<rparr>])"
  by code_simp

theorem admission_safe_witness:
  "\<exists>a ps. admission_run sample_routes 2 0 sample_events = Inr (a, ps) \<and>
     unat (active_proxies (adm_proxies a)) \<le> 2"
  using admission_safe [OF sample_routes_ok, where m = 2 and ?t0.0 = 0 and es = sample_events
      and now = 0]
  by auto

text \<open>The second upstream is unhealthy, so the request after the first takes the third.\<close>

theorem admission_outcome_witness:
  "\<exists>j < 3. healthy_upstream sample_admission 0 j \<and>
     route_upstreams (sample_routes ! 0) ! j = sample_upstream ''u2''"
proof -
  let ?r = "RouteProxyAdmission_try_acquire sample_admission (route_selection (sample_routes ! 0) 0) 7"
  let ?d = "RouteRateLimits_try_acquire (adm_rate_limits sample_admission) 0 7"
  have r: "?r = (fst ?r, Inr (projr (snd ?r)))" and d: "?d = Inr (fst (projr ?d), snd (projr ?d))"
    by code_simp+
  have i: "0 < length sample_routes" "length (route_upstreams (sample_routes ! 0)) = 3"
    by code_simp+
  have "map_option su_upstream (ar_upstream (projr (snd ?r))) = Some (sample_upstream ''u2'')"
    by code_simp
  then show ?thesis
    using admission_outcome [OF sample_routes_ok sample_admission_run i(1) r d]
    by (auto simp: i split: option.splits)
qed

lemma admit_all_rotates:
  assumes "admission_ok routes (a, ps)" "i < length routes"
    and "\<forall>j < length (route_upstreams (routes ! i)). healthy_upstream a i j"
    and "\<forall>r \<in> set (admit_all routes i a nows). \<exists>x. r = Inr x \<and> ar_upstream x \<noteq> None"
  shows "map (\<lambda>r. ar_upstream (projr r)) (admit_all routes i a nows) =
    map (\<lambda>k. Some (select_upstream (route_selection (routes ! i) i)
      ((adm_next_upstream a ! i + k) mod length (route_upstreams (routes ! i))))) [0..<length nows]"
  using assms(1,3,4)
proof (induction nows arbitrary: a ps)
  case Nil
  then show ?case by simp
next
  case (Cons now nows)
  let ?n = "length (route_upstreams (routes ! i))"
  let ?s = "route_selection (routes ! i) i"
  let ?k = "adm_next_upstream a ! i"
  have k: "?k < ?n" and len: "i < length (adm_next_upstream a)"
    using Cons.prems(1) assms(2) by (auto simp: admission_ok_def)
  obtain d limits where tr: "RouteProxyAdmission_try_acquire a ?s now =
      spec_admission routes a i d limits"
    using admission_decision [OF Cons.prems(1) assms(2), of now] by blast
  have hit: "find (healthy_upstream a i) (rotation ?n ?k) = Some ?k"
  proof -
    have "rotation ?n ?k = ?k # map (\<lambda>k. (?k + k) mod ?n) [1..<?n]"
      using k by (auto simp: rotation_def upt_rec [of 0 ?n])
    then show ?thesis using Cons.prems(2) k by simp
  qed
  have adm: "\<exists>x. snd (spec_admission routes a i d limits) = Inr x \<and> ar_upstream x \<noteq> None"
    using Cons.prems(3) by (simp add: tr case_prod_beta)
  let ?a = "fst (spec_admission routes a i d limits)"
  have a': "snd (spec_admission routes a i d limits) =
        Inr (admission_result d (Some \<lparr>pp_state = True\<rparr>) (Some (select_upstream ?s ?k)) False)"
      "adm_next_upstream ?a = (adm_next_upstream a)[i := next_index ?n ?k]"
      "adm_health ?a = adm_health a"
    using adm hit
    by (auto simp: spec_admission_def Let_def admission_result_def split: if_splits)
  have "admission_step routes (a, ps) (Admit i now) = (?a, ps @ [\<lparr>pp_state = True\<rparr>])"
    using a'(1) assms(2) by (simp add: tr case_prod_beta admission_result_def prod_eq_iff)
  then have "admission_ok routes (?a, ps @ [\<lparr>pp_state = True\<rparr>])"
    using admission_ok_admit [OF Cons.prems(1) assms(2), of now] by simp
  moreover have "\<forall>j<?n. healthy_upstream ?a i j"
    using Cons.prems(2) by (simp add: healthy_upstream_def a'(3))
  moreover have "\<forall>r \<in> set (admit_all routes i ?a nows). \<exists>x. r = Inr x \<and> ar_upstream x \<noteq> None"
    using Cons.prems(3) by (simp add: tr case_prod_beta)
  ultimately have IH: "map (\<lambda>r. ar_upstream (projr r)) (admit_all routes i ?a nows) =
    map (\<lambda>k. Some (select_upstream ?s ((next_index ?n ?k + k) mod ?n))) [0..<length nows]"
    using Cons.IH [of ?a] a'(2) len by simp
  have shift: "(next_index ?n ?k + m) mod ?n = (?k + Suc m) mod ?n" for m
    using k by (simp add: next_index_mod mod_add_left_eq)
  have "map f [0..<Suc m] = f 0 # map (\<lambda>k. f (Suc k)) [0..<m]" for f :: "nat \<Rightarrow> 'z" and m
    by (induction m) simp_all
  from this [of "\<lambda>k. Some (select_upstream ?s ((?k + k) mod ?n))" "length nows"]
  show ?case
    using IH a'(1) k
    by (simp add: tr case_prod_beta admission_result_def shift del: upt_Suc)
qed

text \<open>
  C27. Round robin is fair. While every upstream of a route is healthy, the requests admitted on it
  go to its upstreams one after the other in cyclic order from the cursor, so among any \<open>n\<close>
  successive ones (\<open>n\<close> the number of upstreams) each upstream gets exactly one.
\<close>

theorem round_robin_fair:
  assumes "routes_ok routes" and "admission_run routes m t0 es = Inr (a, ps)"
    and "i < length routes"
    and "\<forall>j < length (route_upstreams (routes ! i)). healthy_upstream a i j"
    and "\<forall>r \<in> set (admit_all routes i a nows). \<exists>x. r = Inr x \<and> ar_upstream x \<noteq> None"
  shows "map (\<lambda>r. ar_upstream (projr r)) (admit_all routes i a nows) =
    map (\<lambda>k. Some (select_upstream (route_selection (routes ! i) i)
      ((adm_next_upstream a ! i + k) mod length (route_upstreams (routes ! i))))) [0..<length nows]"
proof -
  have "admission_ok routes (a, ps)"
    using admission_run_ok [OF assms(1), of m t0 es] assms(2) by auto
  then show ?thesis using assms(3-5) by (rule admit_all_rotates)
qed

theorem round_robin_fair_witness:
  "\<exists>a. map (\<lambda>r. map_option su_upstream (ar_upstream (projr r))) (admit_all sample_routes 0 a [1, 2, 3]) =
     map (\<lambda>h. Some (sample_upstream h)) [''u1'', ''u2'', ''u0'']"
proof -
  let ?run = "admission_run sample_routes 9 0 [Admit 0 0]"
  let ?a = "fst (projr ?run)"
  have run: "?run = Inr (?a, snd (projr ?run))" by code_simp
  have i: "0 < length sample_routes" by code_simp
  have "\<forall>j \<in> set [0..<length (route_upstreams (sample_routes ! 0))]. healthy_upstream ?a 0 j"
    by code_simp
  then have h: "\<forall>j < length (route_upstreams (sample_routes ! 0)). healthy_upstream ?a 0 j"
    by simp
  have "list_all (\<lambda>r. case r of Inl e \<Rightarrow> False | Inr x \<Rightarrow> ar_upstream x \<noteq> None)
      (admit_all sample_routes 0 ?a [1, 2, 3])"
    by code_simp
  then have adm: "\<forall>r \<in> set (admit_all sample_routes 0 ?a [1, 2, 3]).
      \<exists>x. r = Inr x \<and> ar_upstream x \<noteq> None"
    unfolding list_all_iff by (fastforce split: sum.splits simp del: admit_all.simps)
  from arg_cong [OF round_robin_fair [OF sample_routes_ok run i h adm],
      of "map (map_option su_upstream)"]
  have "map (\<lambda>r. map_option su_upstream (ar_upstream (projr r)))
      (admit_all sample_routes 0 ?a [1, 2, 3]) =
    map (\<lambda>k. Some (su_upstream (select_upstream (route_selection (sample_routes ! 0) 0)
      ((adm_next_upstream ?a ! 0 + k) mod length (route_upstreams (sample_routes ! 0))))))
      [0..<length [1, 2, 3 :: time_point]]"
    by (simp add: comp_def)
  also have "\<dots> = map (\<lambda>h. Some (sample_upstream h)) [''u1'', ''u2'', ''u0'']"
    by code_simp
  finally show ?thesis by blast
qed

end
