(* ===== verification/ProxyMessage.thy ===== *)
theory ProxyMessage
  imports Admission
begin

text \<open>
  The messages the proxy exchanges with an upstream, lines 24 to 106 of \<open>src/http_proxy.hpp\<close> and
  47 to 239 of \<open>src/http_proxy.cpp\<close>: the upstream request with the rewritten target and without
  hop-by-hop, forwarding and credential fields, the downstream response, and the claim that
  makes an exchange complete once.
\<close>

section \<open>Data\<close>

datatype proxy_failure_stage =
    Stage_resolve | Stage_connect | Stage_handshake | Stage_write | Stage_read | Stage_timeout
  | Stage_response_too_large | Stage_invalid_response

text \<open>The failure keeps the error code whose number the source stores.\<close>

record proxy_failure =
  pf_stage :: proxy_failure_stage
  pf_error_code :: error_code

record proxy_completion_state =
  pc_completed :: bool

fun ProxyFailureStage_to_string :: "proxy_failure_stage \<Rightarrow> string" where
  "ProxyFailureStage_to_string Stage_resolve = ''resolve''"
| "ProxyFailureStage_to_string Stage_connect = ''connect''"
| "ProxyFailureStage_to_string Stage_handshake = ''handshake''"
| "ProxyFailureStage_to_string Stage_write = ''write''"
| "ProxyFailureStage_to_string Stage_read = ''read''"
| "ProxyFailureStage_to_string Stage_timeout = ''timeout''"
| "ProxyFailureStage_to_string Stage_response_too_large = ''response_too_large''"
| "ProxyFailureStage_to_string Stage_invalid_response = ''invalid_response''"

section \<open>Header fields\<close>

definition trim_http_token :: "string \<Rightarrow> string" where
  "trim_http_token v =
     (case sv_find_first_not_of [CHR '' '', CHR 0x09] v of
        None \<Rightarrow> []
      | Some first \<Rightarrow>
          (case sv_find_last_not_of [CHR '' '', CHR 0x09] v of
             None \<Rightarrow> []
           | Some final \<Rightarrow> lowercase (take (final - first + 1) (drop first v))))"

text \<open>The loop over the comma-separated tokens of one Connection field, on the rest of the value.\<close>

function token_loop :: "string \<Rightarrow> string list" where
  "token_loop v =
     (case sv_find CHR '','' v of
        None \<Rightarrow> [trim_http_token v]
      | Some stop \<Rightarrow> trim_http_token (take stop v) # token_loop (drop (stop + 1) v))"
  by pat_completeness auto
termination
  by (relation "measure length") (auto dest: sv_find_SomeD(1))

declare token_loop.simps [simp del]

definition connection_tokens :: "beast \<Rightarrow> fields \<Rightarrow> string set" where
  "connection_tokens B fs =
     foldl (\<lambda>tokens f. if field_of B (fst f) \<noteq> Field_connection then tokens
         else tokens \<union> set (filter (\<lambda>t. t \<noteq> []) (token_loop (snd f)))) {} fs"

definition is_hop_by_hop :: "string \<Rightarrow> string set \<Rightarrow> bool" where
  "is_hop_by_hop name dynamic_tokens =
     (let normalized = lowercase name in
      normalized = ''connection'' \<or> normalized = ''keep-alive'' \<or> normalized = ''te'' \<or>
      normalized = ''trailer'' \<or> normalized = ''transfer-encoding'' \<or> normalized = ''upgrade'' \<or>
      normalized = ''proxy-connection'' \<or> normalized = ''proxy-authenticate'' \<or>
      normalized = ''proxy-authorization'' \<or> normalized \<in> dynamic_tokens)"

definition is_forwarding_metadata :: "string \<Rightarrow> bool" where
  "is_forwarding_metadata name = starts_with (lowercase name) ''x-forwarded-''"

section \<open>The completion claim\<close>

definition ProxyCompletionState_new :: proxy_completion_state where
  "ProxyCompletionState_new = \<lparr>pc_completed = False\<rparr>"

definition ProxyCompletionState_claim ::
  "proxy_completion_state \<Rightarrow> bool \<times> proxy_completion_state" where
  "ProxyCompletionState_claim s =
     (if pc_completed s then (False, s) else (True, s\<lparr>pc_completed := True\<rparr>))"

text \<open>
  The two wrappers of \<open>src/http_proxy.hpp\<close>. The actions work on the state \<open>'w\<close> of the exchange,
  which contains the completion state; the first may throw, then its flag is set.
\<close>

definition run_proxy_handler_action ::
  "('w \<Rightarrow> proxy_completion_state) \<Rightarrow> (proxy_completion_state \<Rightarrow> 'w \<Rightarrow> 'w) \<Rightarrow>
   ('w \<Rightarrow> bool \<times> 'w) \<Rightarrow> ('w \<Rightarrow> 'w) \<Rightarrow> ('w \<Rightarrow> 'w) \<Rightarrow> 'w \<Rightarrow> 'w" where
  "run_proxy_handler_action get put handler cleanup abort w =
     (case handler w of
        (False, w) \<Rightarrow> w
      | (True, w) \<Rightarrow>
          (case ProxyCompletionState_claim (get w) of
             (False, s) \<Rightarrow> put s w
           | (True, s) \<Rightarrow> abort (cleanup (put s w))))"

definition run_proxy_completion_action ::
  "('w \<Rightarrow> proxy_completion_state) \<Rightarrow> (proxy_completion_state \<Rightarrow> 'w \<Rightarrow> 'w) \<Rightarrow>
   ('w \<Rightarrow> bool \<times> 'w) \<Rightarrow> ('w \<Rightarrow> 'w) \<Rightarrow> 'w \<Rightarrow> 'w" where
  "run_proxy_completion_action get put complete abort w =
     (case ProxyCompletionState_claim (get w) of
        (False, s) \<Rightarrow> put s w
      | (True, s) \<Rightarrow>
          (case complete (put s w) of
             (False, w) \<Rightarrow> w
           | (True, w) \<Rightarrow> abort w))"

section \<open>Messages\<close>

definition make_upstream_authority :: "string \<Rightarrow> u16 \<Rightarrow> string" where
  "make_upstream_authority host port =
     (let port_text = nat_to_string (unat port) in
      if sv_find CHR '':'' host \<noteq> None then ''['' @ host @ '']:'' @ port_text
      else host @ '':'' @ port_text)"

definition rewrite_target :: "selected_upstream \<Rightarrow> string \<Rightarrow> string" where
  "rewrite_target selected target =
     (if su_strip_prefix selected \<and> su_prefix selected \<noteq> [] \<and> su_prefix selected \<noteq> ''/'' then
        let target = drop (length (su_prefix selected)) target in
        if target = [] \<or> hd target = CHR ''?'' then CHR ''/'' # target else target
      else target)"

definition upstream_field_dropped ::
  "beast \<Rightarrow> selected_upstream \<Rightarrow> string set \<Rightarrow> string \<times> string \<Rightarrow> bool" where
  "upstream_field_dropped B selected dynamic_tokens f \<longleftrightarrow>
     (su_strip_authorization selected \<and> field_of B (fst f) = Field_authorization) \<or>
     is_hop_by_hop (fst f) dynamic_tokens \<or> is_forwarding_metadata (fst f) \<or>
     field_of B (fst f) = Field_host \<or> field_of B (fst f) = Field_content_length \<or>
     field_of B (fst f) = Field_expect"

definition make_upstream_request ::
  "beast \<Rightarrow> selected_upstream \<Rightarrow> http_request \<Rightarrow> bool \<Rightarrow> http_request result" where
  "make_upstream_request B selected request keep_alive =
     (let config = su_upstream selected;
          upstream = HttpRequest_new (req_method request)
            (rewrite_target selected (req_target request)) 11;
          dynamic_tokens = connection_tokens B (req_fields request);
          fs = foldl (\<lambda>fs f. if upstream_field_dropped B selected dynamic_tokens f then fs
            else field_insert B fs (fst f) (snd f)) [] (req_fields request);
          fs = field_set B fs Field_host (make_upstream_authority (up_host config) (up_port config));
          fs = set_keep_alive B 11 fs keep_alive;
          upstream = upstream\<lparr>req_fields := fs, req_body := req_body request\<rparr> in
      if req_method request \<noteq> Get then
        Inr (upstream\<lparr>req_fields := set_content_length B fs (length (req_body request))\<rparr>)
      else if req_body request \<noteq> [] then prepare_request B upstream
      else Inr upstream)"

definition downstream_field_dropped :: "beast \<Rightarrow> string set \<Rightarrow> string \<times> string \<Rightarrow> bool" where
  "downstream_field_dropped B dynamic_tokens f \<longleftrightarrow>
     is_hop_by_hop (fst f) dynamic_tokens \<or> field_of B (fst f) = Field_server \<or>
     field_of B (fst f) = Field_content_length"

definition make_downstream_header ::
  "beast \<Rightarrow> http_request \<Rightarrow> http_response \<Rightarrow> http_response" where
  "make_downstream_header B request upstream_response =
     (let response = (HttpResponse_new (res_status upstream_response) (req_version request))
            \<lparr>res_reason := res_reason upstream_response\<rparr>;
          dynamic_tokens = connection_tokens B (res_fields upstream_response);
          fs = foldl (\<lambda>fs f. if downstream_field_dropped B dynamic_tokens f then fs
            else field_insert B fs (fst f) (snd f)) [] (res_fields upstream_response);
          response = response\<lparr>res_fields := fs\<rparr>;
          response = response_set B response Field_server ''ApiGate'' in
      response_keep_alive B response (request_keep_alive B request))"

definition make_downstream_response ::
  "beast \<Rightarrow> http_request \<Rightarrow> http_response \<Rightarrow> http_response result" where
  "make_downstream_response B request upstream_response =
     prepare_response B ((make_downstream_header B request upstream_response)
       \<lparr>res_body := res_body upstream_response\<rparr>)"

section \<open>The completion claim is exclusive\<close>

interpretation completion: claim_once ProxyCompletionState_claim pc_completed
  by unfold_locales (auto simp: ProxyCompletionState_claim_def)

section \<open>Fields that pass\<close>

definition end_to_end :: "beast \<Rightarrow> fields \<Rightarrow> string \<times> string \<Rightarrow> bool" where
  "end_to_end B fs f \<longleftrightarrow> f \<in> set fs \<and> \<not> is_hop_by_hop (fst f) (connection_tokens B fs)"

lemma copied_fields:
  assumes "beast_fields B"
  shows "set (foldl (\<lambda>fs f. if P f then fs else field_insert B fs (fst f) (snd f)) gs fs) =
    set gs \<union> {f \<in> set fs. \<not> P f}"
proof (induction fs arbitrary: gs)
  case Nil
  then show ?case by simp
next
  case (Cons f fs)
  have "set (field_insert B gs (fst f) (snd f)) = insert f (set gs)"
    using assms by (simp add: beast_fields_def)
  with Cons show ?case by auto
qed

lemma set_field_set:
  assumes "beast_fields B" "f \<noteq> Field_other"
  obtains n where "field_of B n = f"
    "set (field_set B fs f v) = insert (n, v) {x \<in> set fs. field_of B (fst x) \<noteq> f}"
  using assms unfolding beast_fields_def by meson

lemma set_set_keep_alive:
  assumes "beast_fields B" "field_of B (fst x) \<noteq> Field_connection"
  shows "x \<in> set (set_keep_alive B ver fs k) \<longleftrightarrow> x \<in> set fs"
proof -
  have "{x \<in> set (set_keep_alive B ver fs k). field_of B (fst x) \<noteq> Field_connection} =
      {x \<in> set fs. field_of B (fst x) \<noteq> Field_connection}"
    using assms(1) unfolding beast_fields_def by blast
  then show ?thesis using assms(2) by blast
qed

definition upstream_fields_spec ::
  "beast \<Rightarrow> selected_upstream \<Rightarrow> http_request \<Rightarrow> string \<times> string \<Rightarrow> bool" where
  "upstream_fields_spec B selected request x \<longleftrightarrow>
     end_to_end B (req_fields request) x \<and>
     \<not> starts_with (lowercase (fst x)) ''x-forwarded-'' \<and> lowercase (fst x) \<noteq> ''expect'' \<and>
     (su_strip_authorization selected \<longrightarrow> lowercase (fst x) \<noteq> ''authorization'')"

lemma upstream_base_fields:
  assumes B: "beast_names B" "beast_fields B"
    and x: "field_of B (fst x) \<noteq> Field_connection" "\<not> framing_field B x"
  shows "x \<in> set (set_keep_alive B 11 (field_set B
      (foldl (\<lambda>fs f. if upstream_field_dropped B selected (connection_tokens B (req_fields request)) f
         then fs else field_insert B fs (fst f) (snd f)) [] (req_fields request))
      Field_host v) k) \<longleftrightarrow>
    (if field_of B (fst x) = Field_host then snd x = v \<and> x \<in> set (field_set B
      (foldl (\<lambda>fs f. if upstream_field_dropped B selected (connection_tokens B (req_fields request)) f
         then fs else field_insert B fs (fst f) (snd f)) [] (req_fields request)) Field_host v)
     else upstream_fields_spec B selected request x)"
proof -
  let ?fs = "foldl (\<lambda>fs f. if upstream_field_dropped B selected
    (connection_tokens B (req_fields request)) f
         then fs else field_insert B fs (fst f) (snd f)) [] (req_fields request)"
  have ne: "Field_host \<noteq> Field_other" by simp
  obtain n where n: "field_of B n = Field_host"
    "set (field_set B ?fs Field_host v) = insert (n, v) {x \<in> set ?fs. field_of B (fst x) \<noteq> Field_host}"
    by (rule set_field_set [OF B(2) ne])
  show ?thesis
    unfolding set_set_keep_alive [OF B(2) x(1)] n(2) copied_fields [OF B(2)]
    using n(1) x
    by (auto simp: upstream_fields_spec_def end_to_end_def upstream_field_dropped_def
        is_forwarding_metadata_def beast_namesD [OF B(1)] framing_field_def)
qed


definition sample_selected :: selected_upstream where
  "sample_selected =
     \<lparr>su_upstream = sample_upstream ''backend'', su_prefix = ''/api'', su_strip_prefix = True,
      su_route_index = Some 0, su_strip_authorization = True, su_stream_response = False\<rparr>"

definition sample_client_request :: http_request where
  "sample_client_request =
     (HttpRequest_new Post ''/api?q=1'' 11)\<lparr>req_fields :=
        [(''Host'', ''gate''), (''Connection'', ''close, X-Secret''), (''x-secret'', ''1''),
         (''Accept'', ''*''), (''AUTHORIZATION'', ''Bearer k''), (''X-Forwarded-For'', ''10.0.0.1'')],
        req_body := ''data''\<rparr>"


section \<open>The upstream target\<close>

lemma request_path_split:
  "\<exists>query. target = request_path target @ query \<and> (query = [] \<or> hd query = CHR ''?'')"
proof (cases "sv_find CHR ''?'' target")
  case None
  then show ?thesis by (simp add: request_path_def)
next
  case (Some n)
  then have "hd (drop n target) = CHR ''?''"
    using sv_find_SomeD [OF Some] by (simp add: hd_drop_conv_nth)
  then show ?thesis
    using Some by (intro exI [where x = "drop n target"]) (simp add: request_path_def)
qed

definition query_of :: "string \<Rightarrow> string" where
  "query_of target = drop (length (request_path target)) target"

lemma request_path_no_query: "CHR ''?'' \<notin> set (request_path target)"
  using sv_find_None [of "CHR ''?''" target]
  by (cases "sv_find CHR ''?'' target") (simp_all add: request_path_def sv_find_SomeD(3))

lemma request_path_append:
  assumes "CHR ''?'' \<notin> set p" "q = [] \<or> hd q = CHR ''?''"
  shows "request_path (p @ q) = p"
proof -
  have "takeWhile (\<lambda>x. x \<noteq> CHR ''?'') (p @ q) = p"
    using assms by (cases q) (auto simp: takeWhile_append)
  then show ?thesis
    by (auto simp: request_path_def sv_find_def Let_def)
qed

lemma query_of_append:
  "CHR ''?'' \<notin> set p \<Longrightarrow> q = [] \<or> hd q = CHR ''?'' \<Longrightarrow> query_of (p @ q) = q"
  by (simp add: query_of_def request_path_append)

lemma select_http_route_prefix:
  assumes "select_http_route B config request = Some s"
  shows "sr_prefix s = [] \<or> prefix_matches (request_path (req_target request)) (sr_prefix s)"
proof (cases "cfg_upstream config")
  case None
  then have "select_loop (request_path (req_target request)) (cfg_routes config) 0 0 None = Some s"
    using assms by (auto simp: select_http_route_eq split: if_splits)
  then show ?thesis
    using select_loop_spec [of "request_path (req_target request)" "cfg_routes config" 0 0 None]
    by (auto simp: route_selection_def)
next
  case (Some u)
  then show ?thesis using assms by (auto simp: select_http_route_eq split: if_splits)
qed

lemma make_upstream_request_target:
  assumes "beast_payload B" "make_upstream_request B selected request keep_alive = Inr up"
  shows "req_target up = rewrite_target selected (req_target request)"
  using assms prepare_request_keeps(2) [OF assms(1), of _ up]
  by (auto simp: make_upstream_request_def Let_def HttpRequest_new_def split: if_splits)

text \<open>
  C30. The target sent upstream. For a request that \<open>select_http_route\<close> selected, the target of the
  upstream request is in origin form (it starts with a slash), keeps the query string unchanged,
  and its path is the path of the request, without the route's prefix when the route strips it
  (the root path when nothing is left).
\<close>

theorem upstream_target_well_formed:
  assumes "beast_payload B" and sel: "select_http_route B config request = Some s"
    and up: "make_upstream_request B (select_upstream s j) request keep_alive = Inr up"
  shows "(\<exists>rest. req_target up = CHR ''/'' # rest) \<and>
    query_of (req_target up) = query_of (req_target request) \<and>
    (if sr_strip_prefix s \<and> sr_prefix s \<noteq> [] \<and> sr_prefix s \<noteq> ''/''
     then request_path (req_target request) = sr_prefix s @ request_path (req_target up) \<or>
          (request_path (req_target request) = sr_prefix s \<and> request_path (req_target up) = ''/'')
     else req_target up = req_target request)"
proof -
  let ?t = "req_target request"
  have tgt: "req_target up = rewrite_target (select_upstream s j) ?t"
    by (rule make_upstream_request_target [OF assms(1) up])
  have slash: "\<exists>rest. ?t = CHR ''/'' # rest"
    using select_http_route_Some [OF sel] by (auto simp: proxyable_def)
  show ?thesis
  proof (cases "sr_strip_prefix s \<and> sr_prefix s \<noteq> [] \<and> sr_prefix s \<noteq> ''/''")
    case False
    then show ?thesis
      using tgt slash by (auto simp: rewrite_target_def select_upstream_def)
  next
    case True
    obtain rest where rest: "request_path ?t = sr_prefix s @ rest" "rest = [] \<or> hd rest = CHR ''/''"
      using select_http_route_prefix [OF sel] True by (auto simp: prefix_matches_def)
    obtain query where q: "?t = request_path ?t @ query" "query = [] \<or> hd query = CHR ''?''"
      using request_path_split by blast
    have nq: "CHR ''?'' \<notin> set rest"
      using request_path_no_query [of ?t] rest(1) by simp
    have t: "?t = sr_prefix s @ rest @ query"
      using q(1) rest(1) by simp
    have query: "query_of ?t = query"
      using query_of_append [OF request_path_no_query q(2), of ?t] q(1) by simp
    have path: "request_path (p @ query) = p" if "CHR ''?'' \<notin> set p" for p
      using that q(2) by (rule request_path_append)
    let ?p = "if rest = [] then ''/'' else rest"
    have "req_target up = ?p @ query"
      using True q(2) rest(2) tgt
      by (cases rest) (auto simp: t rewrite_target_def select_upstream_def Let_def)
    moreover have "CHR ''?'' \<notin> set ?p"
      using nq by simp
    moreover have "\<exists>r. ?p = CHR ''/'' # r"
      using rest(2) by (cases rest) auto
    ultimately show ?thesis
      using True rest(1) query path [of ?p] query_of_append [of ?p query] q(2) by auto
  qed
qed

theorem upstream_target_well_formed_witness:
  "\<exists>up. make_upstream_request sample_beast
       (select_upstream (route_selection (sample_route ''/api/v2'') 2) 0)
       (sample_request Get ''/api/v2?x'') False = Inr up \<and>
     query_of (req_target up) = query_of ''/api/v2?x''"
proof -
  let ?r = "sample_request Get ''/api/v2?x''"
  let ?up = "make_upstream_request sample_beast
       (select_upstream (route_selection (sample_route ''/api/v2'') 2) 0) ?r False"
  have up: "?up = Inr (projr ?up)"
    by (simp add: make_upstream_request_def Let_def sample_request_def HttpRequest_new_def)
  have "req_target ?r = ''/api/v2?x''"
    by (simp add: sample_request_def HttpRequest_new_def)
  then show ?thesis
    using upstream_target_well_formed [OF sample_beast_payload Handler.sample_selected up] up by metis
qed

section \<open>The downstream response\<close>



end
