(* ===== verification/Metrics.thy ===== *)
theory Metrics
  imports ProxyMessage BufferBudget
begin

text \<open>
  Metrics, \<open>src/metrics.hpp\<close> and \<open>src/metrics.cpp\<close>: the counters, the text exposition with its
  size limit, and the observation that counts each request once. Counters are 64-bit words in
  lists of the arrays' sizes. The operations on \<open>double\<close> the code uses are the fields of the
  record \<open>double_ops\<close> over an abstract type \<open>'d\<close>.
\<close>

section \<open>Data\<close>

datatype rejection_reason =
    Reason_rate_limit | Reason_proxy_capacity | Reason_buffer_capacity | Reason_no_healthy_upstream

text \<open>
  \<open>d_elapsed\<close> is the difference of the two clock readings in seconds, \<open>d_text\<close> what
  \<open>std::to_chars\<close> writes.
\<close>

record 'd double_ops =
  d_zero :: 'd
  d_max :: 'd
  d_finite :: "'d \<Rightarrow> bool"
  d_less :: "'d \<Rightarrow> 'd \<Rightarrow> bool"
  d_minus :: "'d \<Rightarrow> 'd \<Rightarrow> 'd"
  d_plus :: "'d \<Rightarrow> 'd \<Rightarrow> 'd"
  d_elapsed :: "time_point \<Rightarrow> time_point \<Rightarrow> 'd"
  d_text :: "'d \<Rightarrow> string"

record 'd metrics =
  m_responses :: "u64 list"
  m_rejections :: "u64 list"
  m_failures :: "u64 list"
  m_processing_count :: u64
  m_processing_sum :: 'd

record request_observation =
  ob_started :: "time_point option"
  ob_excluded :: bool
  ob_completed :: bool
  ob_rejected :: bool
  ob_failed :: bool

definition max_output_bytes :: nat where
  "max_output_bytes = 131072"

definition rejection_names :: "string list" where
  "rejection_names = [''rate_limit'', ''proxy_capacity'', ''buffer_capacity'', ''no_healthy_upstream'']"

definition failure_stages :: "proxy_failure_stage list" where
  "failure_stages =
     [Stage_resolve, Stage_connect, Stage_handshake, Stage_write, Stage_read, Stage_timeout,
      Stage_response_too_large, Stage_invalid_response]"

definition Metrics_new :: "'d double_ops \<Rightarrow> 'd metrics" where
  "Metrics_new D =
     \<lparr>m_responses = replicate 501 0, m_rejections = replicate 4 0, m_failures = replicate 8 0,
      m_processing_count = 0, m_processing_sum = d_zero D\<rparr>"

section \<open>Counters\<close>

definition saturating_increment :: "u64 \<Rightarrow> u64" where
  "saturating_increment n = (if n \<noteq> u64_max then n + 1 else n)"

definition bump :: "u64 list \<Rightarrow> nat \<Rightarrow> u64 list" where
  "bump xs i = xs[i := saturating_increment (xs ! i)]"

definition Metrics_response :: "'d metrics \<Rightarrow> nat \<Rightarrow> 'd metrics" where
  "Metrics_response m status =
     m\<lparr>m_responses := bump (m_responses m)
         (if 100 \<le> status \<and> status \<le> 599 then status - 100 else 500)\<rparr>"

fun reason_index :: "rejection_reason \<Rightarrow> nat" where
  "reason_index Reason_rate_limit = 0"
| "reason_index Reason_proxy_capacity = 1"
| "reason_index Reason_buffer_capacity = 2"
| "reason_index Reason_no_healthy_upstream = 3"

definition Metrics_rejection :: "'d metrics \<Rightarrow> rejection_reason \<Rightarrow> 'd metrics" where
  "Metrics_rejection m reason =
     (let index = reason_index reason in
      if index < length (m_rejections m) then m\<lparr>m_rejections := bump (m_rejections m) index\<rparr> else m)"

text \<open>The loop over the stages, from \<open>index\<close>.\<close>

fun stage_loop :: "proxy_failure_stage list \<Rightarrow> nat \<Rightarrow> proxy_failure_stage \<Rightarrow> u64 list \<Rightarrow> u64 list" where
  "stage_loop [] index stage failures = failures"
| "stage_loop (s # ss) index stage failures =
     (if stage = s then bump failures index else stage_loop ss (index + 1) stage failures)"

definition Metrics_upstream_failure :: "'d metrics \<Rightarrow> proxy_failure_stage \<Rightarrow> 'd metrics" where
  "Metrics_upstream_failure m stage =
     m\<lparr>m_failures := stage_loop failure_stages 0 stage (m_failures m)\<rparr>"

definition Metrics_processing :: "'d double_ops \<Rightarrow> 'd metrics \<Rightarrow> 'd \<Rightarrow> 'd metrics" where
  "Metrics_processing D m seconds =
     (if \<not> d_finite D seconds \<or> d_less D seconds (d_zero D) then m
      else m\<lparr>m_processing_count := saturating_increment (m_processing_count m),
             m_processing_sum :=
               (if d_less D (d_minus D (d_max D) (m_processing_sum m)) seconds then d_max D
                else d_plus D (m_processing_sum m) seconds)\<rparr>)"

section \<open>Exposition\<close>

definition Exposition_append :: "string \<Rightarrow> string \<Rightarrow> string result" where
  "Exposition_append out txt =
     (if max_output_bytes - length out < length txt
      then Inl (Length_error ''metrics output exceeds limit'') else Inr (out @ txt))"

fun append_all :: "string \<Rightarrow> string list \<Rightarrow> string result" where
  "append_all out [] = Inr out"
| "append_all out (t # ts) = bind_result (Exposition_append out t) (\<lambda>out. append_all out ts)"

abbreviation quote :: string where "quote \<equiv> [CHR 0x22]"
abbreviation newline :: string where "newline \<equiv> [CHR 0x0A]"

text \<open>
  The pieces each part of the exposition appends, in order. The 64-byte buffer that
  \<open>std::to_chars\<close> writes to holds every 64-bit number (20 digits) and the shortest form of
  every \<open>double\<close>, so the conversion does not fail.
\<close>

definition Exposition_family :: "string \<Rightarrow> string \<Rightarrow> string \<Rightarrow> string list" where
  "Exposition_family name type help =
     [''# HELP apigate_'', name, '' '', help, newline @ ''# TYPE apigate_'', name, '' '', type, newline]"

definition Exposition_number :: "u64 \<Rightarrow> string list" where
  "Exposition_number n = [nat_to_string (unat n)]"

definition Exposition_gauge :: "string \<Rightarrow> string \<Rightarrow> u64 \<Rightarrow> string list" where
  "Exposition_gauge name help n =
     Exposition_family name ''gauge'' help @ [''apigate_'', name, '' ''] @ Exposition_number n @
     [newline]"

definition response_line :: "u64 list \<Rightarrow> nat \<Rightarrow> string list" where
  "response_line responses index =
     [''apigate_http_responses_total{status='' @ quote,
      (if index = 500 then ''other'' else nat_to_string (index + 100)), quote @ ''} ''] @
     Exposition_number (responses ! index) @ [newline]"

definition rejection_line :: "u64 list \<Rightarrow> nat \<Rightarrow> string list" where
  "rejection_line rejections index =
     [''apigate_rejections_total{reason='' @ quote, rejection_names ! index, quote @ ''} ''] @
     Exposition_number (rejections ! index) @ [newline]"

definition failure_line :: "u64 list \<Rightarrow> nat \<Rightarrow> string list" where
  "failure_line failures index =
     [''apigate_upstream_failures_total{stage='' @ quote,
      ProxyFailureStage_to_string (failure_stages ! index), quote @ ''} ''] @
     Exposition_number (failures ! index) @ [newline]"

definition upstream_head :: "nat \<Rightarrow> nat \<Rightarrow> string list" where
  "upstream_head route slot =
     [''apigate_upstream_available{route_index='' @ quote, nat_to_string route,
      quote @ '',upstream_index='' @ quote, nat_to_string slot, quote @ ''} '']"

text \<open>The inner loop over the slots of one route and the loop over the routes.\<close>

fun slot_loop :: "health_route list \<Rightarrow> nat \<Rightarrow> nat list \<Rightarrow> string \<Rightarrow> string result" where
  "slot_loop health route [] out = Inr out"
| "slot_loop health route (slot # slots) out =
     bind_result (append_all out (upstream_head route slot)) (\<lambda>out.
     bind_result (UpstreamHealthState_available health route slot) (\<lambda>available.
     bind_result (append_all out [if available then ''1'' else ''0'', newline]) (\<lambda>out.
       slot_loop health route slots out)))"

fun route_loop ::
  "health_route list \<Rightarrow> nat \<Rightarrow> route_config list \<Rightarrow> string \<Rightarrow> string result" where
  "route_loop health route [] out = Inr out"
| "route_loop health route (r # rs) out =
     (if 16 < length (route_upstreams r)
      then Inl (Length_error ''metrics upstream limit exceeded'')
      else bind_result (slot_loop health route [0..<length (route_upstreams r)] out) (\<lambda>out.
        route_loop health (route + 1) rs out))"

definition render_counters ::
  "'d double_ops \<Rightarrow> 'd metrics \<Rightarrow> accept_capacity_state \<Rightarrow> proxy_admission_state \<Rightarrow>
   budget_control \<Rightarrow> string list" where
  "render_counters D m connections proxies budget =
     Exposition_family ''http_responses_total'' ''counter''
       ''Final responses generated, not delivery acknowledgements; excludes metrics requests.'' @
     concat (map (response_line (m_responses m)) [0..<length (m_responses m)]) @
     Exposition_family ''rejections_total'' ''counter''
       ''Local admission rejections; excludes metrics requests.'' @
     concat (map (rejection_line (m_rejections m)) [0..<length (m_rejections m)]) @
     Exposition_family ''upstream_failures_total'' ''counter''
       ''Business proxy failures; excludes health probes and normal cancellation.'' @
     concat (map (failure_line (m_failures m)) [0..<length (m_failures m)]) @
     Exposition_family ''request_processing_seconds'' ''summary''
       (''Complete request dispatch to response ready (streaming: header ready); excludes '' @
        ''upload, downstream write, '' @
        ''early parse rejections, cancellation without response and metrics requests. '' @
        ''Population differs from http_responses_total.'') @
     [''apigate_request_processing_seconds_sum '', d_text D (m_processing_sum m),
      newline @ ''apigate_request_processing_seconds_count ''] @
     Exposition_number (m_processing_count m) @ [newline] @
     Exposition_gauge ''active_connections''
       ''Current downstream connections, including the scraper.'' (active_connections connections) @
     Exposition_gauge ''max_connections'' ''Downstream connection limit.''
       (max_connections connections) @
     Exposition_gauge ''active_proxies'' ''Current business proxy permits.''
       (active_proxies proxies) @
     Exposition_gauge ''max_concurrent_proxies'' ''Business proxy permit limit.''
       (max_proxies proxies) @
     Exposition_gauge ''in_flight_body_bytes'' ''Current business body reservation bytes.''
       (current_bytes budget) @
     Exposition_gauge ''max_in_flight_body_bytes''
       ''Business body reservation limit, not an RSS limit.'' (max_bytes budget) @
     Exposition_family ''upstream_available'' ''gauge''
       ''Slot eligible for selection; not proof of health or reachability.''"

definition Metrics_render ::
  "'d double_ops \<Rightarrow> 'd metrics \<Rightarrow> app_config \<Rightarrow> accept_capacity_state \<Rightarrow> proxy_admission_state \<Rightarrow>
   budget_control \<Rightarrow> health_route list \<Rightarrow> string result" where
  "Metrics_render D m config connections proxies budget health =
     (if 32 < length (cfg_routes config)
      then Inl (Length_error ''metrics route limit exceeded'')
      else bind_result (append_all [] (render_counters D m connections proxies budget)) (\<lambda>out.
        route_loop health 0 (cfg_routes config) out))"

section \<open>Observation of one request\<close>

definition RequestObservation_new :: request_observation where
  "RequestObservation_new =
     \<lparr>ob_started = None, ob_excluded = False, ob_completed = False, ob_rejected = False,
      ob_failed = False\<rparr>"

definition RequestObservation_exclude :: "request_observation \<Rightarrow> bool \<Rightarrow> request_observation" where
  "RequestObservation_exclude ob excluded = ob\<lparr>ob_excluded := excluded\<rparr>"

definition RequestObservation_begin ::
  "request_observation \<Rightarrow> time_point \<Rightarrow> request_observation" where
  "RequestObservation_begin ob now =
     (if ob_started ob = None \<and> \<not> ob_completed ob then ob\<lparr>ob_started := Some now\<rparr> else ob)"

text \<open>The pointer to the metrics may be null.\<close>

definition RequestObservation_finish ::
  "'d double_ops \<Rightarrow> request_observation \<Rightarrow> 'd metrics option \<Rightarrow> nat \<Rightarrow> time_point \<Rightarrow>
   request_observation \<times> 'd metrics option \<times> bool" where
  "RequestObservation_finish D ob metrics status now =
     (if ob_completed ob then (ob, metrics, False)
      else (ob\<lparr>ob_completed := True\<rparr>,
        (case metrics of
           Some m \<Rightarrow>
             if \<not> ob_excluded ob then
               let m = Metrics_response m status in
               Some (case ob_started ob of
                       Some start \<Rightarrow> Metrics_processing D m (d_elapsed D now start)
                     | None \<Rightarrow> m)
             else Some m
         | None \<Rightarrow> None), True))"

definition RequestObservation_reject ::
  "request_observation \<Rightarrow> 'd metrics option \<Rightarrow> rejection_reason \<Rightarrow>
   request_observation \<times> 'd metrics option" where
  "RequestObservation_reject ob metrics reason =
     (case metrics of
        Some m \<Rightarrow>
          if \<not> ob_excluded ob \<and> \<not> ob_completed ob \<and> \<not> ob_rejected ob
          then (ob\<lparr>ob_rejected := True\<rparr>, Some (Metrics_rejection m reason)) else (ob, metrics)
      | None \<Rightarrow> (ob, metrics))"

definition RequestObservation_fail_stream ::
  "request_observation \<Rightarrow> 'd metrics option \<Rightarrow> proxy_failure_stage \<Rightarrow>
   request_observation \<times> 'd metrics option" where
  "RequestObservation_fail_stream ob metrics stage =
     (case metrics of
        Some m \<Rightarrow>
          if \<not> ob_excluded ob \<and> \<not> ob_failed ob
          then (ob\<lparr>ob_failed := True\<rparr>, Some (Metrics_upstream_failure m stage)) else (ob, metrics)
      | None \<Rightarrow> (ob, metrics))"

definition RequestObservation_fail ::
  "request_observation \<Rightarrow> 'd metrics option \<Rightarrow> proxy_failure_stage \<Rightarrow>
   request_observation \<times> 'd metrics option" where
  "RequestObservation_fail ob metrics stage =
     (if \<not> ob_completed ob then RequestObservation_fail_stream ob metrics stage else (ob, metrics))"

section \<open>The size of the exposition\<close>

text \<open>How many bytes a list of pieces has.\<close>

definition plen :: "string list \<Rightarrow> nat" where
  "plen ps = length (concat ps)"

lemma plen_simps [simp]:
  "plen [] = 0" "plen (p # ps) = length p + plen ps" "plen (ps @ qs) = plen ps + plen qs"
  by (simp_all add: plen_def)

lemma plen_concat_le:
  "(\<And>i. i < n \<Longrightarrow> plen (f i) \<le> k) \<Longrightarrow> plen (concat (map f [0..<n])) \<le> n * k"
  by (induction n) (auto simp: add.commute intro: add_mono)

lemma append_all_total:
  "length out + plen ps \<le> max_output_bytes \<Longrightarrow> append_all out ps = Inr (out @ concat ps)"
  by (induction ps arbitrary: out) (auto simp: Exposition_append_def)

lemma number_length: "plen (Exposition_number n) \<le> 20"
proof -
  have "unat n < 2 ^ LENGTH(64)" by (rule unat_lt2p_word)
  also have "\<dots> < 10 ^ 20" by simp
  finally have "unat n < 10 ^ 20" .
  then show ?thesis
    using nat_to_string_length [of "unat n" 20] by (simp add: Exposition_number_def)
qed

lemma gauge_length: "plen (Exposition_gauge name help n) \<le> 3 * length name + length help + 80"
  using number_length [of n] by (simp add: Exposition_gauge_def Exposition_family_def)

lemma response_line_length: "index < 501 \<Longrightarrow> plen (response_line rs index) \<le> 70"
  using number_length [of "rs ! index"] nat_to_string_length [of "index + 100" 3]
  by (auto simp: response_line_def)

lemma rejection_line_length: "index < 4 \<Longrightarrow> plen (rejection_line rs index) \<le> 90"
proof -
  assume "index < 4"
  then have "length (rejection_names ! index) \<le> 19"
    by (auto simp: rejection_names_def less_Suc_eq eval_nat_numeral)
  then show ?thesis
    using number_length [of "rs ! index"] by (simp add: rejection_line_def)
qed

lemma failure_line_length: "plen (failure_line rs index) \<le> 100"
proof -
  have "length (ProxyFailureStage_to_string s) \<le> 18" for s
    by (cases s) simp_all
  from this [of "failure_stages ! index"] show ?thesis
    using number_length [of "rs ! index"] by (simp add: failure_line_def)
qed

definition metrics_shape :: "'d metrics \<Rightarrow> bool" where
  "metrics_shape m \<longleftrightarrow>
     length (m_responses m) = 501 \<and> length (m_rejections m) = 4 \<and> length (m_failures m) = 8"

lemma counters_length:
  assumes "metrics_shape m" "length (d_text D (m_processing_sum m)) \<le> 64"
  shows "plen (render_counters D m connections proxies budget) \<le> 40000"
proof -
  have "plen (concat (map (response_line (m_responses m)) [0..<501])) \<le> 501 * 70"
    by (rule plen_concat_le) (rule response_line_length)
  moreover have "plen (concat (map (rejection_line (m_rejections m)) [0..<4])) \<le> 4 * 90"
    by (rule plen_concat_le) (rule rejection_line_length)
  moreover have "plen (concat (map (failure_line (m_failures m)) [0..<8])) \<le> 8 * 100"
    by (rule plen_concat_le) (rule failure_line_length)
  moreover note number_length [of "m_processing_count m"]
  moreover note gauge_length
    [of "''active_connections''" "''Current downstream connections, including the scraper.''"
      "active_connections connections"]
  moreover note gauge_length
    [of "''max_connections''" "''Downstream connection limit.''" "max_connections connections"]
  moreover note gauge_length
    [of "''active_proxies''" "''Current business proxy permits.''" "active_proxies proxies"]
  moreover note gauge_length
    [of "''max_concurrent_proxies''" "''Business proxy permit limit.''" "max_proxies proxies"]
  moreover note gauge_length
    [of "''in_flight_body_bytes''" "''Current business body reservation bytes.''"
      "current_bytes budget"]
  moreover note gauge_length
    [of "''max_in_flight_body_bytes''" "''Business body reservation limit, not an RSS limit.''"
      "max_bytes budget"]
  ultimately show ?thesis
    using assms unfolding render_counters_def metrics_shape_def
    by (simp add: Exposition_family_def del: upt_Suc upt_rec_numeral)
qed

lemma upstream_head_length:
  assumes "route < 32" "slot < 16"
  shows "plen (upstream_head route slot) \<le> 70"
  using assms nat_to_string_length [of route 2] nat_to_string_length [of slot 2]
  by (simp add: upstream_head_def)

lemma slot_loop_total:
  assumes "health_shape routes health" "route < length routes" "length routes \<le> 32"
    and "set slots \<subseteq> {..<length (route_upstreams (routes ! route))}"
    and "length (route_upstreams (routes ! route)) \<le> 16"
    and "length out + 72 * length slots \<le> max_output_bytes"
  shows "\<exists>out'. slot_loop health route slots out = Inr out' \<and>
    length out' \<le> length out + 72 * length slots"
  using assms(4,6)
proof (induction slots arbitrary: out)
  case Nil
  then show ?case by simp
next
  case (Cons slot slots)
  have slot: "slot < length (route_upstreams (routes ! route))" using Cons.prems by simp
  have head: "plen (upstream_head route slot) \<le> 70"
    using slot assms(2,3,5) by (intro upstream_head_length) auto
  have a1: "append_all out (upstream_head route slot) = Inr (out @ concat (upstream_head route slot))"
    using head Cons.prems by (intro append_all_total) simp
  obtain v where av: "UpstreamHealthState_available health route slot = Inr v"
    using health_available_total [OF assms(1,2) slot] by blast
  let ?out = "(out @ concat (upstream_head route slot)) @ concat [if v then ''1'' else ''0'', newline]"
  have a2: "append_all (out @ concat (upstream_head route slot)) [if v then ''1'' else ''0'', newline]
      = Inr ?out"
    using head Cons.prems by (intro append_all_total) (auto simp: plen_def)
  have len: "length ?out \<le> length out + 72"
    using head by (auto simp: plen_def)
  then obtain out' where "slot_loop health route slots ?out = Inr out'"
    "length out' \<le> length ?out + 72 * length slots"
    using Cons.IH [of ?out] Cons.prems by auto
  then show ?case
    using a1 a2 av len by (auto simp del: append_all.simps)
qed

lemma route_loop_total:
  assumes "health_shape routes health" "length routes \<le> 32"
    and "\<forall>r \<in> set routes. length (route_upstreams r) \<le> 16"
    and "routes = pre @ rs" "length out + 72 * 16 * length rs \<le> max_output_bytes"
  shows "\<exists>out'. route_loop health (length pre) rs out = Inr out' \<and>
    length out' \<le> length out + 72 * 16 * length rs"
  using assms(4,5)
proof (induction rs arbitrary: out pre)
  case Nil
  then show ?case by simp
next
  case (Cons r rs)
  have r: "routes ! length pre = r" "length pre < length routes"
    using Cons.prems by simp_all
  have n: "length (route_upstreams r) \<le> 16"
    using assms(3) Cons.prems by simp
  have "\<exists>out'. slot_loop health (length pre) [0..<length (route_upstreams r)] out = Inr out' \<and>
    length out' \<le> length out + 72 * length [0..<length (route_upstreams r)]"
    using assms(1,2) r n Cons.prems by (intro slot_loop_total [of routes]) auto
  then obtain out1 where out1: "slot_loop health (length pre) [0..<length (route_upstreams r)] out
      = Inr out1" "length out1 \<le> length out + 72 * 16"
    using n by auto
  then obtain out' where "route_loop health (length (pre @ [r])) rs out1 = Inr out'"
    "length out' \<le> length out1 + 72 * 16 * length rs"
    using Cons.IH [of "pre @ [r]" out1] Cons.prems by auto
  then show ?case using out1 n by auto
qed

text \<open>
  C32. The metrics page is always produced. For a configuration within the limits the
  configuration loader enforces (at most 32 routes with at most 16 upstreams each) and the health
  state of its routes, rendering never throws, whatever the counters hold, and the text never
  exceeds the limit of 128 KiB.
\<close>

theorem metrics_render_total:
  assumes "metrics_shape m" and "length (d_text D (m_processing_sum m)) \<le> 64"
    and "length (cfg_routes config) \<le> 32"
    and "\<forall>r \<in> set (cfg_routes config). length (route_upstreams r) \<le> 16"
    and "health_shape (cfg_routes config) health"
  shows "\<exists>txt. Metrics_render D m config connections proxies budget health = Inr txt \<and>
    length txt \<le> max_output_bytes"
proof -
  let ?c = "render_counters D m connections proxies budget"
  have c: "plen ?c \<le> 40000"
    using assms(1,2) by (rule counters_length)
  then have a: "append_all [] ?c = Inr (concat ?c)"
    using append_all_total [of "[]" ?c] by (simp add: max_output_bytes_def)
  have "length (concat ?c) + 72 * 16 * length (cfg_routes config) \<le> max_output_bytes"
    using c assms(3) by (simp add: plen_def max_output_bytes_def)
  then obtain page where "route_loop health 0 (cfg_routes config) (concat ?c) = Inr page"
    "length page \<le> length (concat ?c) + 72 * 16 * length (cfg_routes config)"
    using route_loop_total [OF assms(5,3,4), of "[]" "cfg_routes config" "concat ?c"] by auto
  then show ?thesis
    using a c assms(3) by (auto simp: Metrics_render_def plen_def max_output_bytes_def)
qed

text \<open>Whole seconds as a concrete type of durations.\<close>

definition sample_double :: "int double_ops" where
  "sample_double =
     \<lparr>d_zero = 0, d_max = 1000000, d_finite = (\<lambda>x. True), d_less = (<), d_minus = (-), d_plus = (+),
      d_elapsed = (\<lambda>now start. (sint now - sint start) div 1000000000),
      d_text = (\<lambda>x. take 64 (nat_to_string (nat x)))\<rparr>"

theorem metrics_render_total_witness:
  "\<exists>txt. Metrics_render sample_double (Metrics_new sample_double) sample_config
     (AcceptCapacityState_new 256) (ProxyAdmissionState_new 32) (BufferBudgetState_new 1000)
     (UpstreamHealthState_new (cfg_routes sample_config)) = Inr txt \<and>
   length txt \<le> max_output_bytes"
proof (rule metrics_render_total)
  show "metrics_shape (Metrics_new sample_double)"
    by (simp add: metrics_shape_def Metrics_new_def)
  show "length (d_text sample_double (m_processing_sum (Metrics_new sample_double))) \<le> 64"
    by (simp add: sample_double_def)
  show "length (cfg_routes sample_config) \<le> 32"
    by (simp add: sample_config_def)
  show "\<forall>r \<in> set (cfg_routes sample_config). length (route_upstreams r) \<le> 16"
    by (simp add: sample_config_def sample_route_def)
  show "health_shape (cfg_routes sample_config) (UpstreamHealthState_new (cfg_routes sample_config))"
    by (rule health_shape_new)
qed

section \<open>Each request is counted once\<close>

datatype 'd metric_call =
    Call_response nat | Call_processing 'd | Call_rejection rejection_reason
  | Call_failure proxy_failure_stage

fun apply_call :: "'d double_ops \<Rightarrow> 'd metrics \<Rightarrow> 'd metric_call \<Rightarrow> 'd metrics" where
  "apply_call D m (Call_response status) = Metrics_response m status"
| "apply_call D m (Call_processing s) = Metrics_processing D m s"
| "apply_call D m (Call_rejection r) = Metrics_rejection m r"
| "apply_call D m (Call_failure s) = Metrics_upstream_failure m s"

datatype observation_op =
    Ob_exclude bool | Ob_begin time_point | Ob_finish nat time_point
  | Ob_reject rejection_reason | Ob_fail proxy_failure_stage | Ob_fail_stream proxy_failure_stage

text \<open>A run of operations on one observation; the number counts the \<open>finish\<close> that returned true.\<close>

fun observation_step ::
  "'d double_ops \<Rightarrow> request_observation \<times> 'd metrics option \<times> nat \<Rightarrow> observation_op \<Rightarrow>
   request_observation \<times> 'd metrics option \<times> nat" where
  "observation_step D (ob, m, n) (Ob_exclude x) = (RequestObservation_exclude ob x, m, n)"
| "observation_step D (ob, m, n) (Ob_begin now) = (RequestObservation_begin ob now, m, n)"
| "observation_step D (ob, m, n) (Ob_finish status now) =
     (case RequestObservation_finish D ob m status now of
        (ob', m', r) \<Rightarrow> (ob', m', if r then n + 1 else n))"
| "observation_step D (ob, m, n) (Ob_reject reason) =
     (case RequestObservation_reject ob m reason of (ob', m') \<Rightarrow> (ob', m', n))"
| "observation_step D (ob, m, n) (Ob_fail stage) =
     (case RequestObservation_fail ob m stage of (ob', m') \<Rightarrow> (ob', m', n))"
| "observation_step D (ob, m, n) (Ob_fail_stream stage) =
     (case RequestObservation_fail_stream ob m stage of (ob', m') \<Rightarrow> (ob', m', n))"

definition responses_in :: "'d metric_call list \<Rightarrow> nat" where
  "responses_in cs = length (filter (\<lambda>c. case c of Call_response _ \<Rightarrow> True | _ \<Rightarrow> False) cs)"

definition processings_in :: "'d metric_call list \<Rightarrow> nat" where
  "processings_in cs = length (filter (\<lambda>c. case c of Call_processing _ \<Rightarrow> True | _ \<Rightarrow> False) cs)"

definition rejections_in :: "'d metric_call list \<Rightarrow> nat" where
  "rejections_in cs = length (filter (\<lambda>c. case c of Call_rejection _ \<Rightarrow> True | _ \<Rightarrow> False) cs)"

definition failures_in :: "'d metric_call list \<Rightarrow> nat" where
  "failures_in cs = length (filter (\<lambda>c. case c of Call_failure _ \<Rightarrow> True | _ \<Rightarrow> False) cs)"

lemmas calls_in_defs = responses_in_def processings_in_def rejections_in_def failures_in_def

definition observation_inv ::
  "'d double_ops \<Rightarrow> 'd metrics \<Rightarrow> request_observation \<times> 'd metrics option \<times> nat \<Rightarrow> bool" where
  "observation_inv D m0 s \<longleftrightarrow>
     (case s of (ob, m, n) \<Rightarrow>
        n = (if ob_completed ob then 1 else 0) \<and>
        (\<exists>cs. m = Some (foldl (apply_call D) m0 cs) \<and>
           responses_in cs \<le> n \<and> processings_in cs \<le> responses_in cs \<and>
           rejections_in cs = (if ob_rejected ob then 1 else 0) \<and>
           failures_in cs = (if ob_failed ob then 1 else 0)))"

lemma observation_inv_finish:
  assumes "observation_inv D m0 (ob, m, n)"
  shows "observation_inv D m0 (observation_step D (ob, m, n) (Ob_finish status now))"
proof -
  obtain cs where n: "n = (if ob_completed ob then 1 else 0)"
    and cs: "m = Some (foldl (apply_call D) m0 cs)" "responses_in cs \<le> n"
      "processings_in cs \<le> responses_in cs" "rejections_in cs = (if ob_rejected ob then 1 else 0)"
      "failures_in cs = (if ob_failed ob then 1 else 0)"
    using assms by (auto simp: observation_inv_def)
  show ?thesis
  proof (cases "ob_completed ob \<or> ob_excluded ob")
    case True
    then show ?thesis
      using assms by (auto simp: RequestObservation_finish_def observation_inv_def)
  next
    case False
    let ?ds = "Call_response status #
      (case ob_started ob of None \<Rightarrow> [] | Some start \<Rightarrow> [Call_processing (d_elapsed D now start)])"
    let ?m = "Some (foldl (apply_call D) m0 (cs @ ?ds))"
    have eq: "observation_step D (ob, m, n) (Ob_finish status now) =
        (ob\<lparr>ob_completed := True\<rparr>, ?m, n + 1)"
      using False cs(1)
      by (simp add: RequestObservation_finish_def Let_def split: option.split)
    have "responses_in (cs @ ?ds) = Suc (responses_in cs)"
      "processings_in (cs @ ?ds) \<le> Suc (processings_in cs)"
      "rejections_in (cs @ ?ds) = rejections_in cs" "failures_in (cs @ ?ds) = failures_in cs"
      by (simp_all add: calls_in_defs split: option.split)
    then show ?thesis
      unfolding eq observation_inv_def prod.case
      using n cs False by (intro conjI exI [where x = "cs @ ?ds"]) simp_all
  qed
qed

lemma observation_inv_snoc:
  assumes "observation_inv D m0 (ob, m, n)"
    and "m' = map_option (\<lambda>m. apply_call D m c) m"
    and "ob_completed ob' = ob_completed ob"
    and "(\<exists>r. c = Call_rejection r) \<and> \<not> ob_rejected ob \<and> ob_rejected ob' \<and> ob_failed ob' = ob_failed ob \<or>
         (\<exists>s. c = Call_failure s) \<and> \<not> ob_failed ob \<and> ob_failed ob' \<and> ob_rejected ob' = ob_rejected ob"
  shows "observation_inv D m0 (ob', m', n)"
proof -
  obtain cs where n: "n = (if ob_completed ob then 1 else 0)"
    and cs: "m = Some (foldl (apply_call D) m0 cs)" "responses_in cs \<le> n"
      "processings_in cs \<le> responses_in cs" "rejections_in cs = (if ob_rejected ob then 1 else 0)"
      "failures_in cs = (if ob_failed ob then 1 else 0)"
    using assms by (auto simp: observation_inv_def)
  have "m' = Some (foldl (apply_call D) m0 (cs @ [c]))"
    using assms(2) cs(1) by simp
  then show ?thesis
    using n cs assms(3,4) unfolding observation_inv_def
    by (auto simp: calls_in_defs intro!: exI [where x = "cs @ [c]"])
qed

interpretation observation: step_invariant "observation_step D" "observation_inv D m0" for D m0
proof
  fix s e assume inv: "observation_inv D m0 s"
  obtain ob m n where s: "s = (ob, m, n)" by (cases s)
  note inv = inv [unfolded s]
  obtain m1 where m1: "m = Some m1"
    using inv by (auto simp: observation_inv_def)
  show "observation_inv D m0 (observation_step D s e)"
  proof (cases e)
    case (Ob_finish status now)
    then show ?thesis unfolding s using observation_inv_finish [OF inv] by simp
  next
    case (Ob_reject reason)
    then show ?thesis
      using inv observation_inv_snoc [OF inv, of _ "Call_rejection reason" "ob\<lparr>ob_rejected := True\<rparr>"] m1
      by (simp add: s RequestObservation_reject_def)
  next
    case (Ob_fail stage)
    then show ?thesis
      using inv observation_inv_snoc [OF inv, of _ "Call_failure stage" "ob\<lparr>ob_failed := True\<rparr>"] m1
      by (simp add: s RequestObservation_fail_def RequestObservation_fail_stream_def)
  next
    case (Ob_fail_stream stage)
    then show ?thesis
      using inv observation_inv_snoc [OF inv, of _ "Call_failure stage" "ob\<lparr>ob_failed := True\<rparr>"] m1
      by (simp add: s RequestObservation_fail_stream_def)
  qed (use inv in \<open>auto simp: s observation_inv_def RequestObservation_exclude_def
      RequestObservation_begin_def\<close>)
qed

text \<open>
  C33. Each request is counted once. Whatever the session does with the observation of one request,
  \<open>finish\<close> returns true at most once (so at most one response is written for the request), and
  the metrics end up as if at most one response, one processing time, one rejection and one
  upstream failure had been recorded for it, the processing time only with the response.
\<close>

theorem observation_counts_once:
  "case run_steps (observation_step D) (RequestObservation_new, Some m, 0) es of
     (ob, metrics, finished) \<Rightarrow>
       finished \<le> 1 \<and> (finished = 1 \<longleftrightarrow> ob_completed ob) \<and>
       (\<exists>cs. metrics = Some (foldl (apply_call D) m cs) \<and> responses_in cs \<le> finished \<and>
          processings_in cs \<le> responses_in cs \<and> rejections_in cs \<le> 1 \<and> failures_in cs \<le> 1)"
proof -
  have "observation_inv D m (RequestObservation_new, Some m, 0)"
    by (auto simp: observation_inv_def RequestObservation_new_def calls_in_defs
        intro!: exI [where x = "[]"])
  then have inv: "observation_inv D m
      (run_steps (observation_step D) (RequestObservation_new, Some m, 0) es)"
    by (rule observation.run_inv)
  obtain ob metrics n where run: "run_steps (observation_step D)
      (RequestObservation_new, Some m, 0) es = (ob, metrics, n)"
    by (metis prod_cases3)
  from inv obtain cs where "n = (if ob_completed ob then 1 else 0)"
    "metrics = Some (foldl (apply_call D) m cs)" "responses_in cs \<le> n"
    "processings_in cs \<le> responses_in cs" "rejections_in cs = (if ob_rejected ob then 1 else 0)"
    "failures_in cs = (if ob_failed ob then 1 else 0)"
    unfolding run observation_inv_def by auto
  then show ?thesis
    unfolding run by (auto intro!: exI [where x = cs])
qed

end
