(* ===== verification/UpstreamPool.thy ===== *)
theory UpstreamPool
  imports ConfigTypes "HOL-Library.Multiset"
begin

text \<open>
  The pool of idle upstream connections, \<open>src/upstream_pool.hpp\<close> and \<open>src/upstream_pool.cpp\<close>.
  A connection is known by an identity; what its socket and TLS stream say when they are asked is
  the record \<open>socket_view\<close>, an argument of the operations that ask. A lease is a \<open>unique_ptr\<close>:
  \<open>None\<close> is the empty one. The timer is the deadline it was set to and whether a wait is
  outstanding; the calls on it that may throw do so as the argument \<open>pool_fault\<close> says. Dropping
  an entry destroys the connection, which closes it.
\<close>

section \<open>Data\<close>

record upstream_connection =
  uc_id :: nat
  uc_backend :: upstream_config
  uc_context :: "tls_context option"
  uc_tls :: bool

record socket_view =
  sv_is_open :: "nat \<Rightarrow> bool"
  sv_tls_pending :: "nat \<Rightarrow> bool"
  sv_available :: "nat \<Rightarrow> error_code \<times> nat"

record idle_entry =
  id_connection :: upstream_connection
  id_deadline :: time_point

record upstream_pool =
  pool_idle :: "idle_entry option list"
  pool_cleanup :: "time_point option"
  pool_timer_pending :: bool
  pool_stopped :: bool

datatype pool_fault = No_fault | Fault_expires_never | Fault_expires_at | Fault_async_wait

definition max_idle :: nat where
  "max_idle = 32"

text \<open>Thirty seconds in nanoseconds.\<close>

definition idle_timeout :: u64 where
  "idle_timeout = 30000000000"

section \<open>Connections\<close>

definition UpstreamConnection_new ::
  "nat \<Rightarrow> upstream_config \<Rightarrow> tls_context option \<Rightarrow> upstream_connection result" where
  "UpstreamConnection_new ident backend context =
     (if up_scheme backend = Https then
        if context = None then Inl (Invalid_argument ''HTTPS connection requires validated trust'')
        else Inr \<lparr>uc_id = ident, uc_backend = backend, uc_context = context, uc_tls = True\<rparr>
      else Inr \<lparr>uc_id = ident, uc_backend = backend, uc_context = context, uc_tls = False\<rparr>)"

definition UpstreamConnection_matches ::
  "upstream_connection \<Rightarrow> upstream_config \<Rightarrow> tls_context option \<Rightarrow> bool" where
  "UpstreamConnection_matches c backend context \<longleftrightarrow>
     up_host (uc_backend c) = up_host backend \<and> up_port (uc_backend c) = up_port backend \<and>
     up_scheme (uc_backend c) = up_scheme backend \<and> uc_context c = context"

definition UpstreamConnection_clean :: "socket_view \<Rightarrow> upstream_connection \<Rightarrow> bool" where
  "UpstreamConnection_clean V c =
     (if \<not> sv_is_open V (uc_id c) \<or> (uc_tls c \<and> sv_tls_pending V (uc_id c)) then False
      else case sv_available V (uc_id c) of (error, available) \<Rightarrow> error = None \<and> available = 0)"

section \<open>The pool\<close>

definition UpstreamPool_new :: upstream_pool where
  "UpstreamPool_new =
     \<lparr>pool_idle = replicate max_idle None, pool_cleanup = None, pool_timer_pending = False,
      pool_stopped = False\<rparr>"

definition UpstreamPool_expire :: "upstream_pool \<Rightarrow> time_point \<Rightarrow> upstream_pool" where
  "UpstreamPool_expire p now =
     p\<lparr>pool_idle := map (\<lambda>entry. case entry of
         None \<Rightarrow> None
       | Some slot \<Rightarrow> if sint (id_deadline slot) \<le> sint now then None else Some slot) (pool_idle p)\<rparr>"

fun take_loop ::
  "socket_view \<Rightarrow> upstream_config \<Rightarrow> tls_context option \<Rightarrow> idle_entry option list \<Rightarrow>
   upstream_connection option \<times> idle_entry option list" where
  "take_loop V backend context [] = (None, [])"
| "take_loop V backend context (None # es) =
     (case take_loop V backend context es of (r, es') \<Rightarrow> (r, None # es'))"
| "take_loop V backend context (Some slot # es) =
     (if UpstreamConnection_matches (id_connection slot) backend context then
        if \<not> UpstreamConnection_clean V (id_connection slot) then
          (case take_loop V backend context es of (r, es') \<Rightarrow> (r, None # es'))
        else (Some (id_connection slot), None # es)
      else (case take_loop V backend context es of (r, es') \<Rightarrow> (r, Some slot # es')))"

definition UpstreamPool_take ::
  "socket_view \<Rightarrow> upstream_pool \<Rightarrow> upstream_config \<Rightarrow> tls_context option \<Rightarrow> time_point \<Rightarrow>
   upstream_pool \<times> upstream_connection option" where
  "UpstreamPool_take V p backend context now =
     (if pool_stopped p then (p, None)
      else let p = UpstreamPool_expire p now in
        (case take_loop V backend context (pool_idle p) of
           (r, idle) \<Rightarrow> (p\<lparr>pool_idle := idle\<rparr>, r)))"

definition UpstreamPool_stop :: "upstream_pool \<Rightarrow> upstream_pool" where
  "UpstreamPool_stop p =
     (if pool_stopped p then p
      else p\<lparr>pool_stopped := True, pool_idle := map (\<lambda>_. None) (pool_idle p)\<rparr>)"

text \<open>\<open>arm_cleanup\<close> returns whether it threw.\<close>

definition arm_cleanup :: "pool_fault \<Rightarrow> upstream_pool \<Rightarrow> upstream_pool \<times> bool" where
  "arm_cleanup fault p =
     (if pool_stopped p \<or> pool_timer_pending p then (p, False)
      else
        let next = foldl (\<lambda>next entry. case entry of
              None \<Rightarrow> next
            | Some slot \<Rightarrow>
                if (case next of None \<Rightarrow> True | Some d \<Rightarrow> sint (id_deadline slot) < sint d)
                then Some (id_deadline slot) else next) None (pool_idle p) in
        case next of
          None \<Rightarrow> (p, False)
        | Some deadline \<Rightarrow>
            if fault = Fault_expires_at then (p, True)
            else let p = p\<lparr>pool_cleanup := Some deadline, pool_timer_pending := True\<rparr> in
              (p, fault = Fault_async_wait))"

fun place_idle :: "idle_entry \<Rightarrow> idle_entry option list \<Rightarrow> idle_entry option list option" where
  "place_idle e [] = None"
| "place_idle e (None # es) = Some (Some e # es)"
| "place_idle e (Some x # es) = map_option (\<lambda>es'. Some x # es') (place_idle e es)"

definition UpstreamPool_put ::
  "socket_view \<Rightarrow> pool_fault \<Rightarrow> upstream_pool \<Rightarrow> upstream_connection option \<Rightarrow> time_point \<Rightarrow>
   upstream_pool" where
  "UpstreamPool_put V fault p lease now =
     (case lease of
        None \<Rightarrow> p
      | Some connection \<Rightarrow>
          if pool_stopped p \<or> \<not> UpstreamConnection_clean V connection then p
          else let p = UpstreamPool_expire p now in
            (case place_idle \<lparr>id_connection = connection, id_deadline = deadline_after now idle_timeout\<rparr>
                 (pool_idle p) of
               None \<Rightarrow> p
             | Some idle \<Rightarrow>
                 if fault = Fault_expires_never then UpstreamPool_stop p
                 else (case arm_cleanup fault (p\<lparr>pool_idle := idle\<rparr>) of
                         (p, threw) \<Rightarrow> if threw then UpstreamPool_stop p else p)))"

text \<open>The completion of the timer's wait.\<close>

definition on_cleanup_timer ::
  "pool_fault \<Rightarrow> upstream_pool \<Rightarrow> error_code \<Rightarrow> time_point \<Rightarrow> upstream_pool" where
  "on_cleanup_timer fault p error now =
     (if pool_stopped p then p
      else let p = p\<lparr>pool_timer_pending := False\<rparr> in
        if error \<noteq> None then
          if error \<noteq> Some Operation_aborted then UpstreamPool_stop p else p
        else (case arm_cleanup fault (UpstreamPool_expire p now) of
                (p, threw) \<Rightarrow> if threw then UpstreamPool_stop p else p))"

definition UpstreamPool_idle_count :: "upstream_pool \<Rightarrow> nat" where
  "UpstreamPool_idle_count p = length (filter (\<lambda>entry. entry \<noteq> None) (pool_idle p))"

section \<open>Runs\<close>

text \<open>
  The pool together with the connections that exchanges hold. A \<open>Put\<close> gives back the \<open>k\<close>-th held
  connection; \<open>Connect\<close> is an exchange that opened a connection of its own, with a new identity.
  The timer's wait completes only while one is outstanding, and is aborted only by \<open>stop\<close>.
\<close>

datatype pool_event =
    Connect upstream_connection
  | Take socket_view upstream_config "tls_context option" time_point
  | Put socket_view pool_fault nat time_point
  | Drop nat
  | Timer pool_fault error_code time_point
  | Stop_pool

fun entry_connections :: "idle_entry option list \<Rightarrow> upstream_connection list" where
  "entry_connections [] = []"
| "entry_connections (None # es) = entry_connections es"
| "entry_connections (Some slot # es) = id_connection slot # entry_connections es"

definition idle_connections :: "upstream_pool \<Rightarrow> upstream_connection list" where
  "idle_connections p = entry_connections (pool_idle p)"

fun pool_step ::
  "upstream_pool \<times> upstream_connection list \<Rightarrow> pool_event \<Rightarrow>
   upstream_pool \<times> upstream_connection list" where
  "pool_step (p, held) (Connect c) =
     (if uc_id c \<in> set (map uc_id (idle_connections p @ held)) then (p, held) else (p, held @ [c]))"
| "pool_step (p, held) (Take V backend context now) =
     (case UpstreamPool_take V p backend context now of
        (p', None) \<Rightarrow> (p', held)
      | (p', Some c) \<Rightarrow> (p', held @ [c]))"
| "pool_step (p, held) (Put V fault k now) =
     (if k < length held
      then (UpstreamPool_put V fault p (Some (held ! k)) now, take k held @ drop (Suc k) held)
      else (p, held))"
| "pool_step (p, held) (Drop k) = (p, take k held @ drop (Suc k) held)"
| "pool_step (p, held) (Timer fault error now) =
     (if pool_timer_pending p \<and> (error = Some Operation_aborted \<longrightarrow> pool_stopped p)
      then (on_cleanup_timer fault p error now, held) else (p, held))"
| "pool_step (p, held) Stop_pool = (UpstreamPool_stop p, held)"

section \<open>Leases are exclusive and idle connections are cleaned up\<close>

definition pool_inv :: "upstream_pool \<times> upstream_connection list \<Rightarrow> bool" where
  "pool_inv ph \<longleftrightarrow>
     length (pool_idle (fst ph)) = max_idle \<and>
     (pool_stopped (fst ph) \<longrightarrow> idle_connections (fst ph) = []) \<and>
     (\<not> pool_stopped (fst ph) \<longrightarrow> idle_connections (fst ph) \<noteq> [] \<longrightarrow> pool_timer_pending (fst ph)) \<and>
     distinct (map uc_id (idle_connections (fst ph) @ snd ph))"

lemma distinct_count_le: "distinct xs \<longleftrightarrow> (\<forall>a. count (mset xs) a \<le> 1)"
proof
  assume "distinct xs"
  then show "\<forall>a. count (mset xs) a \<le> 1"
    by (simp add: distinct_count_atmost_1)
next
  assume le: "\<forall>a. count (mset xs) a \<le> 1"
  have "count (mset xs) a = (if a \<in> set xs then 1 else 0)" for a
    using le [rule_format, of a] count_eq_zero_iff [of "mset xs" a]
    by (cases "count (mset xs) a") auto
  then show "distinct xs" by (simp add: distinct_count_atmost_1)
qed

lemma distinct_submset: "mset xs \<subseteq># mset ys \<Longrightarrow> distinct ys \<Longrightarrow> distinct xs"
  unfolding distinct_count_le by (meson mset_subset_eq_count order_trans)

lemma distinct_ids:
  "mset xs \<subseteq># mset ys \<Longrightarrow> distinct (map uc_id ys) \<Longrightarrow> distinct (map uc_id xs)"
  by (rule distinct_submset [of "map uc_id xs"]) (auto intro: image_mset_subseteq_mono)

lemma sub_add_mset: "A \<subseteq># B \<Longrightarrow> A \<subseteq># add_mset x B"
  by (metis add_mset_add_single subset_mset.add_increasing2 subset_mset.zero_le)

lemma take_loop_mset:
  "mset (entry_connections (snd (take_loop V backend context es))) +
     (case fst (take_loop V backend context es) of None \<Rightarrow> {#} | Some c \<Rightarrow> {#c#})
   \<subseteq># mset (entry_connections es)"
  by (induction es rule: entry_connections.induct)
    (auto simp: case_prod_beta split: option.splits
      intro: sub_add_mset)

lemma take_loop_length [simp]:
  "length (snd (take_loop V backend context es)) = length es"
  by (induction es rule: entry_connections.induct) (auto simp: case_prod_beta)

lemma place_idle_mset:
  "place_idle e es = Some es' \<Longrightarrow>
   mset (entry_connections es') = add_mset (id_connection e) (mset (entry_connections es)) \<and>
   length es' = length es"
  by (induction es arbitrary: es' rule: entry_connections.induct) auto

lemma expire_mset: "mset (idle_connections (UpstreamPool_expire p now)) \<subseteq># mset (idle_connections p)"
proof -
  have "mset (entry_connections (map (\<lambda>entry. case entry of
         None \<Rightarrow> None
       | Some slot \<Rightarrow> if sint (id_deadline slot) \<le> sint now then None else Some slot) es))
    \<subseteq># mset (entry_connections es)" for es
    by (induction es rule: entry_connections.induct)
      (auto intro: sub_add_mset)
  then show ?thesis by (simp add: idle_connections_def UpstreamPool_expire_def)
qed

lemma expire_frame [simp]:
  "length (pool_idle (UpstreamPool_expire p now)) = length (pool_idle p)"
  "pool_stopped (UpstreamPool_expire p now) = pool_stopped p"
  "pool_timer_pending (UpstreamPool_expire p now) = pool_timer_pending p"
  by (simp_all add: UpstreamPool_expire_def)

lemma entry_connections_none [simp]: "entry_connections (map (\<lambda>_. None) es) = []"
  by (induction es) auto

lemma stop_facts:
  assumes "pool_stopped p \<Longrightarrow> idle_connections p = []"
  shows "idle_connections (UpstreamPool_stop p) = []" "pool_stopped (UpstreamPool_stop p)"
    "length (pool_idle (UpstreamPool_stop p)) = length (pool_idle p)"
  using assms by (auto simp: UpstreamPool_stop_def idle_connections_def)

lemma arm_next_None:
  "foldl (\<lambda>next entry. case entry of
              None \<Rightarrow> next
            | Some slot \<Rightarrow>
                if (case next of None \<Rightarrow> True | Some d \<Rightarrow> sint (id_deadline slot) < sint d)
                then Some (id_deadline slot) else next) n es = None \<longleftrightarrow>
   n = None \<and> entry_connections es = []"
proof (induction es arbitrary: n)
  case Nil
  then show ?case by simp
next
  case (Cons e es)
  then show ?case by (cases e; cases n) auto
qed

lemma arm_cleanup_facts:
  assumes "arm_cleanup fault p = (p', threw)"
  shows "pool_idle p' = pool_idle p" "pool_stopped p' = pool_stopped p"
    "\<not> threw \<Longrightarrow> \<not> pool_stopped p \<Longrightarrow> idle_connections p \<noteq> [] \<Longrightarrow> pool_timer_pending p'"
  using assms arm_next_None [of None "pool_idle p"]
  by (auto simp: arm_cleanup_def Let_def idle_connections_def split: if_splits option.splits)

text \<open>What \<open>arm_cleanup\<close> and the handler of its exception leave behind.\<close>

lemma pool_inv_armed:
  assumes "arm_cleanup fault p = (p', threw)" "length (pool_idle p) = max_idle"
    and "\<not> pool_stopped p" "distinct (map uc_id (idle_connections p @ held))"
  shows "pool_inv (if threw then UpstreamPool_stop p' else p', held)"
proof -
  note arm = arm_cleanup_facts [OF assms(1)]
  have idle: "idle_connections p' = idle_connections p"
    using arm(1) by (simp add: idle_connections_def)
  show ?thesis
  proof (cases threw)
    case True
    then show ?thesis
      using assms arm stop_facts [of p'] by (simp add: pool_inv_def)
  next
    case False
    then show ?thesis
      using assms arm idle by (simp add: pool_inv_def)
  qed
qed

lemma pool_inv_take:
  assumes "pool_inv (p, held)"
  shows "pool_inv (pool_step (p, held) (Take V backend context now))"
proof (cases "pool_stopped p")
  case True
  then show ?thesis using assms by (simp add: UpstreamPool_take_def)
next
  case False
  let ?q = "UpstreamPool_expire p now"
  obtain r es where t: "take_loop V backend context (pool_idle ?q) = (r, es)" by fastforce
  have sub: "mset (entry_connections es) + (case r of None \<Rightarrow> {#} | Some c \<Rightarrow> {#c#})
      \<subseteq># mset (idle_connections p)"
  proof (rule subset_mset.order_trans)
    show "mset (entry_connections es) + (case r of None \<Rightarrow> {#} | Some c \<Rightarrow> {#c#})
        \<subseteq># mset (idle_connections ?q)"
      using take_loop_mset [of V backend "context" "pool_idle ?q"]
      by (simp add: t idle_connections_def)
  qed (rule expire_mset)
  have len: "length es = max_idle"
    using take_loop_length [of V backend "context" "pool_idle ?q"] assms by (simp add: t pool_inv_def)
  have pend: "entry_connections es \<noteq> [] \<Longrightarrow> pool_timer_pending p"
    using assms False sub by (auto simp: pool_inv_def)
  let ?h = "held @ (case r of None \<Rightarrow> [] | Some c \<Rightarrow> [c])"
  have "mset (entry_connections es @ ?h) \<subseteq># mset (idle_connections p @ held)"
    using subset_mset.add_right_mono [OF sub, of "mset held"]
    by (cases r) simp_all
  moreover have "distinct (map uc_id (idle_connections p @ held))"
    using assms by (simp add: pool_inv_def)
  ultimately have "distinct (map uc_id (entry_connections es @ ?h))"
    by (rule distinct_ids)
  then have "pool_inv (?q\<lparr>pool_idle := es\<rparr>, ?h)"
    using False len pend by (simp add: pool_inv_def idle_connections_def)
  moreover have "pool_step (p, held) (Take V backend context now) = (?q\<lparr>pool_idle := es\<rparr>, ?h)"
    using False t by (simp add: UpstreamPool_take_def Let_def split: option.split)
  ultimately show ?thesis by simp
qed

lemma mset_remove_nth:
  "k < length xs \<Longrightarrow> add_mset (xs ! k) (mset (take k xs @ drop (Suc k) xs)) = mset xs"
proof -
  assume "k < length xs"
  then have "xs = take k xs @ xs ! k # drop (Suc k) xs"
    by (rule id_take_nth_drop)
  then have "mset xs = mset (take k xs @ xs ! k # drop (Suc k) xs)"
    by (rule arg_cong)
  then show ?thesis by simp
qed

lemma mset_remove_le: "mset (take k xs @ drop (Suc k) xs) \<subseteq># mset xs"
proof (cases "k < length xs")
  case True
  then show ?thesis
    using mset_remove_nth [of k xs] sub_add_mset by (metis subset_mset.order_refl)
qed simp

lemma pool_inv_fewer:
  assumes "pool_inv (p, held)" "mset held' \<subseteq># mset held"
  shows "pool_inv (p, held')"
proof -
  have "mset (idle_connections p @ held') \<subseteq># mset (idle_connections p @ held)"
    using assms(2) by simp
  then have "distinct (map uc_id (idle_connections p @ held'))"
    by (rule distinct_ids) (use assms(1) in \<open>simp add: pool_inv_def\<close>)
  then show ?thesis using assms(1) by (simp add: pool_inv_def)
qed

lemma pool_inv_expire:
  assumes "pool_inv (p, held)"
  shows "pool_inv (UpstreamPool_expire p now, held)"
proof -
  have "mset (idle_connections (UpstreamPool_expire p now) @ held) \<subseteq># mset (idle_connections p @ held)"
    using expire_mset [of p now] by simp
  then have "distinct (map uc_id (idle_connections (UpstreamPool_expire p now) @ held))"
    by (rule distinct_ids) (use assms in \<open>simp add: pool_inv_def\<close>)
  moreover have "idle_connections p = [] \<Longrightarrow> idle_connections (UpstreamPool_expire p now) = []"
    using expire_mset [of p now] by simp
  ultimately show ?thesis using assms by (auto simp: pool_inv_def)
qed

lemma pool_inv_put:
  assumes "pool_inv (p, held)"
  shows "pool_inv (pool_step (p, held) (Put V fault k now))"
proof (cases "k < length held")
  case False
  then show ?thesis using assms by simp
next
  case True
  let ?h = "take k held @ drop (Suc k) held" and ?c = "held ! k"
  let ?q = "UpstreamPool_expire p now"
  let ?e = "\<lparr>id_connection = ?c, id_deadline = deadline_after now idle_timeout\<rparr>"
  have few: "pool_inv (p, ?h)" "pool_inv (?q, ?h)"
    using pool_inv_fewer [OF assms mset_remove_le] by (simp_all add: pool_inv_expire)
  show ?thesis
  proof (cases "pool_stopped p \<or> \<not> UpstreamConnection_clean V ?c")
    case True
    then show ?thesis using \<open>k < length held\<close> few by (simp add: UpstreamPool_put_def)
  next
    case usable: False
    show ?thesis
    proof (cases "place_idle ?e (pool_idle ?q)")
      case None
      then show ?thesis using True usable few by (simp add: UpstreamPool_put_def Let_def)
    next
      case (Some idle)
      obtain p' threw where arm: "arm_cleanup fault (?q\<lparr>pool_idle := idle\<rparr>) = (p', threw)"
        by fastforce
      have idle: "mset (entry_connections idle) = add_mset ?c (mset (idle_connections ?q))"
        "length idle = max_idle"
        using place_idle_mset [OF Some] few(2) by (simp_all add: idle_connections_def pool_inv_def)
      have "mset (entry_connections idle @ ?h) =
          add_mset ?c (mset ?h) + mset (idle_connections ?q)"
        using idle(1) by simp
      also have "\<dots> \<subseteq># mset (idle_connections p @ held)"
        unfolding mset_remove_nth [OF True] using expire_mset [of p now] by simp
      finally have "distinct (map uc_id (entry_connections idle @ ?h))"
        by (rule distinct_ids) (use assms in \<open>simp add: pool_inv_def\<close>)
      then have armed: "pool_inv (if threw then UpstreamPool_stop p' else p', ?h)"
        using usable idle(2) by (intro pool_inv_armed [OF arm]) (simp_all add: idle_connections_def)
      have "pool_inv (UpstreamPool_stop ?q, ?h)"
        using few(2) stop_facts [of ?q] by (simp add: pool_inv_def)
      with armed show ?thesis
        using True usable Some arm by (simp add: UpstreamPool_put_def Let_def)
    qed
  qed
qed

lemma pool_inv_timer:
  assumes "pool_inv (p, held)"
  shows "pool_inv (pool_step (p, held) (Timer fault error now))"
proof (cases "pool_timer_pending p \<and> (error = Some Operation_aborted \<longrightarrow> pool_stopped p)")
  case False
  then show ?thesis using assms unfolding pool_step.simps if_not_P [OF False] by simp
next
  case act: True
  show ?thesis
  proof (cases "pool_stopped p")
    case True
    then show ?thesis using act assms by (simp add: on_cleanup_timer_def)
  next
    case run: False
    let ?p = "p\<lparr>pool_timer_pending := False\<rparr>"
    obtain p' threw where arm: "arm_cleanup fault (UpstreamPool_expire ?p now) = (p', threw)"
      by fastforce
    have idle: "idle_connections (UpstreamPool_expire ?p now) =
        idle_connections (UpstreamPool_expire p now)" "idle_connections ?p = idle_connections p"
      by (simp_all add: idle_connections_def UpstreamPool_expire_def)
    have "distinct (map uc_id (idle_connections (UpstreamPool_expire ?p now) @ held))"
      using pool_inv_expire [OF assms, of now] by (simp add: pool_inv_def idle)
    then have armed: "pool_inv (if threw then UpstreamPool_stop p' else p', held)"
      using run assms by (intro pool_inv_armed [OF arm]) (simp_all add: pool_inv_def)
    have "pool_inv (UpstreamPool_stop ?p, held)"
      using assms run stop_facts [of ?p] by (simp add: pool_inv_def idle)
    with armed show ?thesis
      using act run arm by (auto simp: on_cleanup_timer_def Let_def)
  qed
qed

interpretation pool: step_invariant pool_step pool_inv
proof
  fix s e assume inv: "pool_inv s"
  obtain p held where s: "s = (p, held)" by (cases s)
  show "pool_inv (pool_step s e)"
  proof (cases e)
    case (Connect c)
    then show ?thesis using inv by (auto simp: s pool_inv_def)
  next
    case (Take V backend ctx now)
    then show ?thesis using inv pool_inv_take by (simp add: s del: pool_step.simps)
  next
    case (Put V fault k now)
    then show ?thesis using inv pool_inv_put by (simp add: s del: pool_step.simps)
  next
    case (Drop k)
    then show ?thesis
      using pool_inv_fewer [OF inv [unfolded s] mset_remove_le] by (simp add: s)
  next
    case (Timer fault error now)
    then show ?thesis using inv pool_inv_timer by (simp add: s del: pool_step.simps)
  next
    case Stop_pool
    then show ?thesis using inv stop_facts [of p] by (simp add: s pool_inv_def)
  qed
qed

lemma idle_count_le: "UpstreamPool_idle_count p \<le> length (pool_idle p)"
  by (simp add: UpstreamPool_idle_count_def)

text \<open>
  C34. Connections are leased to one exchange at a time and never leak. Over any sequence of
  connects, takes, puts, timer completions and stops, with any failure of the timer calls: no
  connection is both idle and leased, or leased twice; at most 32 connections are idle; a stopped
  pool holds none; and while a running pool holds one, a cleanup timer is outstanding.
\<close>

theorem pool_exclusive_and_bounded:
  "case run_steps pool_step (UpstreamPool_new, []) es of (p, held) \<Rightarrow>
     distinct (map uc_id (idle_connections p @ held)) \<and>
     UpstreamPool_idle_count p \<le> max_idle \<and>
     (pool_stopped p \<longrightarrow> idle_connections p = []) \<and>
     (\<not> pool_stopped p \<longrightarrow> idle_connections p \<noteq> [] \<longrightarrow> pool_timer_pending p)"
proof -
  have "entry_connections (replicate n None) = []" for n
    by (induction n) auto
  then have "pool_inv (UpstreamPool_new, [])"
    by (simp add: pool_inv_def UpstreamPool_new_def idle_connections_def)
  from pool.run_inv [OF this, of es]
    idle_count_le [of "fst (run_steps pool_step (UpstreamPool_new, []) es)"]
  show ?thesis
    by (auto simp: pool_inv_def case_prod_beta)
qed

text \<open>A concrete connection and a socket that is open with nothing to read.\<close>

definition sample_view :: socket_view where
  "sample_view =
     \<lparr>sv_is_open = (\<lambda>_. True), sv_tls_pending = (\<lambda>_. False), sv_available = (\<lambda>_. (None, 0))\<rparr>"

definition sample_backend :: upstream_config where
  "sample_backend = \<lparr>up_host = ''u'', up_port = 80, up_timeout_ms = 1000, up_scheme = Http\<rparr>"

definition sample_connection :: "nat \<Rightarrow> upstream_connection" where
  "sample_connection n =
     \<lparr>uc_id = n, uc_backend = sample_backend, uc_context = None, uc_tls = False\<rparr>"

theorem pool_exclusive_and_bounded_witness:
  "\<exists>p. run_steps pool_step (UpstreamPool_new, [])
      [Connect (sample_connection 1), Put sample_view No_fault 0 5] = (p, []) \<and>
    idle_connections p = [sample_connection 1] \<and> pool_timer_pending p"
proof -
  let ?r = "run_steps pool_step (UpstreamPool_new, [])
      [Connect (sample_connection 1), Put sample_view No_fault 0 5]"
  have r: "snd ?r = []" "idle_connections (fst ?r) = [sample_connection 1]"
    "\<not> pool_stopped (fst ?r)"
    by code_simp+
  have "pool_timer_pending (fst ?r)"
    using pool_exclusive_and_bounded [of
        "[Connect (sample_connection 1), Put sample_view No_fault 0 5]"] r
    by (simp add: case_prod_beta)
  then show ?thesis
    using r by (intro exI [where x = "fst ?r"]) (simp add: prod_eq_iff)
qed

section \<open>What a take returns\<close>

lemma take_loop_spec:
  "take_loop V backend ctx es = (r, es') \<Longrightarrow>
   (case r of
      None \<Rightarrow> \<forall>slot. Some slot \<in> set es \<longrightarrow> UpstreamConnection_matches (id_connection slot) backend ctx \<longrightarrow>
        \<not> UpstreamConnection_clean V (id_connection slot)
    | Some c \<Rightarrow> \<exists>slot. Some slot \<in> set es \<and> id_connection slot = c \<and>
        UpstreamConnection_matches c backend ctx \<and> UpstreamConnection_clean V c) \<and>
   (\<forall>slot. Some slot \<in> set es \<longrightarrow> \<not> UpstreamConnection_matches (id_connection slot) backend ctx \<longrightarrow>
      Some slot \<in> set es')"
proof (induction es arbitrary: r es' rule: entry_connections.induct)
  case 1
  then show ?case by auto
next
  case (2 es)
  then obtain es1 where t: "take_loop V backend ctx es = (r, es1)" "es' = None # es1"
    by (auto split: prod.splits)
  from 2(1) [OF t(1)] show ?case
    unfolding t(2)
    by (cases r) auto
next
  case (3 slot es)
  obtain r1 es1 where t: "take_loop V backend ctx es = (r1, es1)" by fastforce
  note IH = 3(1) [OF t]
  show ?case
  proof (cases "UpstreamConnection_matches (id_connection slot) backend ctx \<and>
      UpstreamConnection_clean V (id_connection slot)")
    case True
    then have "r = Some (id_connection slot)" "es' = None # es"
      using 3(2) by auto
    then show ?thesis using True by auto
  next
    case False
    then have "r = r1" and es': "es' = (if UpstreamConnection_matches (id_connection slot) backend ctx
        then None else Some slot) # es1"
      using 3(2) t by (auto split: if_splits)
    then show ?thesis
      using IH False unfolding es'
      by (cases r) auto
  qed
qed

text \<open>
  C35. A lease from the pool is safe to use. \<open>take\<close> returns only a connection to the same host, port,
  scheme and trust that was idle, has not expired, is open and has no unread data; it returns none
  only when there is no such connection (or the pool is stopped), and unexpired connections to
  other upstreams stay idle.
\<close>

theorem pool_take_sound:
  assumes "UpstreamPool_take V p backend ctx now = (p', r)" and "\<not> pool_stopped p"
  shows "(case r of
      None \<Rightarrow> \<forall>slot. Some slot \<in> set (pool_idle p) \<longrightarrow> sint now < sint (id_deadline slot) \<longrightarrow>
        UpstreamConnection_matches (id_connection slot) backend ctx \<longrightarrow>
        \<not> UpstreamConnection_clean V (id_connection slot)
    | Some c \<Rightarrow> \<exists>slot. Some slot \<in> set (pool_idle p) \<and> id_connection slot = c \<and>
        sint now < sint (id_deadline slot) \<and>
        UpstreamConnection_matches c backend ctx \<and> UpstreamConnection_clean V c) \<and>
    (\<forall>slot. Some slot \<in> set (pool_idle p) \<longrightarrow> sint now < sint (id_deadline slot) \<longrightarrow>
       \<not> UpstreamConnection_matches (id_connection slot) backend ctx \<longrightarrow>
       Some slot \<in> set (pool_idle p'))"
proof -
  let ?es = "pool_idle (UpstreamPool_expire p now)"
  have t: "take_loop V backend ctx ?es = (r, pool_idle p')"
    using assms by (auto simp: UpstreamPool_take_def Let_def split: prod.splits)
  have mem: "Some slot \<in> set ?es \<longleftrightarrow>
      Some slot \<in> set (pool_idle p) \<and> sint now < sint (id_deadline slot)" for slot
    by (force simp: UpstreamPool_expire_def split: option.splits if_splits)
  show ?thesis
    using take_loop_spec [OF t] unfolding mem by (cases r) auto
qed

theorem pool_take_sound_witness:
  "\<exists>slot. Some slot \<in> set (pool_idle (fst (run_steps pool_step (UpstreamPool_new, [])
      [Connect (sample_connection 1), Put sample_view No_fault 0 5]))) \<and>
    id_connection slot = sample_connection 1 \<and> sint (7 :: time_point) < sint (id_deadline slot)"
proof -
  let ?p = "fst (run_steps pool_step (UpstreamPool_new, [])
      [Connect (sample_connection 1), Put sample_view No_fault 0 5])"
  let ?t = "UpstreamPool_take sample_view ?p sample_backend None 7"
  have t: "?t = (fst ?t, Some (sample_connection 1))" and s: "\<not> pool_stopped ?p"
    by code_simp+
  show ?thesis
    using pool_take_sound [OF t s] by (simp only: option.case) blast
qed

end
