(* ===== verification/Tls.thy ===== *)
theory Tls
  imports ConfigTypes
begin

text \<open>
  The TLS contexts, \<open>src/downstream_tls.cpp\<close> and \<open>src/upstream_tls.cpp\<close>: the protocol selection
  callback on the bytes of the ALPN extension, and the construction of the contexts, with the
  OpenSSL, Asio and file system calls as the fields of the record \<open>tls_lib\<close>. Every failure of a
  call ends in one message that does not tell which file or call failed.
\<close>

section \<open>The ALPN callback\<close>

definition http11_bytes :: "u8 list" where
  "http11_bytes = map of_char ''http/1.1''"

text \<open>
  \<open>Some (offset, length)\<close> is \<open>SSL_TLSEXT_ERR_OK\<close> with that output, \<open>None\<close> is
  \<open>SSL_TLSEXT_ERR_ALERT_FATAL\<close>. The comparison reads eight bytes that the check before it has
  found to be there.
\<close>

function select_http11_loop :: "u8 list \<Rightarrow> nat \<Rightarrow> (nat \<times> u8) option" where
  "select_http11_loop input offset =
     (if offset < length input then
        let len = input ! offset; offset' = offset + 1 in
        if len = 0 \<or> length input - offset' < unat len then None
        else if len = 8 \<and> take 8 (drop offset' input) = http11_bytes then Some (offset', len)
        else select_http11_loop input (offset' + unat len)
      else None)"
  by pat_completeness auto
termination
  by (relation "measure (\<lambda>(input, offset). length input - offset)") auto

declare select_http11_loop.simps [simp del]

definition select_http11 :: "u8 list \<Rightarrow> (nat \<times> u8) option" where
  "select_http11 input = select_http11_loop input 0"

section \<open>Contexts\<close>

text \<open>
  Return values of the calls: the bool-valued fields say whether the call succeeds (does not
  throw); \<open>use_private_key_file\<close> also says whether it asked for a password. \<open>new_context\<close> is the
  identity of the context constructed.
\<close>

record tls_lib =
  new_context :: "tls_context option"
  set_min_proto_version :: int
  set_max_early_data :: int
  set_alpn_protos :: int
  use_certificate_chain_file :: "string \<Rightarrow> bool"
  use_private_key_file :: "string \<Rightarrow> bool \<times> bool"
  check_private_key :: int
  load_verify_file :: "string \<Rightarrow> bool"
  is_regular_file :: "string \<Rightarrow> bool"

definition downstream_tls_error :: exn where
  "downstream_tls_error =
     Config_error ''downstream TLS certificate and unencrypted matching key could not be loaded''"

definition make_downstream_tls_context ::
  "tls_lib \<Rightarrow> string option \<Rightarrow> string option \<Rightarrow> tls_context option result" where
  "make_downstream_tls_context T certificate private_key =
     (case (certificate, private_key) of
        (None, None) \<Rightarrow> Inr None
      | (Some cert, Some key) \<Rightarrow>
          if cert = [] \<or> key = [] then
            Inl (Config_error ''downstream TLS certificate and key must not be empty'')
          else (case new_context T of
            None \<Rightarrow> Inl downstream_tls_error
          | Some server \<Rightarrow>
              if set_min_proto_version T \<noteq> 1 \<or> set_max_early_data T \<noteq> 1 then Inl downstream_tls_error
              else if \<not> use_certificate_chain_file T cert then Inl downstream_tls_error
              else (case use_private_key_file T key of
                (loaded, password_requested) \<Rightarrow>
                  if \<not> loaded \<or> password_requested \<or> check_private_key T \<noteq> 1
                  then Inl downstream_tls_error else Inr (Some server)))
      | _ \<Rightarrow> Inl (Config_error
          ''APIGATE_TLS_CERT_FILE and APIGATE_TLS_KEY_FILE must be set together''))"

definition upstream_tls_error :: exn where
  "upstream_tls_error = Config_error ''upstream TLS trust configuration could not be loaded''"

definition ca_bundles :: "string list" where
  "ca_bundles =
     [''/etc/ssl/certs/ca-certificates.crt'', ''/etc/pki/tls/certs/ca-bundle.crt'',
      ''/etc/ssl/cert.pem'']"

definition make_upstream_tls_context ::
  "tls_lib \<Rightarrow> string option \<Rightarrow> bool \<Rightarrow> tls_context option result" where
  "make_upstream_tls_context T ca_file https_enabled =
     (if ca_file = None \<and> \<not> https_enabled then Inr None
      else (case new_context T of
        None \<Rightarrow> Inl upstream_tls_error
      | Some trust \<Rightarrow>
          if set_min_proto_version T \<noteq> 1 then Inl upstream_tls_error
          else if set_alpn_protos T \<noteq> 0 then Inl upstream_tls_error
          else (case ca_file of
            Some file \<Rightarrow>
              if load_verify_file T file then Inr (Some trust) else Inl upstream_tls_error
          | None \<Rightarrow>
              (case find (is_regular_file T) ca_bundles of
                 None \<Rightarrow> Inl upstream_tls_error
               | Some bundle \<Rightarrow>
                   if load_verify_file T bundle then Inr (Some trust) else Inl upstream_tls_error))))"

section \<open>Identity of an upstream\<close>

text \<open>
  \<open>configure_upstream_tls_identity\<close> of \<open>upstream_tls.hpp\<close>: the stream checks certificates
  against the configured host and sends it as the server name unless it is an IP address.
  \<open>is_address\<close> says whether \<open>ip::make_address\<close> accepts the text, \<open>set_tlsext_host_name\<close> is the
  value of \<open>SSL_set_tlsext_host_name\<close>.
\<close>

record net_lib =
  is_address :: "string \<Rightarrow> bool"
  set_tlsext_host_name :: "string \<Rightarrow> int"

record tls_identity =
  ti_verify_host :: string
  ti_server_name :: "string option"

definition configure_upstream_tls_identity :: "net_lib \<Rightarrow> string \<Rightarrow> tls_identity \<times> bool" where
  "configure_upstream_tls_identity N host =
     (if is_address N host then (\<lparr>ti_verify_host = host, ti_server_name = None\<rparr>, True)
      else if set_tlsext_host_name N host = 1
      then (\<lparr>ti_verify_host = host, ti_server_name = Some host\<rparr>, True)
      else (\<lparr>ti_verify_host = host, ti_server_name = None\<rparr>, False))"

text \<open>A library in which every host is a name that the TLS stream accepts.\<close>

definition sample_net :: net_lib where
  "sample_net = \<lparr>is_address = (\<lambda>_. False), set_tlsext_host_name = (\<lambda>_. 1)\<rparr>"

section \<open>Properties\<close>

lemma upstream_tls_required: "make_upstream_tls_context T ca_file True \<noteq> Inr None"
  by (simp add: make_upstream_tls_context_def split: option.split)

text \<open>The wire form of a protocol list: each name with its length in front.\<close>

definition alpn_encode :: "u8 list list \<Rightarrow> u8 list" where
  "alpn_encode ps = concat (map (\<lambda>p. of_nat (length p) # p) ps)"

definition alpn_names_ok :: "u8 list list \<Rightarrow> bool" where
  "alpn_names_ok ps = list_all (\<lambda>p. 1 \<le> length p \<and> length p \<le> 255) ps"

lemma alpn_encode_Cons: "alpn_encode (p # ps) = of_nat (length p) # p @ alpn_encode ps"
  by (simp add: alpn_encode_def)

lemma http11_length: "length http11_bytes = 8"
  by (simp add: http11_bytes_def)

lemma select_loop_encoded:
  assumes "alpn_names_ok ps"
  shows "select_http11_loop (pre @ alpn_encode ps) (length pre) =
    (if http11_bytes \<in> set ps
     then Some (length pre + length (alpn_encode (takeWhile (\<lambda>p. p \<noteq> http11_bytes) ps)) + 1, 8)
     else None)"
  using assms
proof (induction ps arbitrary: pre)
  case Nil
  then show ?case by (simp add: alpn_encode_def select_http11_loop.simps)
next
  case (Cons p ps)
  let ?input = "pre @ alpn_encode (p # ps)"
  have len: "1 \<le> length p" "length p \<le> 255" "alpn_names_ok ps"
    using Cons.prems by (simp_all add: alpn_names_ok_def)
  have un: "unat (of_nat (length p) :: u8) = length p"
    using len(2) by (simp add: unat_of_nat)
  have nz: "(of_nat (length p) :: u8) \<noteq> 0"
    using un len(1) by (metis not_one_le_zero unat_0)
  have eight: "(of_nat (length p) :: u8) = 8 \<longleftrightarrow> length p = 8"
    by (simp add: word_unat_eq_iff un)
  have at: "?input ! length pre = of_nat (length p)" "length pre < length ?input"
    "drop (length pre + 1) ?input = p @ alpn_encode ps"
    "length ?input - (length pre + 1) = length p + length (alpn_encode ps)"
    by (simp_all add: alpn_encode_Cons nth_append)
  have hit: "(of_nat (length p) :: u8) = 8 \<and> take 8 (p @ alpn_encode ps) = http11_bytes \<longleftrightarrow>
      p = http11_bytes"
    using eight http11_length by auto
  have step: "select_http11_loop ?input (length pre) =
    (if p = http11_bytes then Some (length pre + 1, of_nat (length p))
     else select_http11_loop ?input (length pre + 1 + length p))"
  proof -
    have "select_http11_loop ?input (length pre) =
      (if (of_nat (length p) :: u8) = 0 \<or>
          length ?input - (length pre + 1) < unat (of_nat (length p) :: u8) then None
       else if (of_nat (length p) :: u8) = 8 \<and> take 8 (drop (length pre + 1) ?input) = http11_bytes
       then Some (length pre + 1, of_nat (length p))
       else select_http11_loop ?input (length pre + 1 + unat (of_nat (length p) :: u8)))"
      by (subst select_http11_loop.simps) (simp only: at(1,2) Let_def if_True)
    then show ?thesis
      unfolding at(3,4) un hit using nz by simp
  qed
  show ?case
  proof (cases "p = http11_bytes")
    case True
    then show ?thesis using step http11_length by (simp add: alpn_encode_def)
  next
    case False
    let ?pre = "pre @ of_nat (length p) # p"
    have eq: "?input = ?pre @ alpn_encode ps" "length pre + 1 + length p = length ?pre"
      by (simp_all add: alpn_encode_Cons)
    show ?thesis
      using step False Cons.IH [OF len(3), of ?pre] unfolding eq
      by (simp add: alpn_encode_Cons)
  qed
qed

text \<open>
  C38. ALPN selection. On every well-formed protocol list the callback accepts exactly when the
  client offers \<open>http/1.1\<close>, and its output is the first such name in the list (eight bytes); a
  client that offers only other protocols is refused.
\<close>

theorem alpn_selects_http11:
  assumes "alpn_names_ok ps"
  shows "case select_http11 (alpn_encode ps) of
      None \<Rightarrow> http11_bytes \<notin> set ps
    | Some (offset, len) \<Rightarrow>
        http11_bytes \<in> set ps \<and> len = 8 \<and> offset + 8 \<le> length (alpn_encode ps) \<and>
        take 8 (drop offset (alpn_encode ps)) = http11_bytes"
proof (cases "http11_bytes \<in> set ps")
  case False
  then show ?thesis
    using select_loop_encoded [OF assms, of "[]"] by (simp add: select_http11_def)
next
  case True
  let ?q = "takeWhile (\<lambda>p. p \<noteq> http11_bytes) ps"
  obtain rest where ps: "ps = ?q @ http11_bytes # rest"
    using True by (metis (mono_tags, lifting) append_Nil2 dropWhile_eq_Cons_conv list.exhaust
        dropWhile_eq_Nil_conv takeWhile_dropWhile_id)
  have enc: "alpn_encode ps = alpn_encode ?q @ 8 # http11_bytes @ alpn_encode rest"
    by (subst ps) (simp add: alpn_encode_def http11_length)
  show ?thesis
    using select_loop_encoded [OF assms, of "[]"] True
    by (simp add: select_http11_def) (simp add: enc http11_length)
qed

theorem alpn_selects_http11_witness:
  "\<exists>offset. select_http11 (alpn_encode [map of_char ''h2'', http11_bytes]) = Some (offset, 8)"
proof -
  have ok: "alpn_names_ok [map of_char ''h2'', http11_bytes]"
    by (simp add: alpn_names_ok_def http11_length)
  show ?thesis
    using alpn_selects_http11 [OF ok]
    by (cases "select_http11 (alpn_encode [map of_char ''h2'', http11_bytes])") auto
qed

end
