(* ===== verification/Config.thy ===== *)
theory Config
  imports ApiKeyAuth Tls RateLimit Health
begin

text \<open>
  Loading the configuration, \<open>src/config.cpp\<close>. The environment of the process, Asio's
  \<open>make_address\<close> and nlohmann's parser are the fields of the record \<open>config_lib\<close>. The parser
  gives the events it reports to the callback, in order, and the document, or none when it
  rejects the text (after those events). Configuration runs in the C locale, where \<open>isalnum\<close> is
  true of the ASCII letters and digits. Environment values contain no NUL character.
\<close>

section \<open>Library functions\<close>

datatype parse_event =
    Ev_object_start | Ev_object_end | Ev_array_start | Ev_array_end | Ev_key string | Ev_value json

record config_lib =
  getenv :: "string \<Rightarrow> string option"
  make_address :: "string \<Rightarrow> string option"
  json_parse :: "string \<Rightarrow> (nat \<times> parse_event) list \<times> json option"

definition isalnum :: "char \<Rightarrow> bool" where
  "isalnum c \<longleftrightarrow>
     char_between CHR ''a'' CHR ''z'' c \<or> char_between CHR ''A'' CHR ''Z'' c \<or>
     char_between CHR ''0'' CHR ''9'' c"

definition is_digit :: "char \<Rightarrow> bool" where
  "is_digit c = char_between CHR ''0'' CHR ''9'' c"

definition digits_value :: "string \<Rightarrow> nat" where
  "digits_value ds = foldl (\<lambda>n c. n * 10 + (of_char c - 48)) 0 ds"

text \<open>
  \<open>std::from_chars\<close> to an unsigned type of that many bits: the value, or none when \<open>ec\<close> is set,
  and how many characters it consumed.
\<close>

definition from_chars :: "nat \<Rightarrow> string \<Rightarrow> nat option \<times> nat" where
  "from_chars bits s =
     (let ds = takeWhile is_digit s; v = digits_value ds in
      (if ds = [] \<or> 2 ^ bits \<le> v then None else Some v, length ds))"

fun json_contains :: "json \<Rightarrow> string \<Rightarrow> bool" where
  "json_contains (JObject kvs) k = (map_of kvs k \<noteq> None)"
| "json_contains _ k = False"

fun json_at :: "json \<Rightarrow> string \<Rightarrow> json" where
  "json_at (JObject kvs) k = (case map_of kvs k of None \<Rightarrow> JNull | Some v \<Rightarrow> v)"
| "json_at _ k = JNull"

fun json_keys :: "json \<Rightarrow> string list" where
  "json_keys (JObject kvs) = map fst kvs"
| "json_keys _ = []"

section \<open>Single values\<close>

definition require :: "bool \<Rightarrow> string \<Rightarrow> unit result" where
  "require ok message = (if ok then Inr () else Inl (Config_error message))"

definition read_environment :: "config_lib \<Rightarrow> string \<Rightarrow> string option result" where
  "read_environment E name =
     (case getenv E name of
        None \<Rightarrow> Inr None
      | Some v \<Rightarrow> if v = [] then Inl (Config_error (name @ '' must not be empty'')) else Inr (Some v))"

definition validate_label :: "string \<Rightarrow> string \<Rightarrow> unit result" where
  "validate_label v variable_name =
     require (length v \<le> 64 \<and>
         list_all (\<lambda>c. isalnum c \<or> c = CHR ''-'' \<or> c = CHR ''_'' \<or> c = CHR ''.'') v)
       (variable_name @ '' must be 1-64 characters using letters, digits, '' @
        [CHR 0x27, CHR ''.'', CHR 0x27] @ '', '' @ [CHR 0x27, CHR ''_'', CHR 0x27] @ '' or '' @
        [CHR 0x27, CHR ''-'', CHR 0x27])"

definition parse_log_level :: "string \<Rightarrow> log_level result" where
  "parse_log_level v =
     (if v = ''trace'' then Inr Trace
      else if v = ''debug'' then Inr Debug
      else if v = ''info'' then Inr Info
      else if v = ''warn'' then Inr Warn
      else if v = ''error'' then Inr Error
      else if v = ''critical'' then Inr Critical
      else Inl (Config_error
        ''APIGATE_LOG_LEVEL must be one of trace, debug, info, warn, error or critical''))"

definition LogLevel_to_string :: "log_level \<Rightarrow> string" where
  "LogLevel_to_string level =
     (case level of Trace \<Rightarrow> ''trace'' | Debug \<Rightarrow> ''debug'' | Info \<Rightarrow> ''info'' | Warn \<Rightarrow> ''warn''
      | Error \<Rightarrow> ''error'' | Critical \<Rightarrow> ''critical'')"

definition parse_listen_address :: "config_lib \<Rightarrow> string \<Rightarrow> string result" where
  "parse_listen_address E v =
     (case make_address E v of
        None \<Rightarrow> Inl (Config_error ''APIGATE_LISTEN_ADDRESS must be a valid IPv4 or IPv6 address'')
      | Some address \<Rightarrow> Inr address)"

definition parse_listen_port :: "string \<Rightarrow> u16 result" where
  "parse_listen_port v =
     (case from_chars 32 v of
        (Some port, ptr) \<Rightarrow>
          if ptr \<noteq> length v \<or> 65535 < port
          then Inl (Config_error ''APIGATE_LISTEN_PORT must be an integer from 0 to 65535'')
          else Inr (of_nat port)
      | (None, _) \<Rightarrow> Inl (Config_error ''APIGATE_LISTEN_PORT must be an integer from 0 to 65535''))"

definition parse_upstream_port :: "string \<Rightarrow> u16 result" where
  "parse_upstream_port v =
     (case from_chars 32 v of
        (Some port, ptr) \<Rightarrow>
          if ptr \<noteq> length v \<or> port = 0 \<or> 65535 < port
          then Inl (Config_error ''APIGATE_UPSTREAM_PORT must be an integer from 1 to 65535'')
          else Inr (of_nat port)
      | (None, _) \<Rightarrow> Inl (Config_error ''APIGATE_UPSTREAM_PORT must be an integer from 1 to 65535''))"

definition parse_capacity_limit :: "string \<Rightarrow> string \<Rightarrow> u16 result" where
  "parse_capacity_limit v variable_name =
     (case from_chars 32 v of
        (Some limit, ptr) \<Rightarrow>
          if ptr \<noteq> length v \<or> limit = 0 \<or> 65535 < limit
          then Inl (Config_error (variable_name @ '' must be an integer from 1 to 65535''))
          else Inr (of_nat limit)
      | (None, _) \<Rightarrow> Inl (Config_error (variable_name @ '' must be an integer from 1 to 65535'')))"

definition parse_bounded_milliseconds :: "string \<Rightarrow> string \<Rightarrow> u32 result" where
  "parse_bounded_milliseconds v variable_name =
     (case from_chars 32 v of
        (Some timeout, ptr) \<Rightarrow>
          if ptr \<noteq> length v \<or> timeout = 0 \<or> 60000 < timeout
          then Inl (Config_error (variable_name @ '' must be an integer from 1 to 60000''))
          else Inr (of_nat timeout)
      | (None, _) \<Rightarrow> Inl (Config_error (variable_name @ '' must be an integer from 1 to 60000'')))"

definition parse_max_in_flight_bytes :: "string \<Rightarrow> u64 result" where
  "parse_max_in_flight_bytes v =
     (case from_chars 64 v of
        (Some bytes, ptr) \<Rightarrow>
          if ptr \<noteq> length v \<or> bytes = 0 \<or> 1073741824 < bytes
          then Inl (Config_error ''APIGATE_MAX_IN_FLIGHT_BYTES must be an integer from 1 to 1073741824'')
          else Inr (of_nat bytes)
      | (None, _) \<Rightarrow>
          Inl (Config_error ''APIGATE_MAX_IN_FLIGHT_BYTES must be an integer from 1 to 1073741824''))"

section \<open>Host names and prefixes\<close>

definition host_error :: exn where
  "host_error = Config_error ''APIGATE_UPSTREAM_HOST must be a valid hostname or IP address''"

text \<open>The loop over the characters, with the variables it updates.\<close>

fun hostname_loop :: "string \<Rightarrow> nat \<Rightarrow> bool \<Rightarrow> char \<Rightarrow> (nat \<times> bool \<times> char) result" where
  "hostname_loop [] label_length starts_with_hyphen previous =
     Inr (label_length, starts_with_hyphen, previous)"
| "hostname_loop (c # cs) label_length starts_with_hyphen previous =
     (if c = CHR ''.'' then
        if label_length = 0 \<or> 63 < label_length \<or> starts_with_hyphen \<or> previous = CHR ''-''
        then Inl host_error
        else hostname_loop cs 0 False c
      else if isalnum c \<or> c = CHR ''-'' then
        hostname_loop cs (label_length + 1)
          (if label_length = 0 then c = CHR ''-'' else starts_with_hyphen) c
      else Inl host_error)"

text \<open>The callers pass a value that is not empty.\<close>

definition validate_dns_hostname :: "string \<Rightarrow> unit result" where
  "validate_dns_hostname v =
     (if 253 < length v \<or> hd v = CHR ''.'' \<or> last v = CHR ''.'' then Inl host_error
      else bind_result (hostname_loop v 0 False CHR 0x00)
        (\<lambda>(label_length, starts_with_hyphen, previous).
           if label_length = 0 \<or> 63 < label_length \<or> starts_with_hyphen \<or> previous = CHR ''-''
           then Inl host_error else Inr ()))"

definition parse_upstream_host :: "config_lib \<Rightarrow> string \<Rightarrow> string result" where
  "parse_upstream_host E v =
     (case make_address E v of
        Some address \<Rightarrow> Inr address
      | None \<Rightarrow> bind_result (validate_dns_hostname v) (\<lambda>_. Inr v))"

definition segment_char :: "char \<Rightarrow> bool" where
  "segment_char c \<longleftrightarrow>
     isalnum c \<or> c = CHR ''-'' \<or> c = CHR ''.'' \<or> c = CHR ''_'' \<or> c = CHR ''~''"

definition segment_check :: "string \<Rightarrow> unit result" where
  "segment_check segment =
     require (\<not> (segment = [] \<or> segment = ''.'' \<or> segment = ''..'' \<or> \<not> list_all segment_char segment))
       ''APIGATE_ROUTES prefix contains an invalid path segment''"

text \<open>The loop over the segments, on the rest of the prefix.\<close>

function segment_loop :: "string \<Rightarrow> unit result" where
  "segment_loop rest =
     (case sv_find CHR ''/'' rest of
        None \<Rightarrow> segment_check rest
      | Some stop \<Rightarrow>
          (case segment_check (take stop rest) of
             Inl e \<Rightarrow> Inl e
           | Inr _ \<Rightarrow> segment_loop (drop (stop + 1) rest)))"
  by pat_completeness auto
termination
  by (relation "measure length") (auto dest: sv_find_SomeD(1))

declare segment_loop.simps [simp del]

definition validate_route_prefix :: "string \<Rightarrow> unit result" where
  "validate_route_prefix prefix =
     (if prefix = [] \<or> hd prefix \<noteq> CHR ''/''
      then Inl (Config_error (''APIGATE_ROUTES prefix must start with '' @
        [CHR 0x27, CHR ''/'', CHR 0x27]))
      else if prefix = ''/'' then Inr ()
      else segment_loop (drop 1 prefix))"

section \<open>The parser callback\<close>

record callback_state =
  cb_keys :: "string set list"
  cb_route_key :: string
  cb_object_count :: nat
  cb_upstream_count :: nat
  cb_in_upstreams :: bool
  cb_auth_key :: string
  cb_in_key_envs :: bool
  cb_reference_count :: nat

definition callback_new :: callback_state where
  "callback_new =
     \<lparr>cb_keys = [{}, {}, {}], cb_route_key = [], cb_object_count = 0, cb_upstream_count = 0,
      cb_in_upstreams = False, cb_auth_key = [], cb_in_key_envs = False, cb_reference_count = 0\<rparr>"

fun parse_callback :: "callback_state \<Rightarrow> nat \<Rightarrow> parse_event \<Rightarrow> callback_state result" where
  "parse_callback cb depth Ev_array_start =
     (if depth \<noteq> 0 then
        if depth = 2 \<and> cb_route_key cb = ''upstreams'' then
          Inr (cb\<lparr>cb_upstream_count := 0, cb_in_upstreams := True\<rparr>)
        else if depth = 3 \<and> cb_route_key cb = ''auth'' \<and> cb_auth_key cb = ''api_key_envs'' then
          Inr (cb\<lparr>cb_reference_count := 0, cb_in_key_envs := True\<rparr>)
        else Inl (Config_error ''APIGATE_ROUTES contains an invalid nested array'')
      else Inr cb)"
| "parse_callback cb depth Ev_array_end =
     (if depth = 2 then Inr (cb\<lparr>cb_in_upstreams := False\<rparr>)
      else if depth = 3 then Inr (cb\<lparr>cb_in_key_envs := False\<rparr>)
      else Inr cb)"
| "parse_callback cb depth (Ev_value parsed) =
     (if depth = 4 \<and> cb_in_key_envs cb then
        let cb' = cb\<lparr>cb_reference_count := cb_reference_count cb + 1\<rparr> in
        (case parsed of
           JString s \<Rightarrow>
             if s = [] \<or> max_keys < cb_reference_count cb'
             then Inl (Config_error ''APIGATE_ROUTES auth requires 1-4 nonempty key references'')
             else Inr cb'
         | _ \<Rightarrow> Inl (Config_error ''APIGATE_ROUTES auth requires 1-4 nonempty key references''))
      else Inr cb)"
| "parse_callback cb depth Ev_object_start =
     (if depth = 1 then
        if 32 < cb_object_count cb + 1
        then Inl (Config_error ''APIGATE_ROUTES must contain at most 32 route objects'')
        else Inr (cb\<lparr>cb_object_count := cb_object_count cb + 1, cb_keys := (cb_keys cb)[0 := {}]\<rparr>)
      else if depth = 2 \<and> (cb_route_key cb = ''rate_limit'' \<or> cb_route_key cb = ''health_check'' \<or>
          cb_route_key cb = ''auth'') then
        Inr (cb\<lparr>cb_keys := (cb_keys cb)[1 := {}], cb_auth_key := []\<rparr>)
      else if depth = 3 \<and> cb_in_upstreams cb \<and> cb_route_key cb = ''upstreams'' then
        if 16 < cb_upstream_count cb + 1
        then Inl (Config_error ''APIGATE_ROUTES upstreams must contain at most 16 entries'')
        else Inr (cb\<lparr>cb_upstream_count := cb_upstream_count cb + 1, cb_keys := (cb_keys cb)[2 := {}]\<rparr>)
      else Inl (Config_error ''APIGATE_ROUTES contains an invalid nested object''))"
| "parse_callback cb depth Ev_object_end = Inr cb"
| "parse_callback cb depth (Ev_key key) =
     bind_result
       (if depth = 3 \<and> cb_route_key cb = ''auth'' then
          if key \<noteq> ''api_key_env'' \<and> key \<noteq> ''api_key_envs''
          then Inl (Config_error ''APIGATE_ROUTES auth contains an unknown field'')
          else Inr (cb\<lparr>cb_auth_key := key\<rparr>)
        else Inr cb)
       (\<lambda>cb. if depth < 2 \<or> 4 < depth \<or> key \<in> cb_keys cb ! (depth - 2)
         then Inl (Config_error ''APIGATE_ROUTES contains a duplicate object field'')
         else
           let cb = cb\<lparr>cb_keys := (cb_keys cb)[depth - 2 := insert key (cb_keys cb ! (depth - 2))]\<rparr> in
           Inr (if depth = 2 then cb\<lparr>cb_route_key := key\<rparr> else cb))"

fun run_callback :: "callback_state \<Rightarrow> (nat \<times> parse_event) list \<Rightarrow> callback_state result" where
  "run_callback cb [] = Inr cb"
| "run_callback cb ((depth, event) # es) =
     bind_result (parse_callback cb depth event) (\<lambda>cb. run_callback cb es)"

section \<open>Routes\<close>

definition route_integer :: "json \<Rightarrow> nat \<Rightarrow> nat result" where
  "route_integer v maximum =
     (case v of
        JNumber n \<Rightarrow>
          if n < 0 then Inl (Config_error ''APIGATE_ROUTES integer field must be a positive integer'')
          else if n = 0 \<or> int maximum < n
          then Inl (Config_error ''APIGATE_ROUTES integer field is out of range'')
          else Inr (nat n)
      | _ \<Rightarrow> Inl (Config_error ''APIGATE_ROUTES integer field must be a positive integer''))"

definition is_string :: "json \<Rightarrow> bool" where
  "is_string v = (case v of JString _ \<Rightarrow> True | _ \<Rightarrow> False)"

definition get_string :: "json \<Rightarrow> string" where
  "get_string v = (case v of JString s \<Rightarrow> s | _ \<Rightarrow> [])"

definition is_object :: "json \<Rightarrow> bool" where
  "is_object v = (case v of JObject _ \<Rightarrow> True | _ \<Rightarrow> False)"

definition is_boolean :: "json \<Rightarrow> bool" where
  "is_boolean v = (case v of JBool _ \<Rightarrow> True | _ \<Rightarrow> False)"

definition get_boolean :: "json \<Rightarrow> bool" where
  "get_boolean v = (case v of JBool b \<Rightarrow> b | _ \<Rightarrow> False)"

definition parse_scheme :: "json \<Rightarrow> upstream_scheme result" where
  "parse_scheme entry =
     (if json_contains entry ''scheme'' then
        let v = json_at entry ''scheme'' in
        if \<not> is_string v \<or> (v \<noteq> JString ''http'' \<and> v \<noteq> JString ''https'')
        then Inl (Config_error ''APIGATE_ROUTES scheme must be http or https'')
        else Inr (if v = JString ''https'' then Https else Http)
      else Inr Http)"

definition parse_route_upstream :: "config_lib \<Rightarrow> json \<Rightarrow> upstream_config result" where
  "parse_route_upstream E entry =
     (if \<not> is_object entry \<or> \<not> json_contains entry ''host'' \<or> \<not> json_contains entry ''port'' \<or>
        \<not> is_string (json_at entry ''host'')
      then Inl (Config_error ''APIGATE_ROUTES upstream requires string host and integer port'')
      else let host = get_string (json_at entry ''host'') in
        bind_result
          (case (if host = [] then Inl (Config_error ''empty host'') else parse_upstream_host E host) of
             Inl _ \<Rightarrow> Inl (Config_error ''APIGATE_ROUTES host must be a valid hostname or IP address'')
           | Inr h \<Rightarrow> Inr h) (\<lambda>validated_host.
        bind_result (route_integer (json_at entry ''port'') 65535) (\<lambda>port.
        bind_result
          (if json_contains entry ''timeout_ms'' then route_integer (json_at entry ''timeout_ms'') 60000
           else Inr 3000) (\<lambda>timeout.
        bind_result (parse_scheme entry) (\<lambda>scheme.
          Inr \<lparr>up_host = validated_host, up_port = of_nat port, up_timeout_ms = of_nat timeout,
               up_scheme = scheme\<rparr>)))))"

definition only_keys :: "json \<Rightarrow> string list \<Rightarrow> bool" where
  "only_keys v ks = list_all (\<lambda>k. k \<in> set ks) (json_keys v)"

definition parse_pool_entry :: "config_lib \<Rightarrow> json \<Rightarrow> upstream_config result" where
  "parse_pool_entry E backend =
     bind_result (require (is_object backend) ''APIGATE_ROUTES upstream entry must be an object'') (\<lambda>_.
     bind_result (require (only_keys backend [''host'', ''port'', ''timeout_ms'', ''scheme''])
       ''APIGATE_ROUTES upstream entry contains an unknown field'') (\<lambda>_.
       parse_route_upstream E backend))"

definition parse_upstreams :: "config_lib \<Rightarrow> json \<Rightarrow> upstream_config list result" where
  "parse_upstreams E entry =
     (if json_contains entry ''upstreams'' then
        if json_contains entry ''host'' \<or> json_contains entry ''port'' \<or>
          json_contains entry ''timeout_ms'' \<or> json_contains entry ''scheme''
        then Inl (Config_error ''APIGATE_ROUTES upstreams conflicts with route-level upstream fields'')
        else (case json_at entry ''upstreams'' of
          JArray pool \<Rightarrow>
            if pool = [] \<or> 16 < length pool
            then Inl (Config_error ''APIGATE_ROUTES upstreams must contain 1-16 upstream objects'')
            else map_result (parse_pool_entry E) pool
        | _ \<Rightarrow> Inl (Config_error ''APIGATE_ROUTES upstreams must contain 1-16 upstream objects''))
      else bind_result (parse_route_upstream E entry) (\<lambda>u. Inr [u]))"

definition parse_rate_limit :: "json \<Rightarrow> rate_limit_config option result" where
  "parse_rate_limit entry =
     (if json_contains entry ''rate_limit'' then
        let limit = json_at entry ''rate_limit'' in
        if \<not> is_object limit \<or> length (json_keys limit) \<noteq> 2 \<or>
          \<not> json_contains limit ''requests_per_second'' \<or> \<not> json_contains limit ''burst''
        then Inl (Config_error ''APIGATE_ROUTES rate_limit requires only requests_per_second and burst'')
        else
          bind_result (route_integer (json_at limit ''requests_per_second'') 1000000) (\<lambda>rps.
          bind_result (route_integer (json_at limit ''burst'') 1000000) (\<lambda>b.
            Inr (Some \<lparr>requests_per_second = of_nat rps, burst = of_nat b\<rparr>)))
      else Inr None)"

definition health_integer :: "json \<Rightarrow> string \<Rightarrow> nat \<Rightarrow> nat \<Rightarrow> nat \<Rightarrow> u32 result" where
  "health_integer health field default_value minimum maximum =
     bind_result
       (if json_contains health field then route_integer (json_at health field) maximum
        else Inr default_value) (\<lambda>number.
       if number < minimum
       then Inl (Config_error ''APIGATE_ROUTES health_check number is out of range'')
       else Inr (of_nat number))"

definition parse_health_check :: "json \<Rightarrow> health_check_config option result" where
  "parse_health_check entry =
     (if json_contains entry ''health_check'' then
        let health = json_at entry ''health_check'' in
        bind_result (require (is_object health \<and> json_contains health ''path'' \<and>
            is_string (json_at health ''path''))
          ''APIGATE_ROUTES health_check requires a path string'') (\<lambda>_.
        bind_result (require (only_keys health
            [''path'', ''interval_ms'', ''timeout_ms'', ''unhealthy_threshold'', ''healthy_threshold''])
          ''APIGATE_ROUTES health_check contains an unknown field'') (\<lambda>_.
        let path = get_string (json_at health ''path'') in
        bind_result (require (path \<noteq> [] \<and> hd path = CHR ''/'' \<and>
            \<not> list_ex (\<lambda>c. (of_char c :: nat) \<le> 32 \<or> (of_char c :: nat) = 127 \<or> c = CHR ''?'' \<or>
              c = CHR 0x23) path)
          ''APIGATE_ROUTES health_check path must be a path without query or fragment'') (\<lambda>_.
        bind_result (health_integer health ''interval_ms'' 5000 100 60000) (\<lambda>interval.
        bind_result (health_integer health ''timeout_ms'' 1000 50 60000) (\<lambda>timeout.
        bind_result (health_integer health ''unhealthy_threshold'' 3 1 10) (\<lambda>unhealthy.
        bind_result (health_integer health ''healthy_threshold'' 2 1 10) (\<lambda>healthy.
        bind_result (require (\<not> interval < timeout)
          ''APIGATE_ROUTES health_check timeout must not exceed interval'') (\<lambda>_.
          Inr (Some \<lparr>hc_path = path, hc_interval_ms = interval, hc_timeout_ms = timeout,
                     hc_unhealthy_threshold = unhealthy, hc_healthy_threshold = healthy\<rparr>)))))))))
      else Inr None)"

definition auth_references :: "json \<Rightarrow> string list result" where
  "auth_references settings =
     (if json_contains settings ''api_key_env'' then
        let reference = json_at settings ''api_key_env'' in
        if \<not> is_string reference
        then Inl (Config_error ''APIGATE_ROUTES auth requires an api_key_env string'')
        else Inr [get_string reference]
      else (case json_at settings ''api_key_envs'' of
        JArray values \<Rightarrow>
          if values = [] \<or> max_keys < length values
          then Inl (Config_error ''APIGATE_ROUTES auth requires 1-4 nonempty key references'')
          else map_result (\<lambda>reference.
            if \<not> is_string reference \<or> get_string reference = []
            then Inl (Config_error ''APIGATE_ROUTES auth requires 1-4 nonempty key references'')
            else Inr (get_string reference)) values
      | _ \<Rightarrow> Inl (Config_error ''APIGATE_ROUTES auth requires 1-4 nonempty key references'')))"

text \<open>The loop over the references; \<open>seen\<close> are the ones before.\<close>

fun auth_loop ::
  "config_lib \<Rightarrow> openssl \<Rightarrow> string list \<Rightarrow> string set \<Rightarrow> api_key_auth_config \<Rightarrow>
   api_key_auth_config result" where
  "auth_loop E S [] seen configured = Inr configured"
| "auth_loop E S (reference # references) seen configured =
     (if \<not> valid_api_key_reference reference
      then Inl (Config_error ''APIGATE_ROUTES auth key reference is invalid'')
      else if reference \<in> seen
      then Inl (Config_error ''authentication key configuration contains duplicates'')
      else (case getenv E reference of
        None \<Rightarrow> Inl (Config_error ''referenced authentication key is missing or invalid'')
      | Some key_value \<Rightarrow>
          if \<not> valid_api_key key_value
          then Inl (Config_error ''referenced authentication key is missing or invalid'')
          else (case hash_api_key S key_value of
            Inl _ \<Rightarrow> Inl (Config_error ''authentication key configuration failed'')
          | Inr digest \<Rightarrow>
              if matches_api_key_digest S configured digest
              then Inl (Config_error ''authentication key configuration contains duplicates'')
              else auth_loop E S references (insert reference seen)
                (configured\<lparr>auth_digests := (auth_digests configured)[auth_key_count configured := digest],
                            auth_key_count := auth_key_count configured + 1\<rparr>))))"

definition parse_auth :: "config_lib \<Rightarrow> openssl \<Rightarrow> json \<Rightarrow> api_key_auth_config option result" where
  "parse_auth E S entry =
     (if json_contains entry ''auth'' then
        let settings = json_at entry ''auth'' in
        bind_result (require (is_object settings \<and> length (json_keys settings) = 1 \<and>
            (json_contains settings ''api_key_env'' \<or> json_contains settings ''api_key_envs''))
          ''APIGATE_ROUTES auth requires exactly one key reference field'') (\<lambda>_.
        bind_result (auth_references settings) (\<lambda>references.
        bind_result (auth_loop E S references {} ApiKeyAuthConfig_default) (\<lambda>configured.
          Inr (Some configured))))
      else Inr None)"

definition parse_boolean :: "json \<Rightarrow> string \<Rightarrow> bool result" where
  "parse_boolean entry field =
     (if json_contains entry field then
        if is_boolean (json_at entry field) then Inr (get_boolean (json_at entry field))
        else Inl (Config_error (''APIGATE_ROUTES '' @ field @ '' must be a boolean''))
      else Inr False)"

definition parse_route_entry ::
  "config_lib \<Rightarrow> openssl \<Rightarrow> string set \<Rightarrow> json \<Rightarrow> route_config result" where
  "parse_route_entry E S prefixes entry =
     bind_result (require (is_object entry \<and> json_contains entry ''prefix'')
       ''APIGATE_ROUTES entry requires prefix and an upstream configuration'') (\<lambda>_.
     bind_result (require (only_keys entry [''prefix'', ''host'', ''port'', ''timeout_ms'', ''strip_prefix'',
         ''rate_limit'', ''upstreams'', ''scheme'', ''health_check'', ''auth'', ''stream_response''])
       ''APIGATE_ROUTES entry contains an unknown field'') (\<lambda>_.
     bind_result (require (is_string (json_at entry ''prefix''))
       ''APIGATE_ROUTES prefix must be a string'') (\<lambda>_.
     let prefix = get_string (json_at entry ''prefix'') in
     bind_result (validate_route_prefix prefix) (\<lambda>_.
     bind_result (require (prefix \<notin> prefixes) ''APIGATE_ROUTES contains a duplicate prefix'') (\<lambda>_.
     bind_result (parse_upstreams E entry) (\<lambda>upstreams.
     bind_result (parse_boolean entry ''strip_prefix'') (\<lambda>strip_prefix.
     bind_result (parse_rate_limit entry) (\<lambda>rate_limit.
     bind_result (parse_health_check entry) (\<lambda>health_check.
     bind_result (parse_auth E S entry) (\<lambda>auth.
     bind_result (parse_boolean entry ''stream_response'') (\<lambda>stream_response.
       Inr \<lparr>route_prefix = prefix, route_upstreams = upstreams, route_strip_prefix = strip_prefix,
            route_rate_limit = rate_limit, route_health_check = health_check, route_auth = auth,
            route_stream_response = stream_response\<rparr>)))))))))))"

fun routes_loop ::
  "config_lib \<Rightarrow> openssl \<Rightarrow> string set \<Rightarrow> json list \<Rightarrow> route_config list result" where
  "routes_loop E S prefixes [] = Inr []"
| "routes_loop E S prefixes (entry # entries) =
     bind_result (parse_route_entry E S prefixes entry) (\<lambda>route.
     bind_result (routes_loop E S (insert (route_prefix route) prefixes) entries) (\<lambda>routes.
       Inr (route # routes)))"

definition parse_routes :: "config_lib \<Rightarrow> openssl \<Rightarrow> string \<Rightarrow> route_config list result" where
  "parse_routes E S v =
     (if 65536 < length v then Inl (Config_error ''APIGATE_ROUTES must not exceed 65536 bytes'')
      else (case json_parse E v of
        (events, outcome) \<Rightarrow>
          bind_result (run_callback callback_new events) (\<lambda>_.
          (case outcome of
             None \<Rightarrow> Inl (Config_error ''APIGATE_ROUTES must contain valid JSON'')
           | Some (JArray entries) \<Rightarrow>
               if entries = [] \<or> 32 < length entries
               then Inl (Config_error ''APIGATE_ROUTES must contain 1-32 route objects'')
               else routes_loop E S {} entries
           | Some _ \<Rightarrow> Inl (Config_error ''APIGATE_ROUTES must contain 1-32 route objects'')))))"

section \<open>The configuration\<close>

definition with_environment ::
  "config_lib \<Rightarrow> string \<Rightarrow> (string \<Rightarrow> app_config \<Rightarrow> app_config result) \<Rightarrow> app_config \<Rightarrow>
   app_config result" where
  "with_environment E name f config =
     bind_result (read_environment E name) (\<lambda>v.
       case v of None \<Rightarrow> Inr config | Some s \<Rightarrow> f s config)"

definition parse_flag :: "string \<Rightarrow> string \<Rightarrow> bool result" where
  "parse_flag name v =
     (if v \<noteq> ''true'' \<and> v \<noteq> ''false'' then Inl (Config_error (name @ '' must be true or false''))
      else Inr (v = ''true''))"

definition load_settings :: "config_lib \<Rightarrow> app_config \<Rightarrow> app_config result" where
  "load_settings E c =
     bind_result (with_environment E ''APIGATE_UPSTREAM_KEEP_ALIVE'' (\<lambda>v c.
       bind_result (parse_flag ''APIGATE_UPSTREAM_KEEP_ALIVE'' v) (\<lambda>b.
         Inr (c\<lparr>cfg_upstream_keep_alive := b\<rparr>))) c) (\<lambda>c.
     bind_result (with_environment E ''APIGATE_METRICS_ENABLED'' (\<lambda>v c.
       bind_result (parse_flag ''APIGATE_METRICS_ENABLED'' v) (\<lambda>b.
         Inr (c\<lparr>cfg_metrics_enabled := b\<rparr>))) c) (\<lambda>c.
     bind_result (with_environment E ''APIGATE_SERVICE_NAME'' (\<lambda>v c.
       bind_result (validate_label v ''APIGATE_SERVICE_NAME'') (\<lambda>_.
         Inr (c\<lparr>cfg_service_name := v\<rparr>))) c) (\<lambda>c.
     bind_result (with_environment E ''APIGATE_ENVIRONMENT'' (\<lambda>v c.
       bind_result (validate_label v ''APIGATE_ENVIRONMENT'') (\<lambda>_.
         Inr (c\<lparr>cfg_environment := v\<rparr>))) c) (\<lambda>c.
     bind_result (with_environment E ''APIGATE_LOG_LEVEL'' (\<lambda>v c.
       bind_result (parse_log_level v) (\<lambda>l. Inr (c\<lparr>cfg_log_level := l\<rparr>))) c) (\<lambda>c.
     bind_result (with_environment E ''APIGATE_LISTEN_ADDRESS'' (\<lambda>v c.
       bind_result (parse_listen_address E v) (\<lambda>a. Inr (c\<lparr>cfg_listen_address := a\<rparr>))) c) (\<lambda>c.
     bind_result (with_environment E ''APIGATE_LISTEN_PORT'' (\<lambda>v c.
       bind_result (parse_listen_port v) (\<lambda>p. Inr (c\<lparr>cfg_listen_port := p\<rparr>))) c) (\<lambda>c.
     bind_result (with_environment E ''APIGATE_MAX_CONNECTIONS'' (\<lambda>v c.
       bind_result (parse_capacity_limit v ''APIGATE_MAX_CONNECTIONS'') (\<lambda>n.
         Inr (c\<lparr>cfg_max_connections := n\<rparr>))) c) (\<lambda>c.
     bind_result (with_environment E ''APIGATE_MAX_CONCURRENT_PROXIES'' (\<lambda>v c.
       bind_result (parse_capacity_limit v ''APIGATE_MAX_CONCURRENT_PROXIES'') (\<lambda>n.
         Inr (c\<lparr>cfg_max_concurrent_proxies := n\<rparr>))) c) (\<lambda>c.
     bind_result (with_environment E ''APIGATE_MAX_IN_FLIGHT_BYTES'' (\<lambda>v c.
       bind_result (parse_max_in_flight_bytes v) (\<lambda>n.
         Inr (c\<lparr>cfg_max_in_flight_bytes := n\<rparr>))) c) (\<lambda>c.
     with_environment E ''APIGATE_SHUTDOWN_GRACE_MS'' (\<lambda>v c.
       bind_result (parse_bounded_milliseconds v ''APIGATE_SHUTDOWN_GRACE_MS'') (\<lambda>n.
         Inr (c\<lparr>cfg_shutdown_grace_ms := n\<rparr>))) c))))))))))"

definition load_routes ::
  "config_lib \<Rightarrow> openssl \<Rightarrow> tls_lib \<Rightarrow> string \<Rightarrow> app_config \<Rightarrow> app_config result" where
  "load_routes E S T v config =
     bind_result (parse_routes E S v) (\<lambda>routes.
     let config = config\<lparr>cfg_routes := routes\<rparr> in
     bind_result (require
         (\<not> (cfg_downstream_tls_context config = None \<and> list_ex (\<lambda>r. route_auth r \<noteq> None) routes))
       ''protected routes require downstream TLS'') (\<lambda>_.
     let https_enabled =
       list_ex (\<lambda>r. list_ex (\<lambda>u. up_scheme u = Https) (route_upstreams r)) routes in
     bind_result (read_environment E ''APIGATE_UPSTREAM_CA_FILE'') (\<lambda>ca_file.
     bind_result (make_upstream_tls_context T ca_file https_enabled) (\<lambda>trust.
       Inr (config\<lparr>cfg_upstream_tls_context := trust\<rparr>)))))"

definition load_upstream :: "config_lib \<Rightarrow> tls_lib \<Rightarrow> app_config \<Rightarrow> app_config result" where
  "load_upstream E T config =
     bind_result (read_environment E ''APIGATE_UPSTREAM_HOST'') (\<lambda>upstream_host.
     bind_result (read_environment E ''APIGATE_UPSTREAM_PORT'') (\<lambda>upstream_port.
     bind_result (read_environment E ''APIGATE_UPSTREAM_TIMEOUT_MS'') (\<lambda>upstream_timeout.
     bind_result (require
         (\<not> ((upstream_host \<noteq> None) \<noteq> (upstream_port \<noteq> None) \<or>
             (upstream_timeout \<noteq> None \<and> upstream_host = None)))
       (''APIGATE_UPSTREAM_HOST and APIGATE_UPSTREAM_PORT must be set together; '' @
        ''APIGATE_UPSTREAM_TIMEOUT_MS requires both'')) (\<lambda>_.
     bind_result
       (case (upstream_host, upstream_port) of
          (Some host, Some port) \<Rightarrow>
            bind_result (parse_upstream_host E host) (\<lambda>h.
            bind_result (parse_upstream_port port) (\<lambda>p.
            bind_result
              (case upstream_timeout of
                 None \<Rightarrow> Inr 3000
               | Some t \<Rightarrow> parse_bounded_milliseconds t ''APIGATE_UPSTREAM_TIMEOUT_MS'') (\<lambda>timeout.
              Inr (config\<lparr>cfg_upstream := Some \<lparr>up_host = h, up_port = p, up_timeout_ms = timeout,
                up_scheme = Http\<rparr>\<rparr>))))
        | _ \<Rightarrow> Inr config) (\<lambda>config.
     bind_result (read_environment E ''APIGATE_UPSTREAM_CA_FILE'') (\<lambda>ca_file.
     bind_result (make_upstream_tls_context T ca_file False) (\<lambda>trust.
       Inr (config\<lparr>cfg_upstream_tls_context := trust\<rparr>))))))))"

definition load_config_from_environment ::
  "config_lib \<Rightarrow> openssl \<Rightarrow> tls_lib \<Rightarrow> app_config result" where
  "load_config_from_environment E S T =
     bind_result (read_environment E ''APIGATE_TLS_CERT_FILE'') (\<lambda>cert.
     bind_result (read_environment E ''APIGATE_TLS_KEY_FILE'') (\<lambda>key.
     bind_result (make_downstream_tls_context T cert key) (\<lambda>downstream.
     bind_result (load_settings E (AppConfig_default\<lparr>cfg_downstream_tls_context := downstream\<rparr>))
       (\<lambda>config.
     bind_result (require
         (\<not> (getenv E ''APIGATE_ROUTES'' \<noteq> None \<and>
            (getenv E ''APIGATE_UPSTREAM_HOST'' \<noteq> None \<or> getenv E ''APIGATE_UPSTREAM_PORT'' \<noteq> None \<or>
             getenv E ''APIGATE_UPSTREAM_TIMEOUT_MS'' \<noteq> None)))
       ''APIGATE_ROUTES conflicts with legacy upstream variables'') (\<lambda>_.
     bind_result (read_environment E ''APIGATE_ROUTES'') (\<lambda>routes.
       case routes of
         Some v \<Rightarrow> load_routes E S T v config
       | None \<Rightarrow> load_upstream E T config))))))"

section \<open>Specification of a valid configuration\<close>

definition segment_ok :: "string \<Rightarrow> bool" where
  "segment_ok seg \<longleftrightarrow> seg \<noteq> [] \<and> seg \<noteq> ''.'' \<and> seg \<noteq> ''..'' \<and> list_all segment_char seg"

text \<open>A prefix is the root, or one or more good segments with a slash before each.\<close>

definition prefix_ok :: "string \<Rightarrow> bool" where
  "prefix_ok p \<longleftrightarrow>
     p = ''/'' \<or>
     (\<exists>segs. segs \<noteq> [] \<and> p = concat (map (\<lambda>seg. CHR ''/'' # seg) segs) \<and> list_all segment_ok segs)"

definition upstream_ok :: "upstream_config \<Rightarrow> bool" where
  "upstream_ok u \<longleftrightarrow>
     up_port u \<noteq> 0 \<and> 1 \<le> unat (up_timeout_ms u) \<and> unat (up_timeout_ms u) \<le> 60000"

definition health_config_ok :: "health_check_config \<Rightarrow> bool" where
  "health_config_ok h \<longleftrightarrow>
     thresholds_ok h \<and> 100 \<le> unat (hc_interval_ms h) \<and> unat (hc_interval_ms h) \<le> 60000 \<and>
     50 \<le> unat (hc_timeout_ms h) \<and> unat (hc_timeout_ms h) \<le> unat (hc_interval_ms h)"

definition auth_ok :: "api_key_auth_config \<Rightarrow> bool" where
  "auth_ok a \<longleftrightarrow>
     auth_config_ok a \<and> 1 \<le> auth_key_count a \<and> auth_key_count a \<le> max_keys \<and>
     distinct (take (auth_key_count a) (auth_digests a))"

definition route_ok :: "route_config \<Rightarrow> bool" where
  "route_ok r \<longleftrightarrow>
     prefix_ok (route_prefix r) \<and>
     1 \<le> length (route_upstreams r) \<and> length (route_upstreams r) \<le> 16 \<and>
     list_all upstream_ok (route_upstreams r) \<and>
     (case route_rate_limit r of None \<Rightarrow> True | Some c \<Rightarrow> limit_in_range c) \<and>
     (case route_health_check r of None \<Rightarrow> True | Some h \<Rightarrow> health_config_ok h) \<and>
     (case route_auth r of None \<Rightarrow> True | Some a \<Rightarrow> auth_ok a)"

definition settings_ok :: "app_config \<Rightarrow> bool" where
  "settings_ok c \<longleftrightarrow>
     cfg_max_connections c \<noteq> 0 \<and> cfg_max_concurrent_proxies c \<noteq> 0 \<and>
     1 \<le> unat (cfg_max_in_flight_bytes c) \<and> unat (cfg_max_in_flight_bytes c) \<le> 1073741824 \<and>
     1 \<le> unat (cfg_shutdown_grace_ms c) \<and> unat (cfg_shutdown_grace_ms c) \<le> 60000"

definition config_ok :: "app_config \<Rightarrow> bool" where
  "config_ok c \<longleftrightarrow>
     settings_ok c \<and> (cfg_upstream c = None \<or> cfg_routes c = []) \<and>
     (case cfg_upstream c of None \<Rightarrow> True | Some u \<Rightarrow> upstream_ok u \<and> up_scheme u = Http) \<and>
     length (cfg_routes c) \<le> 32 \<and> distinct (map route_prefix (cfg_routes c)) \<and>
     list_all route_ok (cfg_routes c) \<and>
     (\<forall>r \<in> set (cfg_routes c). route_auth r \<noteq> None \<longrightarrow> cfg_downstream_tls_context c \<noteq> None) \<and>
     (\<forall>r \<in> set (cfg_routes c). \<forall>u \<in> set (route_upstreams r). up_scheme u = Https \<longrightarrow>
        cfg_upstream_tls_context c \<noteq> None)"

section \<open>Lemmas on single values\<close>

lemma require_Inr [simp]: "require ok m = Inr u \<longleftrightarrow> ok"
  by (cases u) (simp add: require_def)

lemma unat_of_nat_small: "n < 2 ^ LENGTH('a) \<Longrightarrow> unat (of_nat n :: 'a :: len word) = n"
  by (simp add: unat_of_nat)

lemma capacity_limit_nonzero: "parse_capacity_limit v name = Inr n \<Longrightarrow> n \<noteq> 0"
proof -
  assume "parse_capacity_limit v name = Inr n"
  then obtain k where "n = of_nat k" "0 < k" "k \<le> 65535"
    by (auto simp: parse_capacity_limit_def split: prod.splits option.splits if_splits)
  then have "unat n = k" by (simp add: unat_of_nat_small)
  with \<open>0 < k\<close> show "n \<noteq> 0" by auto
qed

lemma bounded_milliseconds:
  "parse_bounded_milliseconds v name = Inr n \<Longrightarrow> 1 \<le> unat n \<and> unat n \<le> 60000"
  by (auto simp: parse_bounded_milliseconds_def unat_of_nat_small
      split: prod.splits option.splits if_splits)

lemma in_flight_bytes:
  "parse_max_in_flight_bytes v = Inr n \<Longrightarrow> 1 \<le> unat n \<and> unat n \<le> 1073741824"
  by (auto simp: parse_max_in_flight_bytes_def unat_of_nat_small
      split: prod.splits option.splits if_splits)

lemma upstream_port_nonzero: "parse_upstream_port v = Inr n \<Longrightarrow> n \<noteq> 0"
proof -
  assume "parse_upstream_port v = Inr n"
  then obtain k where "n = of_nat k" "0 < k" "k \<le> 65535"
    by (auto simp: parse_upstream_port_def split: prod.splits option.splits if_splits)
  then have "unat n = k" by (simp add: unat_of_nat_small)
  with \<open>0 < k\<close> show "n \<noteq> 0" by auto
qed

lemma route_integer_range: "route_integer v m = Inr n \<Longrightarrow> 1 \<le> n \<and> n \<le> m"
  by (auto simp: route_integer_def split: json.splits if_splits)

lemma segment_check_iff: "segment_check seg = Inr u \<longleftrightarrow> segment_ok seg"
  by (simp add: segment_check_def segment_ok_def)

lemma segment_no_slash: "segment_ok seg \<Longrightarrow> CHR ''/'' \<notin> set seg"
  by (auto simp: segment_ok_def list_all_iff segment_char_def isalnum_def char_between_def)

lemma segment_loop_sound:
  "segment_loop rest = Inr u \<Longrightarrow>
   \<exists>segs. segs \<noteq> [] \<and> CHR ''/'' # rest = concat (map (\<lambda>seg. CHR ''/'' # seg) segs) \<and>
     list_all segment_ok segs"
proof (induction rest rule: segment_loop.induct)
  case (1 rest)
  show ?case
  proof (cases "sv_find CHR ''/'' rest")
    case None
    then show ?thesis
      using 1(2) by (intro exI [where x = "[rest]"])
        (simp add: segment_loop.simps [of rest] segment_check_iff)
  next
    case (Some stop)
    then have ok: "segment_ok (take stop rest)" and "segment_loop (drop (stop + 1) rest) = Inr u"
      using 1(2) segment_check_iff [of "take stop rest"]
      by (auto simp: segment_loop.simps [of rest] split: sum.splits)
    then obtain segs where segs: "segs \<noteq> []"
      "CHR ''/'' # drop (stop + 1) rest = concat (map (\<lambda>seg. CHR ''/'' # seg) segs)"
      "list_all segment_ok segs"
      using 1(1) [OF Some, of "()"] by (auto simp: segment_check_iff)
    have "rest = take stop rest @ CHR ''/'' # drop (Suc stop) rest"
      using sv_find_SomeD(1,2) [OF Some] id_take_nth_drop by metis
    then show ?thesis
      using segs ok by (intro exI [where x = "take stop rest # segs"]) simp
  qed
qed

lemma segment_loop_complete:
  "segs \<noteq> [] \<Longrightarrow> list_all segment_ok segs \<Longrightarrow>
   CHR ''/'' # rest = concat (map (\<lambda>seg. CHR ''/'' # seg) segs) \<Longrightarrow> segment_loop rest = Inr ()"
proof (induction segs arbitrary: rest)
  case Nil
  then show ?case by simp
next
  case (Cons seg segs)
  have ok: "segment_ok seg" using Cons.prems by simp
  note ns = segment_no_slash [OF ok]
  show ?case
  proof (cases segs)
    case Nil
    then have "rest = seg" using Cons.prems by simp
    moreover have "sv_find CHR ''/'' seg = None" using ns by (simp add: sv_find_None)
    ultimately show ?thesis
      using ok by (simp add: segment_loop.simps [of seg] segment_check_iff)
  next
    case (Cons t ts)
    let ?r = "t @ concat (map (\<lambda>seg. CHR ''/'' # seg) ts)"
    have rest: "rest = seg @ CHR ''/'' # ?r"
      using Cons.prems Cons by simp
    have "takeWhile (\<lambda>x. x \<noteq> CHR ''/'') rest = seg"
      using ns by (auto simp: rest takeWhile_append)
    then have f: "sv_find CHR ''/'' rest = Some (length seg)"
      by (simp add: sv_find_def Let_def rest)
    have "segment_loop ?r = Inr ()"
      using Cons.IH [of ?r] Cons.prems Cons by simp
    moreover have "segment_check seg = Inr ()"
      using ok by (simp add: segment_check_iff)
    ultimately show ?thesis
      by (simp add: segment_loop.simps [of rest] f) (simp add: rest)
  qed
qed

lemma validate_route_prefix_iff: "validate_route_prefix p = Inr u \<longleftrightarrow> prefix_ok p"
proof
  assume v: "validate_route_prefix p = Inr u"
  then obtain rest where p: "p = CHR ''/'' # rest"
    by (cases p) (auto simp: validate_route_prefix_def split: if_splits)
  show "prefix_ok p"
  proof (cases "rest = []")
    case True
    then show ?thesis using p by (simp add: prefix_ok_def)
  next
    case False
    then have "segment_loop rest = Inr u"
      using v p by (simp add: validate_route_prefix_def)
    then show ?thesis
      using segment_loop_sound [of rest u] p by (simp add: prefix_ok_def)
  qed
next
  assume "prefix_ok p"
  then show "validate_route_prefix p = Inr u"
  proof (cases "p = ''/''")
    case True
    then show ?thesis by (cases u) (simp add: validate_route_prefix_def)
  next
    case False
    then obtain segs where segs: "segs \<noteq> []" "p = concat (map (\<lambda>seg. CHR ''/'' # seg) segs)"
      "list_all segment_ok segs"
      using \<open>prefix_ok p\<close> by (auto simp: prefix_ok_def)
    then obtain rest where p: "p = CHR ''/'' # rest" by (cases segs) auto
    have "segment_loop rest = Inr ()"
      using segment_loop_complete [OF segs(1,3), of rest] segs(2) p by simp
    then show ?thesis
      using False p by (cases u) (simp add: validate_route_prefix_def)
  qed
qed

section \<open>Routes\<close>

lemma port_nonzero:
  assumes "1 \<le> k" "k \<le> 65535"
  shows "(of_nat k :: u16) \<noteq> 0"
proof -
  have "unat (of_nat k :: u16) = k" using assms by (simp add: unat_of_nat_small)
  then show ?thesis using assms(1) by auto
qed

lemma route_upstream_ok:
  assumes "parse_route_upstream E entry = Inr u"
  shows "upstream_ok u"
proof (cases "\<not> is_object entry \<or> \<not> json_contains entry ''host'' \<or> \<not> json_contains entry ''port'' \<or>
    \<not> is_string (json_at entry ''host'')")
  case True
  then show ?thesis using assms by (simp add: parse_route_upstream_def)
next
  case False
  obtain host port timeout scheme where
    port: "route_integer (json_at entry ''port'') 65535 = Inr port" and
    timeout: "(if json_contains entry ''timeout_ms''
        then route_integer (json_at entry ''timeout_ms'') 60000 else Inr 3000) = Inr timeout" and
    u: "Inr \<lparr>up_host = host, up_port = of_nat port, up_timeout_ms = of_nat timeout,
        up_scheme = scheme\<rparr> = (Inr u :: upstream_config result)"
    using assms unfolding parse_route_upstream_def if_not_P [OF False] Let_def
    by (elim bind_result_InrE) (rule that)
  have "1 \<le> timeout \<and> timeout \<le> 60000"
    using timeout route_integer_range by (auto split: if_splits)
  then show ?thesis
    using route_integer_range [OF port] port_nonzero u
    by (auto simp: upstream_ok_def unat_of_nat_small)
qed

lemma upstreams_ok:
  assumes "parse_upstreams E entry = Inr us"
  shows "1 \<le> length us \<and> length us \<le> 16 \<and> list_all upstream_ok us"
proof (cases "json_contains entry ''upstreams''")
  case False
  then show ?thesis
    using assms route_upstream_ok by (auto simp: parse_upstreams_def elim!: bind_result_InrE)
next
  case True
  then obtain pool where pool: "pool \<noteq> []" "length pool \<le> 16"
    "map_result (parse_pool_entry E) pool = Inr us"
    using assms by (auto simp: parse_upstreams_def split: json.splits if_splits)
  have len: "length us = length pool"
    using pool(3) by (rule map_result_length)
  have "upstream_ok (us ! i)" if "i < length us" for i
    using map_result_nth [OF pool(3), of i] that len
    by (auto simp: parse_pool_entry_def elim!: bind_result_InrE intro: route_upstream_ok)
  then show ?thesis
    using len pool(1,2) by (simp add: list_all_length Suc_le_eq)
qed

lemma rate_limit_ok: "parse_rate_limit entry = Inr (Some c) \<Longrightarrow> limit_in_range c"
proof -
  assume "parse_rate_limit entry = Inr (Some c)"
  then obtain r b v w where "route_integer v 1000000 = Inr r" "route_integer w 1000000 = Inr b"
    "c = \<lparr>requests_per_second = of_nat r, burst = of_nat b\<rparr>"
    by (auto simp: parse_rate_limit_def Let_def elim!: bind_result_InrE split: if_splits)
  moreover from this have "1 \<le> r" "r \<le> 1000000" "1 \<le> b" "b \<le> 1000000"
    using route_integer_range by blast+
  ultimately show ?thesis
    by (simp add: limit_in_range_def unat_of_nat_small)
qed

lemma health_integer_range:
  assumes "health_integer h f d lo hi = Inr n" "lo \<le> d" "d \<le> hi" "hi \<le> 60000"
  shows "lo \<le> unat n \<and> unat n \<le> hi"
proof -
  obtain k where k: "n = of_nat k" "lo \<le> k" "k = d \<or> route_integer (json_at h f) hi = Inr k"
    using assms(1)
    by (auto simp: health_integer_def elim!: bind_result_InrE split: if_splits)
  then have "k \<le> hi" using route_integer_range assms(3) by blast
  then have "unat n = k" using k(1) assms(4) by (simp add: unat_of_nat_small)
  then show ?thesis using k(2) \<open>k \<le> hi\<close> by simp
qed

lemma health_check_ok: "parse_health_check entry = Inr (Some h) \<Longrightarrow> health_config_ok h"
proof -
  assume "parse_health_check entry = Inr (Some h)"
  then obtain v i t u g p where
    i: "health_integer v ''interval_ms'' 5000 100 60000 = Inr i" and
    t: "health_integer v ''timeout_ms'' 1000 50 60000 = Inr t" and
    u: "health_integer v ''unhealthy_threshold'' 3 1 10 = Inr u" and
    g: "health_integer v ''healthy_threshold'' 2 1 10 = Inr g" and
    le: "\<not> i < t" and
    h: "h = \<lparr>hc_path = p, hc_interval_ms = i, hc_timeout_ms = t, hc_unhealthy_threshold = u,
        hc_healthy_threshold = g\<rparr>"
    by (auto simp: parse_health_check_def Let_def elim!: bind_result_InrE split: if_splits)
  from health_integer_range [OF i] health_integer_range [OF t] health_integer_range [OF u]
    health_integer_range [OF g] le
  show ?thesis
    by (simp add: h health_config_ok_def thresholds_ok_def word_less_nat_alt)
qed

definition auth_partial :: "api_key_auth_config \<Rightarrow> bool" where
  "auth_partial a \<longleftrightarrow>
     auth_config_ok a \<and> length (auth_digests a) = max_keys \<and>
     distinct (take (auth_key_count a) (auth_digests a))"

lemma auth_partial_snoc:
  assumes "openssl_ok S" "auth_partial a" "length d = 32" "auth_key_count a < max_keys"
    and "\<not> matches_api_key_digest S a d"
  shows "auth_partial (a\<lparr>auth_digests := (auth_digests a)[auth_key_count a := d],
    auth_key_count := auth_key_count a + 1\<rparr>)"
proof -
  let ?k = "auth_key_count a" and ?ds = "auth_digests a"
  have len: "?k < length ?ds" and d32: "\<forall>x \<in> set ?ds. length x = 32"
    using assms(2,4) by (auto simp: auth_partial_def auth_config_ok_def list_all_iff)
  have fresh: "d \<notin> set (take ?k ?ds)"
    using matches_api_key_digest_iff [OF assms(1,3) d32] len assms(5) by simp
  have "take (Suc ?k) (?ds[?k := d]) = take ?k ?ds @ [d]"
    using len by (simp add: take_Suc_conv_app_nth)
  moreover have "\<forall>x \<in> set (?ds[?k := d]). length x = 32"
    using d32 assms(3) set_update_subset_insert [of ?ds ?k d] by blast
  ultimately show ?thesis
    using assms(2) len fresh by (simp add: auth_partial_def auth_config_ok_def list_all_iff)
qed

lemma auth_loop_ok:
  assumes "openssl_ok S" "auth_loop E S refs seen a = Inr b" "auth_partial a"
    and "auth_key_count a + length refs \<le> max_keys"
  shows "auth_partial b \<and> auth_key_count b = auth_key_count a + length refs"
  using assms(2-4)
proof (induction refs arbitrary: seen a)
  case Nil
  then show ?case by simp
next
  case (Cons r refs)
  let ?next = "\<lambda>d. a\<lparr>auth_digests := (auth_digests a)[auth_key_count a := d],
    auth_key_count := auth_key_count a + 1\<rparr>"
  obtain key d where d: "hash_api_key S key = Inr d" "\<not> matches_api_key_digest S a d"
    "auth_loop E S refs (insert r seen) (?next d) = Inr b"
    using Cons.prems(1) by (auto split: if_splits option.splits sum.splits)
  have "length d = 32"
    using d(1) by (auto simp: hash_api_key_def split: prod.splits if_splits)
  then have "auth_partial (?next d)"
    using Cons.prems d(2) assms(1) by (intro auth_partial_snoc) simp_all
  then show ?case
    using Cons.IH [OF d(3)] Cons.prems(3) by simp
qed

lemma auth_references_count: "auth_references v = Inr refs \<Longrightarrow> 1 \<le> length refs \<and> length refs \<le> max_keys"
  by (auto simp: auth_references_def Let_def max_keys_def Suc_le_eq dest!: map_result_length
      split: if_splits json.splits)

lemma auth_config_loaded:
  assumes "openssl_ok S" "parse_auth E S entry = Inr (Some a)"
  shows "auth_ok a"
proof -
  obtain v refs where refs: "auth_references v = Inr refs"
    "auth_loop E S refs {} ApiKeyAuthConfig_default = Inr a"
    using assms(2) by (auto simp: parse_auth_def Let_def elim!: bind_result_InrE split: if_splits)
  have "auth_partial ApiKeyAuthConfig_default"
    by (simp add: auth_partial_def auth_config_ok_def ApiKeyAuthConfig_default_def list_all_iff)
  then have "auth_partial a \<and> auth_key_count a = 0 + length refs"
    using auth_loop_ok [OF assms(1) refs(2)] auth_references_count [OF refs(1)]
    by (simp add: ApiKeyAuthConfig_default_def)
  then show ?thesis
    using auth_references_count [OF refs(1)] by (auto simp: auth_ok_def auth_partial_def)
qed

lemma route_entry_ok:
  assumes "openssl_ok S" "parse_route_entry E S prefixes entry = Inr r"
  shows "route_ok r \<and> route_prefix r \<notin> prefixes"
proof -
  let ?p = "get_string (json_at entry ''prefix'')"
  obtain u1 u2 us st rl hc au sm where
    p: "validate_route_prefix ?p = Inr u1"
      "require (?p \<notin> prefixes) ''APIGATE_ROUTES contains a duplicate prefix'' = Inr u2" and
    us: "parse_upstreams E entry = Inr us" and rl: "parse_rate_limit entry = Inr rl" and
    hc: "parse_health_check entry = Inr hc" and au: "parse_auth E S entry = Inr au" and
    r: "Inr \<lparr>route_prefix = ?p, route_upstreams = us, route_strip_prefix = st,
         route_rate_limit = rl, route_health_check = hc, route_auth = au,
         route_stream_response = sm\<rparr> = (Inr r :: route_config result)"
    using assms(2) unfolding parse_route_entry_def Let_def
    by (elim bind_result_InrE) (rule that)
  show ?thesis
    using p us upstreams_ok [OF us] rl hc au r rate_limit_ok health_check_ok
      auth_config_loaded [OF assms(1)]
    by (auto simp: route_ok_def validate_route_prefix_iff split: option.split)
qed

lemma routes_loop_ok:
  assumes "openssl_ok S"
  shows "routes_loop E S prefixes entries = Inr routes \<Longrightarrow>
    length routes = length entries \<and> list_all route_ok routes \<and>
    distinct (map route_prefix routes) \<and> route_prefix ` set routes \<inter> prefixes = {}"
proof (induction entries arbitrary: prefixes routes)
  case Nil
  then show ?case by simp
next
  case (Cons entry entries)
  then obtain r rs where r: "parse_route_entry E S prefixes entry = Inr r"
    "routes_loop E S (insert (route_prefix r) prefixes) entries = Inr rs" "routes = r # rs"
    by (auto elim!: bind_result_InrE)
  then show ?case
    using Cons.IH [OF r(2)] route_entry_ok [OF assms r(1)] by auto
qed

lemma parse_routes_ok:
  assumes "openssl_ok S" "parse_routes E S v = Inr routes"
  shows "1 \<le> length routes \<and> length routes \<le> 32 \<and> list_all route_ok routes \<and>
    distinct (map route_prefix routes)"
proof -
  obtain entries where e: "routes_loop E S {} entries = Inr routes" "entries \<noteq> []"
    "length entries \<le> 32"
    using assms(2)
    by (auto simp: parse_routes_def elim!: bind_result_InrE
        split: if_splits prod.splits option.splits json.splits)
  show ?thesis
    using routes_loop_ok [OF assms(1) e(1)] e(2,3) by (simp add: Suc_le_eq)
qed

section \<open>Loading\<close>

text \<open>What the settings keep: their own ranges, and the fields they do not touch.\<close>

definition settings_frame :: "app_config \<Rightarrow> app_config \<Rightarrow> bool" where
  "settings_frame c0 c \<longleftrightarrow>
     settings_ok c \<and> cfg_routes c = cfg_routes c0 \<and> cfg_upstream c = cfg_upstream c0 \<and>
     cfg_downstream_tls_context c = cfg_downstream_tls_context c0"

lemma with_environment_frame:
  assumes "with_environment E name f c = Inr d" "settings_frame c0 c"
    and "\<And>v d. f v c = Inr d \<Longrightarrow> settings_frame c0 d"
  shows "settings_frame c0 d"
  using assms by (auto simp: with_environment_def elim!: bind_result_InrE split: option.splits)

lemma setting_step:
  assumes "bind_result (with_environment E name f c) g = Inr y" "settings_frame c0 c"
    and "\<And>v d. f v c = Inr d \<Longrightarrow> settings_frame c0 d"
    and "\<And>d. g d = Inr y \<Longrightarrow> settings_frame c0 d \<Longrightarrow> settings_frame c0 y"
  shows "settings_frame c0 y"
  using assms with_environment_frame by (metis bind_result_InrE)

lemma settings_frame_update [simp]:
  "settings_frame c0 (c\<lparr>cfg_upstream_keep_alive := b\<rparr>) = settings_frame c0 c"
  "settings_frame c0 (c\<lparr>cfg_metrics_enabled := b\<rparr>) = settings_frame c0 c"
  "settings_frame c0 (c\<lparr>cfg_service_name := v\<rparr>) = settings_frame c0 c"
  "settings_frame c0 (c\<lparr>cfg_environment := v\<rparr>) = settings_frame c0 c"
  "settings_frame c0 (c\<lparr>cfg_log_level := l\<rparr>) = settings_frame c0 c"
  "settings_frame c0 (c\<lparr>cfg_listen_address := v\<rparr>) = settings_frame c0 c"
  "settings_frame c0 (c\<lparr>cfg_listen_port := p\<rparr>) = settings_frame c0 c"
  by (simp_all add: settings_frame_def settings_ok_def)

lemma settings_frame_limits:
  assumes "settings_frame c0 c"
  shows "n \<noteq> 0 \<Longrightarrow> settings_frame c0 (c\<lparr>cfg_max_connections := n\<rparr>)"
    "n \<noteq> 0 \<Longrightarrow> settings_frame c0 (c\<lparr>cfg_max_concurrent_proxies := n\<rparr>)"
    "1 \<le> unat m \<and> unat m \<le> 1073741824 \<Longrightarrow> settings_frame c0 (c\<lparr>cfg_max_in_flight_bytes := m\<rparr>)"
    "1 \<le> unat k \<and> unat k \<le> 60000 \<Longrightarrow> settings_frame c0 (c\<lparr>cfg_shutdown_grace_ms := k\<rparr>)"
  using assms by (simp_all add: settings_frame_def settings_ok_def)

lemmas settings_frame_intros =
  settings_frame_limits(1) [OF _ capacity_limit_nonzero]
  settings_frame_limits(2) [OF _ capacity_limit_nonzero]
  settings_frame_limits(3) [OF _ in_flight_bytes]
  settings_frame_limits(4) [OF _ bounded_milliseconds]

lemma setting_frame:
  assumes "bind_result r (\<lambda>x. Inr (g x c)) = Inr d" "\<And>x. r = Inr x \<Longrightarrow> settings_frame c0 (g x c)"
  shows "settings_frame c0 d"
  using assms by (auto elim: bind_result_InrE)

lemma load_settings_frame:
  assumes "load_settings E c = Inr c'" "settings_frame c0 c"
  shows "settings_frame c0 c'"
  using assms unfolding load_settings_def
  apply -
  apply (erule (1) setting_step, erule setting_frame, simp only: settings_frame_update)+
  apply (erule (1) setting_step, erule setting_frame, erule (1) settings_frame_intros(1))
  apply (erule (1) setting_step, erule setting_frame, erule (1) settings_frame_intros(2))
  apply (erule (1) setting_step, erule setting_frame, erule (1) settings_frame_intros(3))
  apply (erule (1) with_environment_frame, erule setting_frame, erule (1) settings_frame_intros(4))
  done

lemma load_routes_ok:
  assumes "openssl_ok S" "load_routes E S T v c = Inr c'" "settings_ok c" "cfg_upstream c = None"
  shows "config_ok c'"
proof -
  obtain routes u ca trust where
    routes: "parse_routes E S v = Inr routes" and
    auth: "require (\<not> (cfg_downstream_tls_context (c\<lparr>cfg_routes := routes\<rparr>) = None \<and>
        list_ex (\<lambda>r. route_auth r \<noteq> None) routes)) ''protected routes require downstream TLS'' = Inr u" and
    trust: "make_upstream_tls_context T ca
        (list_ex (\<lambda>r. list_ex (\<lambda>u. up_scheme u = Https) (route_upstreams r)) routes) = Inr trust" and
    c': "Inr (c\<lparr>cfg_routes := routes\<rparr>\<lparr>cfg_upstream_tls_context := trust\<rparr>) = (Inr c' :: app_config result)"
    using assms(2) unfolding load_routes_def Let_def by (elim bind_result_InrE) (rule that)
  have tls: "trust \<noteq> None"
    if "r \<in> set routes" "u \<in> set (route_upstreams r)" "up_scheme u = Https" for r u
  proof -
    have "list_ex (\<lambda>r. list_ex (\<lambda>u. up_scheme u = Https) (route_upstreams r)) routes"
      using that by (auto simp: list_ex_iff)
    then show ?thesis using trust upstream_tls_required [of T ca] by auto
  qed
  show ?thesis
    using c' assms(3,4) parse_routes_ok [OF assms(1) routes] auth tls
    by (auto simp: config_ok_def settings_ok_def list_ex_iff)
qed

lemma load_upstream_ok:
  assumes "load_upstream E T c = Inr c'" "settings_ok c" "cfg_upstream c = None" "cfg_routes c = []"
  shows "config_ok c'"
proof -
  obtain host port timeout c1 ca trust where
    c1: "(case (host, port) of
          (Some host, Some port) \<Rightarrow>
            bind_result (parse_upstream_host E host) (\<lambda>h.
            bind_result (parse_upstream_port port) (\<lambda>p.
            bind_result
              (case timeout of
                 None \<Rightarrow> Inr 3000
               | Some t \<Rightarrow> parse_bounded_milliseconds t ''APIGATE_UPSTREAM_TIMEOUT_MS'') (\<lambda>timeout.
              Inr (c\<lparr>cfg_upstream := Some \<lparr>up_host = h, up_port = p, up_timeout_ms = timeout,
                up_scheme = Http\<rparr>\<rparr>))))
        | _ \<Rightarrow> Inr c) = Inr c1" and
    c': "Inr (c1\<lparr>cfg_upstream_tls_context := trust\<rparr>) = (Inr c' :: app_config result)"
    using assms(1) unfolding load_upstream_def by (elim bind_result_InrE) (rule that)
  have "config_ok (c1\<lparr>cfg_upstream_tls_context := t\<rparr>)" for t
    using c1 assms(2-4)
    by (auto simp: config_ok_def settings_ok_def upstream_ok_def elim!: bind_result_InrE
        dest!: upstream_port_nonzero bounded_milliseconds split: option.splits)
  then show ?thesis using c' by auto
qed

lemma load_config_ok:
  assumes "openssl_ok S" and "load_config_from_environment E S T = Inr config"
  shows "config_ok config"
proof -
  obtain cert key downstream c u routes where
    settings: "load_settings E (AppConfig_default\<lparr>cfg_downstream_tls_context := downstream\<rparr>) = Inr c"
    and final: "(case routes of Some v \<Rightarrow> load_routes E S T v c | None \<Rightarrow> load_upstream E T c) =
      Inr config"
    using assms(2) unfolding load_config_from_environment_def
    by (elim bind_result_InrE) (rule that)
  let ?d = "AppConfig_default\<lparr>cfg_downstream_tls_context := downstream\<rparr>"
  have "settings_frame ?d ?d"
    by (simp add: settings_frame_def settings_ok_def AppConfig_default_def)
  then have "settings_frame ?d c"
    using load_settings_frame [OF settings] by blast
  then have "settings_ok c" "cfg_upstream c = None" "cfg_routes c = []"
    by (simp_all add: settings_frame_def AppConfig_default_def)
  then show ?thesis
    using final load_routes_ok [OF assms(1)] load_upstream_ok
    by (cases routes) auto
qed


text \<open>
  A concrete environment: one route, given by a parser that returns its document, and a TLS
  library whose calls succeed.
\<close>

definition sample_document :: json where
  "sample_document =
     JArray [JObject [(''health_check'', JObject [(''path'', JString ''/h'')]), (''host'', JString ''h''),
       (''port'', JNumber 80), (''prefix'', JString ''/a''), (''scheme'', JString ''https'')]]"

definition sample_config_lib :: config_lib where
  "sample_config_lib =
     \<lparr>getenv = (\<lambda>name. if name = ''APIGATE_ROUTES'' then Some ''[]'' else None),
      make_address = (\<lambda>s. None), json_parse = (\<lambda>s. ([], Some sample_document))\<rparr>"

definition sample_tls_lib :: tls_lib where
  "sample_tls_lib =
     \<lparr>new_context = Some 7, set_min_proto_version = 1, set_max_early_data = 1, set_alpn_protos = 0,
      use_certificate_chain_file = (\<lambda>_. True), use_private_key_file = (\<lambda>_. (True, False)),
      check_private_key = 1, load_verify_file = (\<lambda>_. True), is_regular_file = (\<lambda>_. True)\<rparr>"

lemma sample_route_parses:
  "case parse_routes sample_config_lib sample_openssl ''[]'' of
     Inl e \<Rightarrow> False
   | Inr routes \<Rightarrow> map route_prefix routes = [''/a''] \<and>
       list_all (\<lambda>r. route_auth r = None) routes \<and>
       list_ex (\<lambda>r. list_ex (\<lambda>u. up_scheme u = Https) (route_upstreams r)) routes"
  by (simp add: parse_routes_def sample_config_lib_def sample_document_def parse_route_entry_def
      is_object_def is_string_def get_string_def only_keys_def validate_route_prefix_def
      segment_loop.simps sv_find_def segment_check_def segment_char_def isalnum_def char_between_def
      parse_upstreams_def parse_route_upstream_def parse_upstream_host_def
      validate_dns_hostname_def route_integer_def parse_scheme_def parse_boolean_def
      parse_rate_limit_def parse_health_check_def health_integer_def parse_auth_def require_def
      Let_def unat_of_nat word_less_nat_alt)

lemma sample_config_loads:
  "case load_config_from_environment sample_config_lib sample_openssl sample_tls_lib of
     Inl e \<Rightarrow> False | Inr config \<Rightarrow> map route_prefix (cfg_routes config) = [''/a'']"
proof -
  have env: "read_environment sample_config_lib n =
      Inr (if n = ''APIGATE_ROUTES'' then Some ''[]'' else None)" for n
    by (simp add: read_environment_def sample_config_lib_def)
  have "load_settings sample_config_lib c = Inr c" for c
    by (simp add: load_settings_def with_environment_def env)
  then show ?thesis
    using sample_route_parses
    by (auto simp: load_config_from_environment_def env make_downstream_tls_context_def
        load_routes_def Let_def require_def make_upstream_tls_context_def sample_tls_lib_def
        ca_bundles_def sample_config_lib_def [THEN arg_cong [of _ _ getenv]] list_all_iff list_ex_iff
        split: sum.splits)
qed


section \<open>Host names\<close>

text \<open>The labels of a name: the parts between the dots.\<close>

fun split_dots :: "string \<Rightarrow> string list" where
  "split_dots [] = [[]]"
| "split_dots (c # cs) =
     (if c = CHR ''.'' then [] # split_dots cs
      else (c # hd (split_dots cs)) # tl (split_dots cs))"

definition label_char :: "char \<Rightarrow> bool" where
  "label_char c \<longleftrightarrow> isalnum c \<or> c = CHR ''-''"

definition label_ok :: "string \<Rightarrow> bool" where
  "label_ok l \<longleftrightarrow>
     l \<noteq> [] \<and> length l \<le> 63 \<and> list_all label_char l \<and> hd l \<noteq> CHR ''-'' \<and> last l \<noteq> CHR ''-''"

definition hostname_ok :: "string \<Rightarrow> bool" where
  "hostname_ok v \<longleftrightarrow> length v \<le> 253 \<and> list_all label_ok (split_dots v)"

definition label_accepted :: "nat \<times> bool \<times> char \<Rightarrow> bool" where
  "label_accepted s =
     (case s of (label_length, hyphen, previous) \<Rightarrow>
        \<not> (label_length = 0 \<or> 63 < label_length \<or> hyphen \<or> previous = CHR ''-''))"

lemma split_dots_nonempty [simp]: "split_dots cs \<noteq> []"
  by (cases cs) auto

text \<open>
  The loop in the middle of a label: \<open>cur\<close> is what it has read of it, \<open>previous\<close> the last
  character read.
\<close>

lemma hostname_loop_labels:
  assumes "list_all label_char cur" "if cur = [] then previous \<noteq> CHR ''-'' else previous = last cur"
  shows "(\<exists>s. hostname_loop cs (length cur) (cur \<noteq> [] \<and> hd cur = CHR ''-'') previous = Inr s \<and>
      label_accepted s) \<longleftrightarrow>
    list_all label_ok ((cur @ hd (split_dots cs)) # tl (split_dots cs))"
  using assms
proof (induction cs arbitrary: cur previous)
  case Nil
  have "label_accepted (length cur, cur \<noteq> [] \<and> hd cur = CHR ''-'', previous) \<longleftrightarrow> label_ok cur"
    using Nil by (cases cur) (auto simp: label_accepted_def label_ok_def)
  then show ?case by simp
next
  case (Cons c cs)
  have cur: "label_accepted (length cur, cur \<noteq> [] \<and> hd cur = CHR ''-'', previous) \<longleftrightarrow> label_ok cur"
    using Cons.prems by (cases cur) (auto simp: label_accepted_def label_ok_def)
  consider (dot) "c = CHR ''.''" | (ok) "c \<noteq> CHR ''.''" "label_char c" | (bad) "c \<noteq> CHR ''.''" "\<not> label_char c"
    by blast
  then show ?case
  proof cases
    case dot
    have "list_all label_ok (([] @ hd (split_dots cs)) # tl (split_dots cs)) \<longleftrightarrow>
        list_all label_ok (split_dots cs)"
      by (cases "split_dots cs") auto
    then show ?thesis
      using dot cur Cons.IH [of "[]" c] by (auto simp: label_accepted_def)
  next
    case ok
    have hyphen: "(if length cur = 0 then c = CHR ''-'' else cur \<noteq> [] \<and> hd cur = CHR ''-'') \<longleftrightarrow>
        (cur @ [c] \<noteq> [] \<and> hd (cur @ [c]) = CHR ''-'')"
      by (cases cur) auto
    have "hostname_loop (c # cs) (length cur) (cur \<noteq> [] \<and> hd cur = CHR ''-'') previous =
        hostname_loop cs (length (cur @ [c])) (cur @ [c] \<noteq> [] \<and> hd (cur @ [c]) = CHR ''-'') c"
      using ok unfolding hyphen [symmetric] by (simp add: label_char_def)
    moreover have "list_all label_char (cur @ [c])"
      using ok Cons.prems by simp
    ultimately show ?thesis
      using Cons.IH [of "cur @ [c]" c] ok by simp
  next
    case bad
    then have "\<not> label_ok (cur @ c # l)" for l
      by (auto simp: label_ok_def)
    then show ?thesis
      using bad by (simp add: label_char_def)
  qed
qed

lemma split_dots_last:
  "v \<noteq> [] \<Longrightarrow> last v = CHR ''.'' \<Longrightarrow> 2 \<le> length (split_dots v) \<and> last (split_dots v) = []"
proof (induction v)
  case Nil
  then show ?case by simp
next
  case (Cons c cs)
  show ?case
  proof (cases "cs = []")
    case True
    then show ?thesis using Cons.prems by simp
  next
    case False
    then have "2 \<le> length (split_dots cs)" "last (split_dots cs) = []"
      using Cons by auto
    then show ?thesis by (cases "split_dots cs") auto
  qed
qed

text \<open>
  C36. Host names. The single pass over the characters accepts a name exactly when it has at most
  253 characters and every label between its dots has 1 to 63 letters, digits or hyphens and
  neither starts nor ends with a hyphen.
\<close>

theorem hostname_validation_exact:
  assumes "v \<noteq> []"
  shows "validate_dns_hostname v = Inr () \<longleftrightarrow> hostname_ok v"
proof -
  have loop: "(\<exists>s. hostname_loop v 0 False CHR 0x00 = Inr s \<and> label_accepted s) \<longleftrightarrow>
      list_all label_ok (split_dots v)"
    using hostname_loop_labels [of "[]" "CHR 0x00" v] by (cases "split_dots v") auto
  have first: "hd v = CHR ''.'' \<Longrightarrow> \<not> list_all label_ok (split_dots v)"
    using assms by (cases v) (auto simp: label_ok_def)
  have final: "last v = CHR ''.'' \<Longrightarrow> \<not> list_all label_ok (split_dots v)"
    using split_dots_last [OF assms] by (metis label_ok_def last_in_set list_all_iff split_dots_nonempty)
  have "validate_dns_hostname v = Inr () \<longleftrightarrow>
      \<not> (253 < length v \<or> hd v = CHR ''.'' \<or> last v = CHR ''.'') \<and>
      (\<exists>s. hostname_loop v 0 False CHR 0x00 = Inr s \<and> label_accepted s)"
    by (cases "hostname_loop v 0 False CHR 0x00")
      (auto simp: validate_dns_hostname_def label_accepted_def split: if_splits)
  then show ?thesis
    using first final unfolding loop hostname_ok_def by auto
qed

theorem hostname_validation_exact_witness:
  "validate_dns_hostname ''api-1.example'' = Inr ()"
proof -
  have "hostname_ok ''api-1.example''"
    by (simp add: hostname_ok_def label_ok_def label_char_def isalnum_def char_between_def)
  then show ?thesis
    using hostname_validation_exact [of "''api-1.example''"] by simp
qed

section \<open>Settings\<close>

text \<open>The decimal numerals of a number, leading zeros allowed.\<close>

definition numeral_of :: "string \<Rightarrow> nat \<Rightarrow> bool" where
  "numeral_of v n \<longleftrightarrow> v \<noteq> [] \<and> list_all is_digit v \<and> digits_value v = n"

lemma from_chars_all:
  "from_chars bits v = (Some n, length v) \<longleftrightarrow> numeral_of v n \<and> n < 2 ^ bits"
proof (cases "list_all is_digit v")
  case True
  then have all: "takeWhile is_digit v = v"
    by (simp add: list_all_iff)
  show ?thesis
    using True by (auto simp: from_chars_def numeral_of_def Let_def all)
next
  case False
  then have "length (takeWhile is_digit v) \<noteq> length v"
    by (induction v) auto
  then show ?thesis
    using False by (simp add: from_chars_def numeral_of_def Let_def)
qed

lemma nat_to_string_numeral: "numeral_of (nat_to_string n) n"
proof -
  have digit: "of_char (char_of (48 + d)) - 48 = d" if "d < 10" for d :: nat
    using that by simp
  have "digits_value (nat_to_string n) = n"
  proof (induction n rule: nat_to_string.induct)
    case (1 n)
    then show ?case
      using digit [of n] digit [of "n mod 10"]
      by (cases "n < 10") (simp_all add: nat_to_string.simps [of n] digits_value_def)
  qed
  moreover have "nat_to_string n \<noteq> []"
    by (simp add: nat_to_string.simps [of n])
  ultimately show ?thesis
    using nat_to_string_digits by (auto simp: numeral_of_def list_all_iff is_digit_def)
qed

text \<open>The shape that the parsers of numbers share.\<close>

lemma parse_number:
  fixes w :: "'a::len word"
  assumes "\<And>n. \<not> bad n \<Longrightarrow> n < 2 ^ bits \<and> n < 2 ^ LENGTH('a)"
  shows "(case from_chars bits v of
      (Some n, ptr) \<Rightarrow> if ptr \<noteq> length v \<or> bad n then Inl e else Inr (of_nat n) | (None, _) \<Rightarrow> Inl e') = Inr w
    \<longleftrightarrow> numeral_of v (unat w) \<and> \<not> bad (unat w)"
proof -
  have "(\<exists>n. from_chars bits v = (Some n, length v) \<and> \<not> bad n \<and> w = of_nat n) \<longleftrightarrow>
      numeral_of v (unat w) \<and> \<not> bad (unat w)"
  proof
    assume "\<exists>n. from_chars bits v = (Some n, length v) \<and> \<not> bad n \<and> w = of_nat n"
    then obtain n where n: "numeral_of v n" "\<not> bad n" "w = of_nat n"
      using from_chars_all by blast
    then have "unat w = n"
      using assms by (simp add: unat_of_nat take_bit_nat_eq_self)
    then show "numeral_of v (unat w) \<and> \<not> bad (unat w)"
      using n by simp
  next
    assume "numeral_of v (unat w) \<and> \<not> bad (unat w)"
    then show "\<exists>n. from_chars bits v = (Some n, length v) \<and> \<not> bad n \<and> w = of_nat n"
      using assms [of "unat w"] from_chars_all [of bits v] by (intro exI [of _ "unat w"]) simp
  qed
  then show ?thesis
    by (auto split: prod.split option.split)
qed

text \<open>
  C37. Settings round trip. A log level is read exactly from the name it is printed with. A port, a
  capacity, a time-out and a size are read exactly from the decimal numerals of their value, if the
  value is in the range of the setting, and to that value, without wrap-around; the text that a
  number is printed as is such a numeral.
\<close>

theorem settings_roundtrip:
  "(parse_log_level v = Inr level \<longleftrightarrow> v = LogLevel_to_string level) \<and>
   (parse_listen_port v = Inr port \<longleftrightarrow> numeral_of v (unat port)) \<and>
   (parse_upstream_port v = Inr port \<longleftrightarrow> numeral_of v (unat port) \<and> 0 < unat port) \<and>
   (parse_capacity_limit v name = Inr port \<longleftrightarrow> numeral_of v (unat port) \<and> 0 < unat port) \<and>
   (parse_bounded_milliseconds v name = Inr timeout \<longleftrightarrow>
      numeral_of v (unat timeout) \<and> 0 < unat timeout \<and> unat timeout \<le> 60000) \<and>
   (parse_max_in_flight_bytes v = Inr bytes \<longleftrightarrow>
      numeral_of v (unat bytes) \<and> 0 < unat bytes \<and> unat bytes \<le> 1073741824) \<and>
   numeral_of (nat_to_string n) n"
proof -
  have port: "unat port \<le> 65535"
    using unat_lt2p_word [of port] by simp
  have "parse_log_level v = Inr level \<longleftrightarrow> v = LogLevel_to_string level"
    by (cases level) (auto simp: parse_log_level_def LogLevel_to_string_def split: if_splits)
  moreover have "parse_listen_port v = Inr port \<longleftrightarrow> numeral_of v (unat port)"
    using parse_number [where bad = "\<lambda>n. 65535 < n" and bits = 32 and v = v and w = port] port by (simp add: parse_listen_port_def not_less)
  moreover have "parse_upstream_port v = Inr port \<longleftrightarrow> numeral_of v (unat port) \<and> 0 < unat port"
    "parse_capacity_limit v name = Inr port \<longleftrightarrow> numeral_of v (unat port) \<and> 0 < unat port"
    using parse_number [where bad = "\<lambda>n. n = 0 \<or> 65535 < n" and bits = 32 and v = v and w = port] port
    by (simp_all add: parse_upstream_port_def parse_capacity_limit_def not_less)
  moreover have "parse_bounded_milliseconds v name = Inr timeout \<longleftrightarrow>
      numeral_of v (unat timeout) \<and> 0 < unat timeout \<and> unat timeout \<le> 60000"
    using parse_number [where bad = "\<lambda>n. n = 0 \<or> 60000 < n" and bits = 32 and v = v and w = timeout]
    by (simp add: parse_bounded_milliseconds_def not_less)
  moreover have "parse_max_in_flight_bytes v = Inr bytes \<longleftrightarrow>
      numeral_of v (unat bytes) \<and> 0 < unat bytes \<and> unat bytes \<le> 1073741824"
    using parse_number [where bad = "\<lambda>n. n = 0 \<or> 1073741824 < n" and bits = 64 and v = v and w = bytes]
    by (simp add: parse_max_in_flight_bytes_def not_less)
  ultimately show ?thesis
    using nat_to_string_numeral by simp
qed

end
