(* ===== verification/Exchange.thy ===== *)
theory Exchange
  imports ProxyMessage UpstreamPool BufferBudget Tls
begin

text \<open>
  One proxied request, \<open>HttpProxyExchange::Impl\<close> of \<open>src/http_proxy.cpp\<close>: resolve, connect, TLS
  handshake, write, read, with a deadline per stage, and either a buffered response or a stream of
  blocks that the session acknowledges one by one. The state keeps which operations and deadline
  waits are outstanding and which calls were made to the session. The buffer budget and the
  connection pool are shared objects; their state is threaded through the steps and may be changed
  by others between them. What the I/O library reports and which calls throw is the input of a step.
  The lemmas show that the session is told the end exactly once, that an unfinished exchange always
  waits under an armed deadline, that no body is read into memory that was not reserved, and
  that a finished exchange has given its connection back or closed it.
\<close>

section \<open>State\<close>

record proxy_result =
  pr_response :: http_response
  pr_failure :: "proxy_failure option"
  pr_rejected_bytes :: "u64 option"
  pr_body_permit :: budget_permit

text \<open>
  What the parser says after a read: the message so far, its length field, whether it is complete,
  whether it ends with the connection, the octets left in \<open>buffer_\<close>, and the room left in the
  block that a streamed body is read into.
\<close>

record parser_view =
  pv_message :: http_response
  pv_content_length :: "u64 option"
  pv_done :: bool
  pv_need_eof :: bool
  pv_buffered :: nat
  pv_room :: nat

text \<open>The operation whose handler runs next; \<open>Xo_resume\<close> waits for the session to take a block.\<close>

datatype exchange_op =
    Xo_resolve | Xo_connect | Xo_handshake | Xo_write | Xo_read_header | Xo_read_body
  | Xo_read_some | Xo_resume bool

text \<open>The calls made to the session, in order.\<close>

datatype exchange_call =
    Call_complete proxy_result
  | Call_header http_response
  | Call_body nat bool
  | Call_finish "proxy_failure option" bool
  | Call_abort

record stream_block =
  sb_size :: nat
  sb_permit :: budget_permit

text \<open>
  The two parsers are one field: an exchange uses the one that \<open>ex_streaming\<close> selects.
  \<open>request_body_permit_\<close> only keeps the request's reservation alive and has no field.
\<close>

record exchange =
  ex_tls_context :: "tls_context option"
  ex_pool :: "upstream_pool option"
  ex_connection :: "upstream_connection option"
  ex_closed :: bool
  ex_identity :: "tls_identity option"
  ex_config :: upstream_config
  ex_downstream_request :: http_request
  ex_upstream_request :: http_request
  ex_budget :: budget_control
  ex_parser :: parser_view
  ex_body_permit :: budget_permit
  ex_streaming :: bool
  ex_block :: "stream_block option"
  ex_on_finish :: bool
  ex_stream_started :: bool
  ex_on_complete :: bool
  ex_on_abort :: bool
  ex_completion :: proxy_completion_state
  ex_generation :: u64
  ex_waits :: "u64 list"
  ex_observed :: bool
  ex_reused :: bool
  ex_op :: "exchange_op option"
  ex_calls :: "exchange_call list"

text \<open>
  The input of a step: the state of the sockets, the time, and which of the calls made throw:
  arming a deadline, starting an operation, allocating a block, calling the session.
\<close>

record exchange_input =
  xi_sockets :: socket_view
  xi_pool_fault :: pool_fault
  xi_now :: time_point
  xi_deadline_throws :: bool
  xi_begin_throws :: bool
  xi_alloc_throws :: bool
  xi_callback_throws :: bool

definition max_upstream_body_bytes :: u64 where
  "max_upstream_body_bytes = 1024 * 1024"

text \<open>An action of a handler: whether it threw, and the state.\<close>

type_synonym exchange_action = "exchange \<Rightarrow> bool \<times> exchange"

definition and_then :: "bool \<times> exchange \<Rightarrow> exchange_action \<Rightarrow> bool \<times> exchange" where
  "and_then r f = (case r of (threw, e) \<Rightarrow> if threw then (True, e) else f e)"

definition pure_action :: "(exchange \<Rightarrow> exchange) \<Rightarrow> exchange_action" where
  "pure_action f e = (False, f e)"

section \<open>Deadlines and cancellation\<close>

text \<open>A new expiry or \<open>cancel\<close> aborts the outstanding waits; their handlers still run.\<close>

definition begin_deadline :: "exchange_input \<Rightarrow> exchange_action" where
  "begin_deadline x e =
     (let generation = ex_generation e + 1; e = e\<lparr>ex_generation := generation\<rparr> in
      if xi_deadline_throws x then (True, e)
      else (False, e\<lparr>ex_waits := ex_waits e @ [generation]\<rparr>))"

definition finish_deadline :: "exchange \<Rightarrow> exchange" where
  "finish_deadline e = e\<lparr>ex_generation := ex_generation e + 1\<rparr>"

definition close_upstream :: "exchange \<Rightarrow> exchange" where
  "close_upstream e = (if ex_connection e \<noteq> None then e\<lparr>ex_closed := True\<rparr> else e)"

definition cancel_operations :: "exchange \<Rightarrow> exchange" where
  "cancel_operations e = close_upstream (e\<lparr>ex_observed := True\<rparr>)"

definition initiate :: "exchange_input \<Rightarrow> exchange_op \<Rightarrow> exchange_action" where
  "initiate x op e = (if xi_begin_throws x then (True, e) else (False, e\<lparr>ex_op := Some op\<rparr>))"

section \<open>Completion\<close>

definition notify_abort :: "exchange \<Rightarrow> exchange" where
  "notify_abort e =
     (let e' = e\<lparr>ex_on_complete := False, ex_on_abort := False\<rparr> in
      if ex_on_abort e then e'\<lparr>ex_calls := ex_calls e @ [Call_abort]\<rparr> else e')"

text \<open>A result that is not passed on gives its reservation back.\<close>

definition discard_result :: "proxy_result \<Rightarrow> exchange \<Rightarrow> exchange" where
  "discard_result result e =
     e\<lparr>ex_budget := fst (BufferBudgetPermit_release (ex_budget e) (pr_body_permit result))\<rparr>"

definition put_completion :: "proxy_completion_state \<Rightarrow> exchange \<Rightarrow> exchange" where
  "put_completion s e = e\<lparr>ex_completion := s\<rparr>"

definition complete_action :: "exchange_input \<Rightarrow> proxy_result \<Rightarrow> exchange_action" where
  "complete_action x result e =
     (let e1 = e\<lparr>ex_observed := True, ex_on_complete := False\<rparr> in
      if \<not> ex_on_complete e then (False, notify_abort e1)
      else let e2 = e1\<lparr>ex_calls := ex_calls e @ [Call_complete result]\<rparr> in
        if xi_callback_throws x then (True, e2) else (False, e2\<lparr>ex_on_abort := False\<rparr>))"

definition exchange_complete :: "exchange_input \<Rightarrow> proxy_result \<Rightarrow> exchange \<Rightarrow> exchange" where
  "exchange_complete x result e =
     (let e' = run_proxy_completion_action ex_completion put_completion (complete_action x result)
            (\<lambda>e. notify_abort (e\<lparr>ex_observed := True\<rparr>)) e in
      if pc_completed (ex_completion e) \<or> \<not> ex_on_complete e then discard_result result e' else e')"

definition complete_stream_action ::
  "exchange_input \<Rightarrow> proxy_failure option \<Rightarrow> bool \<Rightarrow> exchange_action" where
  "complete_stream_action x failure downstream_failed e =
     (let e1 = e\<lparr>ex_observed := True, ex_on_complete := False, ex_on_finish := False\<rparr> in
      if \<not> ex_on_finish e then (True, e1)
      else let e2 = e1\<lparr>ex_calls := ex_calls e @ [Call_finish failure downstream_failed]\<rparr> in
        if xi_callback_throws x then (True, e2) else (False, e2\<lparr>ex_on_abort := False\<rparr>))"

definition complete_stream ::
  "exchange_input \<Rightarrow> proxy_failure option \<Rightarrow> bool \<Rightarrow> exchange \<Rightarrow> exchange" where
  "complete_stream x failure downstream_failed =
     run_proxy_completion_action ex_completion put_completion
       (complete_stream_action x failure downstream_failed) notify_abort"

definition run_handler :: "exchange_action \<Rightarrow> exchange \<Rightarrow> exchange" where
  "run_handler handler =
     run_proxy_handler_action ex_completion put_completion handler cancel_operations notify_abort"

definition exchange_fail ::
  "beast \<Rightarrow> exchange_input \<Rightarrow> proxy_failure_stage \<Rightarrow> error_code \<Rightarrow> exchange_action" where
  "exchange_fail B x stage error e =
     (if ex_observed e then (False, e)
      else
        let e = cancel_operations (finish_deadline e);
            failure = \<lparr>pf_stage = stage, pf_error_code = error\<rparr> in
        if ex_stream_started e then (False, complete_stream x (Some failure) False e)
        else case make_gateway_error_response B (ex_downstream_request e)
               (if stage = Stage_timeout then Gateway_timeout else Bad_gateway) of
            Inl _ \<Rightarrow> (True, e)
          | Inr response \<Rightarrow>
              (False, exchange_complete x \<lparr>pr_response = response, pr_failure = Some failure,
                 pr_rejected_bytes = None, pr_body_permit = BufferBudgetPermit_default\<rparr> e))"

definition exchange_reject_buffer_budget ::
  "beast \<Rightarrow> exchange_input \<Rightarrow> u64 \<Rightarrow> exchange_action" where
  "exchange_reject_buffer_budget B x requested_bytes e =
     (let e = cancel_operations e in
      case make_gateway_error_response B (ex_downstream_request e) Buffer_capacity_exhausted of
        Inl _ \<Rightarrow> (True, e)
      | Inr response \<Rightarrow>
          (False, exchange_complete x \<lparr>pr_response = response, pr_failure = None,
             pr_rejected_bytes = Some requested_bytes,
             pr_body_permit = BufferBudgetPermit_default\<rparr> e))"

definition exchange_cancel :: "exchange \<Rightarrow> exchange" where
  "exchange_cancel e =
     (case ProxyCompletionState_claim (ex_completion e) of
        (False, s) \<Rightarrow> put_completion s e
      | (True, s) \<Rightarrow>
          cancel_operations ((put_completion s e)\<lparr>ex_on_complete := False, ex_on_abort := False\<rparr>))"

section \<open>Construction\<close>

definition parser_view_default :: parser_view where
  "parser_view_default =
     \<lparr>pv_message = HttpResponse_new 0 11, pv_content_length = None, pv_done = False,
      pv_need_eof = False, pv_buffered = 0, pv_room = 0\<rparr>"

text \<open>
  \<open>callbacks\<close>: whether \<open>on_complete\<close>, \<open>on_abort\<close> and all three streaming callbacks are set;
  \<open>ident\<close>: the identity of a connection made here. The result also gives the pool, from which a
  connection may have been taken.
\<close>

definition HttpProxyExchange_new ::
  "beast \<Rightarrow> exchange_input \<Rightarrow> selected_upstream \<Rightarrow> http_request \<Rightarrow> tls_context option \<Rightarrow>
   budget_control option \<Rightarrow> bool \<times> bool \<times> bool \<Rightarrow> upstream_pool option \<Rightarrow> nat \<Rightarrow> exchange result"
where
  "HttpProxyExchange_new B x selected request context budget callbacks pool ident =
     bind_result (make_upstream_request B selected request (pool \<noteq> None)) (\<lambda>upstream_request.
       case callbacks of (on_complete, on_abort, streaming) \<Rightarrow>
       case budget of
         None \<Rightarrow> Inl (Invalid_argument ''buffer budget must not be empty'')
       | Some control \<Rightarrow>
           if \<not> on_complete
           then Inl (Invalid_argument ''proxy completion callback must not be empty'')
           else if \<not> on_abort
           then Inl (Invalid_argument ''proxy abort callback must not be empty'')
           else if su_stream_response selected \<and> \<not> streaming
           then Inl (Invalid_argument ''streaming callbacks must not be empty'')
           else
             let config = su_upstream selected;
                 (pool, lease) = (case pool of None \<Rightarrow> (None, None)
                   | Some p \<Rightarrow> (case UpstreamPool_take (xi_sockets x) p config context (xi_now x) of
                       (p, lease) \<Rightarrow> (Some p, lease))) in
             bind_result
               (case lease of Some c \<Rightarrow> Inr c | None \<Rightarrow> UpstreamConnection_new ident config context)
               (\<lambda>connection. Inr
                 \<lparr>ex_tls_context = context, ex_pool = pool, ex_connection = Some connection,
                  ex_closed = False, ex_identity = None, ex_config = config,
                  ex_downstream_request = request, ex_upstream_request = upstream_request,
                  ex_budget = control, ex_parser = parser_view_default,
                  ex_body_permit = BufferBudgetPermit_default,
                  ex_streaming = su_stream_response selected, ex_block = None,
                  ex_on_finish = streaming, ex_stream_started = False, ex_on_complete = True,
                  ex_on_abort = True, ex_completion = ProxyCompletionState_new,
                  ex_generation = 0, ex_waits = [], ex_observed = False,
                  ex_reused = (lease \<noteq> None), ex_op = None, ex_calls = []\<rparr>))"

section \<open>Stages\<close>

definition write_request :: "exchange_input \<Rightarrow> exchange_action" where
  "write_request x e = and_then (begin_deadline x e) (initiate x Xo_write)"

definition exchange_start :: "exchange_input \<Rightarrow> exchange_action" where
  "exchange_start x e =
     (if ex_reused e then write_request x e
      else and_then (begin_deadline x e) (initiate x Xo_resolve))"

definition exchange_on_deadline ::
  "beast \<Rightarrow> exchange_input \<Rightarrow> u64 \<Rightarrow> error_code \<Rightarrow> exchange \<Rightarrow> exchange" where
  "exchange_on_deadline B x generation error =
     run_handler (\<lambda>e.
       if error = None \<and> generation = ex_generation e
       then exchange_fail B x Stage_timeout (Some Timed_out) e else (False, e))"

definition exchange_on_resolve :: "beast \<Rightarrow> exchange_input \<Rightarrow> error_code \<Rightarrow> exchange_action" where
  "exchange_on_resolve B x error e =
     (if ex_observed e then (False, e)
      else let e = finish_deadline e in
        if error \<noteq> None then exchange_fail B x Stage_resolve error e
        else and_then (begin_deadline x e) (initiate x Xo_connect))"

definition exchange_on_connect ::
  "net_lib \<Rightarrow> beast \<Rightarrow> exchange_input \<Rightarrow> error_code \<Rightarrow> exchange_action" where
  "exchange_on_connect N B x error e =
     (if ex_observed e then (False, e)
      else let e = finish_deadline e in
        if error \<noteq> None then exchange_fail B x Stage_connect error e
        else if (case ex_connection e of None \<Rightarrow> False | Some c \<Rightarrow> uc_tls c) then
          (case configure_upstream_tls_identity N (up_host (ex_config e)) of (identity, ok) \<Rightarrow>
             let e = e\<lparr>ex_identity := Some identity\<rparr> in
             if \<not> ok then exchange_fail B x Stage_handshake (Some Invalid_argument_code) e
             else and_then (begin_deadline x e) (initiate x Xo_handshake))
        else write_request x e)"

definition exchange_on_handshake :: "beast \<Rightarrow> exchange_input \<Rightarrow> error_code \<Rightarrow> exchange_action" where
  "exchange_on_handshake B x error e =
     (if ex_observed e then (False, e)
      else let e = finish_deadline e in
        if error \<noteq> None then exchange_fail B x Stage_handshake error e
        else write_request x e)"

definition exchange_on_write :: "beast \<Rightarrow> exchange_input \<Rightarrow> error_code \<Rightarrow> exchange_action" where
  "exchange_on_write B x error e =
     (if ex_observed e then (False, e)
      else let e = finish_deadline e in
        if error \<noteq> None then exchange_fail B x Stage_write error e
        else and_then (begin_deadline x e) (initiate x Xo_read_header))"

definition has_upgrade :: "beast \<Rightarrow> http_response \<Rightarrow> bool" where
  "has_upgrade B r \<longleftrightarrow> list_ex (\<lambda>f. field_of B (fst f) = Field_upgrade) (res_fields r)"

definition response_keeps_alive :: "beast \<Rightarrow> http_response \<Rightarrow> bool" where
  "response_keeps_alive B r = keep_alive_of B (res_version r) (res_fields r)"

definition connection_is_clean :: "exchange_input \<Rightarrow> exchange \<Rightarrow> bool" where
  "connection_is_clean x e \<longleftrightarrow>
     (case ex_connection e of None \<Rightarrow> False | Some c \<Rightarrow> UpstreamConnection_clean (xi_sockets x) c)"

text \<open>Giving the connection back to the pool or closing it.\<close>

definition release_upstream :: "exchange_input \<Rightarrow> bool \<Rightarrow> exchange \<Rightarrow> exchange" where
  "release_upstream x reusable e =
     (if reusable
      then e\<lparr>ex_pool := map_option (\<lambda>p. UpstreamPool_put (xi_sockets x) (xi_pool_fault x) p
               (ex_connection e) (xi_now x)) (ex_pool e), ex_connection := None\<rparr>
      else close_upstream e)"

text \<open>Decided on the framing the upstream sent, before the downstream fields are rebuilt.\<close>

definition response_reusable :: "beast \<Rightarrow> exchange_input \<Rightarrow> exchange \<Rightarrow> bool" where
  "response_reusable B x e \<longleftrightarrow>
     (let v = ex_parser e; original = pv_message v in
      ex_pool e \<noteq> None \<and> pv_done v \<and> \<not> pv_need_eof v \<and> response_keeps_alive B original \<and>
      200 \<le> res_status original \<and> \<not> has_upgrade B original \<and>
      ''upgrade'' \<notin> connection_tokens B (res_fields original) \<and> pv_buffered v = 0 \<and>
      connection_is_clean x e)"

definition deliver_response :: "beast \<Rightarrow> exchange_input \<Rightarrow> exchange_action" where
  "deliver_response B x e =
     (case make_downstream_response B (ex_downstream_request e) (pv_message (ex_parser e)) of
        Inl _ \<Rightarrow> (True, e)
      | Inr response \<Rightarrow>
          let (moved, left) = BufferBudgetPermit_move (ex_body_permit e) in
          (False, exchange_complete x
             \<lparr>pr_response = response, pr_failure = None, pr_rejected_bytes = None,
              pr_body_permit = moved\<rparr> (e\<lparr>ex_body_permit := left\<rparr>)))"

definition finish_response :: "beast \<Rightarrow> exchange_input \<Rightarrow> exchange_action" where
  "finish_response B x e =
     deliver_response B x (release_upstream x (response_reusable B x e) (finish_deadline e))"

section \<open>Streaming\<close>

definition stream_header ::
  "beast \<Rightarrow> http_request \<Rightarrow> parser_view \<Rightarrow> http_response" where
  "stream_header B request v =
     (let original = pv_message v; header = make_downstream_header B request original in
      if \<not> pv_done v then
        case pv_content_length v of
          Some n \<Rightarrow> header\<lparr>res_fields := set_content_length B (res_fields header) (unat n)\<rparr>
        | None \<Rightarrow>
            if 11 \<le> res_version header
            then header\<lparr>res_fields := set_chunked B (res_fields header) True\<rparr>
            else response_keep_alive B header False
      else if res_status original \<noteq> status_no_content \<and> res_status original \<noteq> status_not_modified
      then header\<lparr>res_fields := set_content_length B (res_fields header) 0\<rparr>
      else header)"

definition call_stream_header :: "beast \<Rightarrow> exchange_input \<Rightarrow> exchange_action" where
  "call_stream_header B x e =
     (let v = ex_parser e;
          e = e\<lparr>ex_stream_started := True,
            ex_calls := ex_calls e @ [Call_header (stream_header B (ex_downstream_request e) v)]\<rparr> in
      if xi_callback_throws x then (True, e) else (False, e\<lparr>ex_op := Some (Xo_resume (pv_done v))\<rparr>))"

definition start_stream :: "beast \<Rightarrow> exchange_input \<Rightarrow> exchange_action" where
  "start_stream B x e =
     (let v = ex_parser e; original = pv_message v in
      if res_status original < 200 \<or> has_upgrade B original
      then exchange_fail B x Stage_invalid_response None e
      else if (case pv_content_length v of None \<Rightarrow> False | Some n \<Rightarrow> max_upstream_body_bytes < n)
      then exchange_fail B x Stage_response_too_large (Some Body_limit) e
      else if xi_alloc_throws x then (True, e)
      else
        let e = e\<lparr>ex_block := Some \<lparr>sb_size = 0, sb_permit = BufferBudgetPermit_default\<rparr>\<rparr> in
        if pv_done v then call_stream_header B x e
        else
          let available = max_bytes (ex_budget e) - current_bytes (ex_budget e);
              bytes = min 16384 available in
          case (if bytes = 0 then (ex_budget e, None)
                else BufferBudgetState_try_acquire (ex_budget e) bytes) of
            (_, None) \<Rightarrow> exchange_reject_buffer_budget B x 1 e
          | (budget, Some permit) \<Rightarrow>
              call_stream_header B x (e\<lparr>ex_budget := budget,
                ex_block := Some \<lparr>sb_size = unat bytes, sb_permit = permit\<rparr>\<rparr>))"

definition read_stream_block :: "exchange_input \<Rightarrow> exchange_action" where
  "read_stream_block x = initiate x Xo_read_some"

definition read_failure_stage :: "error_code \<Rightarrow> proxy_failure_stage" where
  "read_failure_stage error =
     (if error = Some Body_limit then Stage_response_too_large else Stage_read)"

definition block_size :: "exchange \<Rightarrow> nat" where
  "block_size e = (case ex_block e of None \<Rightarrow> 0 | Some b \<Rightarrow> sb_size b)"

definition exchange_on_read_some :: "beast \<Rightarrow> exchange_input \<Rightarrow> error_code \<Rightarrow> exchange_action" where
  "exchange_on_read_some B x error e =
     (if ex_observed e then (False, e)
      else if error \<noteq> None \<and> error \<noteq> Some Need_buffer
      then exchange_fail B x (read_failure_stage error) error e
      else let v = ex_parser e; bytes = block_size e - pv_room v in
        if bytes = 0 \<and> \<not> pv_done v then read_stream_block x e
        else let e = e\<lparr>ex_calls := ex_calls e @ [Call_body bytes (pv_done v)]\<rparr> in
          if xi_callback_throws x then (True, e)
          else (False, e\<lparr>ex_op := Some (Xo_resume (pv_done v))\<rparr>))"

definition stream_reusable :: "beast \<Rightarrow> exchange_input \<Rightarrow> exchange \<Rightarrow> bool" where
  "stream_reusable B x e \<longleftrightarrow>
     (let v = ex_parser e; original = pv_message v in
      ex_pool e \<noteq> None \<and> pv_done v \<and> \<not> pv_need_eof v \<and> response_keeps_alive B original \<and>
      pv_buffered v = 0 \<and> ''upgrade'' \<notin> connection_tokens B (res_fields original) \<and>
      connection_is_clean x e)"

definition finish_stream :: "beast \<Rightarrow> exchange_input \<Rightarrow> exchange \<Rightarrow> exchange" where
  "finish_stream B x e =
     complete_stream x None False
       (release_upstream x (stream_reusable B x e) (finish_deadline e))"

definition exchange_on_resume ::
  "beast \<Rightarrow> exchange_input \<Rightarrow> bool \<Rightarrow> error_code \<Rightarrow> exchange_action" where
  "exchange_on_resume B x final error e =
     (if ex_observed e then (False, e)
      else if error \<noteq> None then (False, complete_stream x None True (cancel_operations e))
      else if final then (False, finish_stream B x e)
      else read_stream_block x e)"

section \<open>Reading the response\<close>

definition exchange_on_read_header :: "beast \<Rightarrow> exchange_input \<Rightarrow> error_code \<Rightarrow> exchange_action" where
  "exchange_on_read_header B x error e =
     (if ex_observed e then (False, e)
      else if error \<noteq> None
      then exchange_fail B x (read_failure_stage error) error (finish_deadline e)
      else if ex_streaming e then start_stream B x e
      else if res_status (pv_message (ex_parser e)) < 200
      then exchange_fail B x Stage_invalid_response None (finish_deadline e)
      else
        let v = ex_parser e;
            plan = plan_body_reservation (pv_content_length v) (pv_done v) max_upstream_body_bytes in
        if plan_kind plan = Kind_too_large
        then exchange_fail B x Stage_response_too_large (Some Body_limit) (finish_deadline e)
        else if plan_kind plan = Kind_none then finish_response B x (finish_deadline e)
        else case BufferBudgetState_try_acquire (ex_budget e) (plan_bytes plan) of
            (_, None) \<Rightarrow> exchange_reject_buffer_budget B x (plan_bytes plan) (finish_deadline e)
          | (budget, Some permit) \<Rightarrow>
              (case BufferBudgetPermit_assign budget (ex_body_permit e) permit of
                 (budget, permit, _) \<Rightarrow>
                   initiate x Xo_read_body (e\<lparr>ex_budget := budget, ex_body_permit := permit\<rparr>)))"

definition exchange_on_read_body :: "beast \<Rightarrow> exchange_input \<Rightarrow> error_code \<Rightarrow> exchange_action" where
  "exchange_on_read_body B x error e =
     (if ex_observed e then (False, e)
      else let e = finish_deadline e in
        if error \<noteq> None then exchange_fail B x (read_failure_stage error) error e
        else
          let actual_bytes = of_nat (length (res_body (pv_message (ex_parser e)))) in
          case BufferBudgetPermit_shrink_to (ex_budget e) (ex_body_permit e) actual_bytes of
            ((budget, permit), ok) \<Rightarrow>
              let e = e\<lparr>ex_budget := budget, ex_body_permit := permit\<rparr> in
              if \<not> ok then exchange_fail B x Stage_read None e
              else finish_response B x e)"

section \<open>Steps\<close>

text \<open>
  The handlers the library runs: each once per operation or wait that is outstanding. A read
  handler sees the parser as the read left it. The wait of the current deadline completes without
  error, since a wait fails only when it is cancelled, which moves the generation on or ends the
  exchange. \<open>Shared\<close> stands for what other users do to the budget and the pool in between.
\<close>

datatype exchange_event =
    Xe_deadline u64 error_code
  | Xe_resolve error_code
  | Xe_connect error_code
  | Xe_handshake error_code
  | Xe_write error_code
  | Xe_read_header error_code parser_view
  | Xe_read_body error_code parser_view
  | Xe_read_some error_code parser_view
  | Xe_resume error_code
  | Xe_cancel
  | Xe_shared budget_control "upstream_pool option"

definition delivers ::
  "exchange_op \<Rightarrow> (exchange \<Rightarrow> exchange) \<Rightarrow> exchange_action \<Rightarrow> exchange \<Rightarrow> exchange" where
  "delivers op prepare action e =
     (if ex_op e = Some op then run_handler action (prepare (e\<lparr>ex_op := None\<rparr>)) else e)"

definition parsed :: "parser_view \<Rightarrow> exchange \<Rightarrow> exchange" where
  "parsed v e = e\<lparr>ex_parser := v\<rparr>"

fun exchange_step ::
  "net_lib \<Rightarrow> beast \<Rightarrow> exchange \<Rightarrow> exchange_input \<times> exchange_event \<Rightarrow> exchange" where
  "exchange_step N B e (x, Xe_deadline generation error) =
     (if generation \<in> set (ex_waits e) \<and>
         (generation = ex_generation e \<and> \<not> ex_observed e \<longrightarrow> error = None)
      then exchange_on_deadline B x generation error
        (e\<lparr>ex_waits := remove1 generation (ex_waits e)\<rparr>)
      else e)"
| "exchange_step N B e (x, Xe_resolve error) = delivers Xo_resolve id (exchange_on_resolve B x error) e"
| "exchange_step N B e (x, Xe_connect error) =
     delivers Xo_connect id (exchange_on_connect N B x error) e"
| "exchange_step N B e (x, Xe_handshake error) =
     delivers Xo_handshake id (exchange_on_handshake B x error) e"
| "exchange_step N B e (x, Xe_write error) = delivers Xo_write id (exchange_on_write B x error) e"
| "exchange_step N B e (x, Xe_read_header error v) =
     delivers Xo_read_header (parsed v) (exchange_on_read_header B x error) e"
| "exchange_step N B e (x, Xe_read_body error v) =
     delivers Xo_read_body (parsed v) (exchange_on_read_body B x error) e"
| "exchange_step N B e (x, Xe_read_some error v) =
     delivers Xo_read_some (parsed v) (exchange_on_read_some B x error) e"
| "exchange_step N B e (x, Xe_resume error) =
     (case ex_op e of
        Some (Xo_resume final) \<Rightarrow> delivers (Xo_resume final) id (exchange_on_resume B x final error) e
      | _ \<Rightarrow> e)"
| "exchange_step N B e (x, Xe_cancel) = exchange_cancel e"
| "exchange_step N B e (x, Xe_shared budget pool) =
     (if (pool = None) = (ex_pool e = None) then e\<lparr>ex_budget := budget, ex_pool := pool\<rparr> else e)"

definition exchange_run ::
  "net_lib \<Rightarrow> beast \<Rightarrow> exchange \<Rightarrow> (exchange_input \<times> exchange_event) list \<Rightarrow> exchange" where
  "exchange_run N B = run_steps (exchange_step N B)"

section \<open>The states between steps\<close>

fun terminal :: "exchange_call \<Rightarrow> bool" where
  "terminal (Call_complete _) = True"
| "terminal (Call_finish _ _) = True"
| "terminal Call_abort = True"
| "terminal _ = False"

definition report :: "exchange \<Rightarrow> exchange_call list" where
  "report e = filter terminal (ex_calls e)"

text \<open>
  How an exchange ends: the result or the end of the stream is reported, or the exchange is
  aborted. When the session's callback throws, the abort follows.
\<close>

definition reported_once :: "exchange_call list \<Rightarrow> bool" where
  "reported_once cs \<longleftrightarrow>
     (\<exists>c. cs = [c]) \<or> (\<exists>c. cs = [c, Call_abort] \<and> c \<noteq> Call_abort)"

definition pending :: "exchange \<Rightarrow> bool" where
  "pending e \<longleftrightarrow>
     \<not> pc_completed (ex_completion e) \<and> ex_on_complete e \<and> ex_on_abort e \<and>
     (ex_streaming e \<longrightarrow> ex_on_finish e) \<and> (ex_stream_started e \<longrightarrow> ex_streaming e) \<and> report e = []"

definition active :: "exchange \<Rightarrow> bool" where
  "active e \<longleftrightarrow> pending e \<and> \<not> ex_observed e \<and> ex_connection e \<noteq> None \<and> \<not> ex_closed e"

text \<open>The memory that the outstanding operation writes to is reserved.\<close>

definition block_reserved :: "exchange \<Rightarrow> bool" where
  "block_reserved e \<longleftrightarrow>
     (case ex_block e of None \<Rightarrow> False
      | Some b \<Rightarrow> bp_control (sb_permit b) \<and> sb_size b = unat (bp_bytes (sb_permit b)) \<and> 0 < sb_size b)"

definition body_reserved :: "exchange \<Rightarrow> bool" where
  "body_reserved e \<longleftrightarrow>
     bp_control (ex_body_permit e) \<and>
     bp_bytes (ex_body_permit e) =
       (case pv_content_length (ex_parser e) of None \<Rightarrow> max_upstream_body_bytes | Some n \<Rightarrow> n) \<and>
     bp_bytes (ex_body_permit e) \<le> max_upstream_body_bytes"

definition reserved :: "exchange \<Rightarrow> bool" where
  "reserved e \<longleftrightarrow>
     (case ex_op e of
        Some Xo_read_body \<Rightarrow> body_reserved e
      | Some Xo_read_some \<Rightarrow> block_reserved e
      | Some (Xo_resume False) \<Rightarrow> block_reserved e
      | _ \<Rightarrow> True)"

definition waiting :: "exchange \<Rightarrow> bool" where
  "waiting e \<longleftrightarrow>
     active e \<and> ex_op e \<noteq> None \<and> ex_generation e \<in> set (ex_waits e) \<and> reserved e \<and>
     (case ex_op e of Some (Xo_resume _) \<Rightarrow> ex_stream_started e
      | Some Xo_read_some \<Rightarrow> ex_stream_started e | _ \<Rightarrow> True)"

definition over :: "exchange \<Rightarrow> bool" where
  "over e \<longleftrightarrow>
     pc_completed (ex_completion e) \<and> ex_observed e \<and> (ex_connection e = None \<or> ex_closed e)"

definition finished :: "exchange \<Rightarrow> bool" where
  "finished e \<longleftrightarrow> over e \<and> reported_once (report e)"

definition good :: "bool \<times> exchange \<Rightarrow> bool" where
  "good r \<longleftrightarrow> (if fst r then pending (snd r) else finished (snd r) \<or> waiting (snd r))"

lemmas state_defs = pending_def active_def over_def finished_def report_def reported_once_def

section \<open>Single operations\<close>

text \<open>A handler that throws, or that reports, ends the exchange.\<close>

lemma run_handler_finished:
  assumes "if fst (action e) then pending (snd (action e)) else finished (snd (action e))"
  shows "finished (run_handler action e)"
proof (cases "action e")
  case (Pair threw e')
  show ?thesis
  proof (cases threw)
    case True
    then show ?thesis
      using assms Pair
      by (auto simp: run_handler_def run_proxy_handler_action_def put_completion_def
          ProxyCompletionState_claim_def cancel_operations_def close_upstream_def notify_abort_def
          state_defs Let_def)
  next
    case False
    then show ?thesis
      using assms Pair by (simp add: run_handler_def run_proxy_handler_action_def)
  qed
qed

lemma run_handler_good:
  assumes "good (action e)"
  shows "finished (run_handler action e) \<or> waiting (run_handler action e)"
proof (cases "fst (action e)")
  case True
  then show ?thesis
    using assms run_handler_finished [of action e] by (simp add: good_def)
next
  case False
  then show ?thesis
    using assms
    by (auto simp: good_def run_handler_def run_proxy_handler_action_def case_prod_beta
        split: bool.split)
qed

lemma exchange_complete_finished:
  "pending e \<Longrightarrow> ex_connection e = None \<or> ex_closed e \<Longrightarrow> finished (exchange_complete x result e)"
  by (auto simp: exchange_complete_def run_proxy_completion_action_def put_completion_def
      ProxyCompletionState_claim_def complete_action_def notify_abort_def state_defs Let_def)

lemma complete_stream_finished:
  "pending e \<Longrightarrow> ex_on_finish e \<Longrightarrow> ex_connection e = None \<or> ex_closed e \<Longrightarrow>
   finished (complete_stream x failure d e)"
  by (auto simp: complete_stream_def run_proxy_completion_action_def put_completion_def
      ProxyCompletionState_claim_def complete_stream_action_def notify_abort_def state_defs Let_def)

lemma cancel_operations_pending:
  "pending e \<Longrightarrow> pending (cancel_operations e)"
  "ex_connection (cancel_operations e) = None \<or> ex_closed (cancel_operations e)"
  "ex_stream_started (cancel_operations e) = ex_stream_started e"
  "ex_streaming (cancel_operations e) = ex_streaming e"
  "ex_on_finish (cancel_operations e) = ex_on_finish e"
  by (auto simp: cancel_operations_def close_upstream_def pending_def report_def)

lemma finish_deadline_active [simp]:
  "pending (finish_deadline e) = pending e" "active (finish_deadline e) = active e"
  by (simp_all add: finish_deadline_def pending_def active_def report_def)

lemma finish_deadline_fields [simp]:
  "ex_on_finish (finish_deadline e) = ex_on_finish e" "ex_observed (finish_deadline e) = ex_observed e"
  "ex_body_permit (finish_deadline e) = ex_body_permit e" "ex_budget (finish_deadline e) = ex_budget e"
  "ex_parser (finish_deadline e) = ex_parser e" "ex_connection (finish_deadline e) = ex_connection e"
  "ex_config (finish_deadline e) = ex_config e"
  by (simp_all add: finish_deadline_def)

lemma active_not_observed [simp]: "active e \<Longrightarrow> \<not> ex_observed e"
  by (simp add: active_def)

lemma active_pending: "active e \<Longrightarrow> pending e"
  by (simp add: active_def)

lemma good_throw: "pending e \<Longrightarrow> good (True, e)"
  by (simp add: good_def)

lemma good_finished: "finished e \<Longrightarrow> good (False, e)"
  by (simp add: good_def)

lemma good_waiting: "waiting e \<Longrightarrow> good (False, e)"
  by (simp add: good_def)

lemma pending_started: "pending e \<Longrightarrow> ex_stream_started e \<Longrightarrow> ex_on_finish e"
  by (simp add: pending_def)

lemma exchange_fail_ends:
  assumes "active e"
  shows "if fst (exchange_fail B x stage error e) then pending (snd (exchange_fail B x stage error e))
    else finished (snd (exchange_fail B x stage error e))"
proof -
  let ?e = "cancel_operations (finish_deadline e)"
  have e: "pending ?e" "ex_connection ?e = None \<or> ex_closed ?e" "\<not> ex_observed e"
    using assms cancel_operations_pending [of "finish_deadline e"] by (simp_all add: active_def)
  then show ?thesis
    using exchange_complete_finished [OF e(1,2)] complete_stream_finished [OF e(1) _ e(2)]
      pending_started [OF e(1)]
    by (auto simp: exchange_fail_def Let_def split: sum.split)
qed

lemma exchange_fail_good: "active e \<Longrightarrow> good (exchange_fail B x stage error e)"
  using exchange_fail_ends [of e B x stage error] by (auto simp: good_def split: if_splits)

lemma exchange_reject_good:
  assumes "active e"
  shows "good (exchange_reject_buffer_budget B x n e)"
  using assms cancel_operations_pending [of e]
    exchange_complete_finished [of "cancel_operations e" x]
  by (auto simp: exchange_reject_buffer_budget_def Let_def active_def
      intro: good_throw good_finished split: sum.split)

text \<open>Starting an operation that needs no reservation, under a new deadline.\<close>

lemma begin_initiate_good:
  assumes "active e" and "op \<in> {Xo_resolve, Xo_connect, Xo_handshake, Xo_write, Xo_read_header}"
  shows "good (and_then (begin_deadline x e) (initiate x op))"
  using assms
  by (auto simp: and_then_def begin_deadline_def initiate_def good_def waiting_def active_def
      pending_def report_def reserved_def Let_def)

lemma write_request_good: "active e \<Longrightarrow> good (write_request x e)"
  by (simp add: write_request_def begin_initiate_good)

lemma release_upstream_facts:
  "active e \<Longrightarrow> pending (release_upstream x reusable e)"
  "ex_connection (release_upstream x reusable e) = None \<or> ex_closed (release_upstream x reusable e)"
  "ex_on_finish (release_upstream x reusable e) = ex_on_finish e"
  by (auto simp: release_upstream_def close_upstream_def active_def pending_def report_def)

lemma finish_response_good:
  assumes "active e"
  shows "good (finish_response B x e)"
proof -
  have "good (deliver_response B x e')"
    if "pending e'" "ex_connection e' = None \<or> ex_closed e'" for e'
  proof -
    have "pending (e'\<lparr>ex_body_permit := p\<rparr>)" for p
      using that(1) by (simp add: pending_def report_def)
    then show ?thesis
      using that exchange_complete_finished
      by (auto simp: deliver_response_def BufferBudgetPermit_move_def
          intro!: good_throw good_finished split: sum.split)
  qed
  then show ?thesis
    using release_upstream_facts(1,2) [where e = "finish_deadline e"] assms
    unfolding finish_response_def by simp
qed

lemma finish_stream_finished:
  assumes "active e" and "ex_on_finish e"
  shows "finished (finish_stream B x e)"
  using assms release_upstream_facts [where e = "finish_deadline e"]
  unfolding finish_stream_def
  by (intro complete_stream_finished) simp_all

section \<open>Handlers\<close>

text \<open>
  Each handler, entered while the exchange is active, leaves it waiting or finished, or throws and
  leaves it to \<open>run_handler\<close> to abort it.
\<close>

lemma on_resolve_good: "active e \<Longrightarrow> good (exchange_on_resolve B x error e)"
  by (simp add: exchange_on_resolve_def Let_def exchange_fail_good begin_initiate_good)

lemma active_identity [simp]: "active (e\<lparr>ex_identity := i\<rparr>) = active e"
  by (simp add: active_def pending_def report_def)

lemma on_connect_good: "active e \<Longrightarrow> good (exchange_on_connect N B x error e)"
  by (auto simp: exchange_on_connect_def Let_def
      intro: exchange_fail_good begin_initiate_good write_request_good split: prod.split)

lemma on_handshake_good: "active e \<Longrightarrow> good (exchange_on_handshake B x error e)"
  by (simp add: exchange_on_handshake_def Let_def exchange_fail_good write_request_good)

lemma on_write_good: "active e \<Longrightarrow> good (exchange_on_write B x error e)"
  by (simp add: exchange_on_write_def Let_def exchange_fail_good begin_initiate_good)

lemma active_memory [simp]:
  "active (e\<lparr>ex_block := b\<rparr>) = active e"
  "active (e\<lparr>ex_budget := c\<rparr>) = active e"
  "active (e\<lparr>ex_body_permit := q\<rparr>) = active e"
  by (simp_all add: active_def pending_def report_def)

lemma call_stream_header_good:
  assumes "active e" "ex_streaming e" "ex_generation e \<in> set (ex_waits e)"
    and "pv_done (ex_parser e) \<or> block_reserved e"
  shows "good (call_stream_header B x e)"
  using assms
  by (auto simp: call_stream_header_def Let_def good_def waiting_def active_def pending_def report_def
      reserved_def block_reserved_def split: bool.split)

lemma try_acquire_Some:
  "BufferBudgetState_try_acquire c n = (c', Some q) \<Longrightarrow> bp_control q \<and> bp_bytes q = n"
  by (auto simp: BufferBudgetState_try_acquire_def split: if_splits)

lemma start_stream_good:
  assumes "active e" "ex_streaming e" "ex_generation e \<in> set (ex_waits e)"
  shows "good (start_stream B x e)"
proof -
  let ?bytes = "min 16384 (max_bytes (ex_budget e) - current_bytes (ex_budget e))"
  let ?e = "e\<lparr>ex_block := Some \<lparr>sb_size = 0, sb_permit = BufferBudgetPermit_default\<rparr>\<rparr>"
  have reject: "good (exchange_reject_buffer_budget B x 1 ?e)"
    using assms(1) by (intro exchange_reject_good) simp
  have done_: "pv_done (ex_parser e) \<Longrightarrow> good (call_stream_header B x ?e)"
    using assms by (intro call_stream_header_good) simp_all
  have block: "good (call_stream_header B x (?e\<lparr>ex_budget := c,
      ex_block := Some \<lparr>sb_size = unat ?bytes, sb_permit = q\<rparr>\<rparr>))"
    if "?bytes \<noteq> 0" "BufferBudgetState_try_acquire (ex_budget e) ?bytes = (c, Some q)" for c q
  proof (rule call_stream_header_good)
    show "active (?e\<lparr>ex_budget := c, ex_block := Some \<lparr>sb_size = unat ?bytes, sb_permit = q\<rparr>\<rparr>)"
      using assms(1) by simp
    show "pv_done (ex_parser (?e\<lparr>ex_budget := c,
        ex_block := Some \<lparr>sb_size = unat ?bytes, sb_permit = q\<rparr>\<rparr>)) \<or>
      block_reserved (?e\<lparr>ex_budget := c, ex_block := Some \<lparr>sb_size = unat ?bytes, sb_permit = q\<rparr>\<rparr>)"
      using try_acquire_Some [OF that(2)] that(1) by (simp add: block_reserved_def unat_gt_0)
  qed (use assms in simp_all)
  show ?thesis
    using assms(1) reject done_ block exchange_fail_good [OF assms(1)] active_pending [OF assms(1)]
    by (auto simp: start_stream_def Let_def intro: good_throw split: option.split prod.split)
qed

lemma read_block_good:
  assumes "active e" "ex_generation e \<in> set (ex_waits e)" "block_reserved e" "ex_stream_started e"
  shows "good (read_stream_block x e)"
  using assms
  by (auto simp: read_stream_block_def initiate_def good_def waiting_def active_def pending_def
      report_def reserved_def block_reserved_def)

lemma on_read_some_good:
  assumes "active e" "ex_generation e \<in> set (ex_waits e)" "block_reserved e" "ex_stream_started e"
  shows "good (exchange_on_read_some B x error e)"
proof -
  have "good (if xi_callback_throws x then (True, e\<lparr>ex_calls := ex_calls e @ [Call_body n d]\<rparr>)
      else (False, e\<lparr>ex_calls := ex_calls e @ [Call_body n d], ex_op := Some (Xo_resume d)\<rparr>))" for n d
    using assms
    by (auto simp: good_def waiting_def active_def pending_def report_def reserved_def
        block_reserved_def split: bool.split)
  then show ?thesis
    using assms exchange_fail_good [OF assms(1)] read_block_good [OF assms(1-4)]
    by (simp add: exchange_on_read_some_def Let_def)
qed

lemma on_resume_good:
  assumes "active e" "ex_generation e \<in> set (ex_waits e)" "ex_stream_started e"
    and "\<not> final \<Longrightarrow> block_reserved e"
  shows "good (exchange_on_resume B x final error e)"
proof -
  have f: "ex_on_finish e"
    using assms(1,3) by (simp add: active_def pending_def)
  then have "finished (complete_stream x None True (cancel_operations e))"
    using assms(1) cancel_operations_pending [of e]
    by (intro complete_stream_finished) (simp_all add: active_pending)
  then show ?thesis
    using assms read_block_good [OF assms(1,2) _ assms(3)] finish_stream_finished [OF assms(1) f]
    by (simp add: exchange_on_resume_def good_finished)
qed

lemma on_read_header_good:
  assumes "active e" "ex_generation e \<in> set (ex_waits e)"
  shows "good (exchange_on_read_header B x error e)"
proof -
  let ?v = "ex_parser e"
  let ?plan = "plan_body_reservation (pv_content_length ?v) (pv_done ?v) max_upstream_body_bytes"
  have read: "good (initiate x Xo_read_body (e\<lparr>ex_budget := c', ex_body_permit := q'\<rparr>))"
    if "BufferBudgetState_try_acquire (ex_budget e) (plan_bytes ?plan) = (c, Some q)"
      "plan_kind ?plan \<noteq> Kind_too_large" "plan_kind ?plan \<noteq> Kind_none"
      "BufferBudgetPermit_assign c (ex_body_permit e) q = (c', q', left)" for c q c' q' left
  proof -
    have "q' = q"
      using that(4) by (auto simp: BufferBudgetPermit_assign_def BufferBudgetPermit_move_def
          split: prod.splits)
    then have "body_reserved (e\<lparr>ex_budget := c', ex_body_permit := q'\<rparr>)"
      using try_acquire_Some [OF that(1)] that(2,3)
      by (auto simp: body_reserved_def plan_body_reservation_def split: if_splits option.splits)
    then show ?thesis
      using assms
      by (auto simp: initiate_def good_def waiting_def active_def pending_def report_def reserved_def
          body_reserved_def)
  qed
  show ?thesis
    using assms start_stream_good [OF assms(1) _ assms(2)] exchange_fail_good [of "finish_deadline e"]
      finish_response_good [of "finish_deadline e"] exchange_reject_good [of "finish_deadline e"] read
    by (auto simp: exchange_on_read_header_def Let_def split: option.splits prod.splits)
qed

lemma on_read_body_good:
  assumes "active e"
  shows "good (exchange_on_read_body B x error e)"
  using assms exchange_fail_good [of "finish_deadline e"]
  by (auto simp: exchange_on_read_body_def Let_def
      intro!: exchange_fail_good finish_response_good split: prod.split)

section \<open>Steps preserve the states\<close>

lemma active_delivery [simp]:
  "active (e\<lparr>ex_op := op\<rparr>) = active e" "active (parsed v e) = active e"
  "active (e\<lparr>ex_waits := w\<rparr>) = active e"
  by (simp_all add: active_def pending_def report_def parsed_def)

lemma parsed_fields [simp]:
  "ex_generation (parsed v e) = ex_generation e" "ex_waits (parsed v e) = ex_waits e"
  "block_reserved (parsed v e) = block_reserved e" "ex_stream_started (parsed v e) = ex_stream_started e"
  by (simp_all add: parsed_def block_reserved_def)

lemma block_reserved_op [simp]: "block_reserved (e\<lparr>ex_op := op\<rparr>) = block_reserved e"
  by (simp add: block_reserved_def)

text \<open>A handler that runs, or does not because its operation is not outstanding.\<close>

lemma delivers_ok:
  assumes "waiting e"
    and "ex_op e = Some op \<Longrightarrow> good (action (prepare (e\<lparr>ex_op := None\<rparr>)))"
  shows "waiting (delivers op prepare action e) \<or> finished (delivers op prepare action e)"
  using assms run_handler_good unfolding delivers_def by auto

lemma deadline_step_ok:
  fixes B x
  assumes "waiting e" "generation \<in> set (ex_waits e)"
    and "generation = ex_generation e \<Longrightarrow> error = None"
  defines "e' \<equiv> exchange_on_deadline B x generation error
    (e\<lparr>ex_waits := remove1 generation (ex_waits e)\<rparr>)"
  shows "generation = ex_generation e \<Longrightarrow> finished e'" "waiting e' \<or> finished e'"
proof -
  let ?e = "e\<lparr>ex_waits := remove1 generation (ex_waits e)\<rparr>"
  let ?fail = "exchange_fail B x Stage_timeout (Some Timed_out) ?e"
  let ?act = "\<lambda>e. if error = None \<and> generation = ex_generation e
       then exchange_fail B x Stage_timeout (Some Timed_out) e else (False, e)"
  have e': "e' = run_handler ?act ?e"
    by (simp add: e'_def exchange_on_deadline_def)
  have active: "active ?e"
    using assms(1) by (simp add: waiting_def)
  show timeout: "finished e'" if "generation = ex_generation e"
  proof -
    have "?act ?e = ?fail"
      using assms(3) that by simp
    then show ?thesis
      using run_handler_finished [of ?act ?e] exchange_fail_ends [OF active]
      unfolding e' by simp
  qed
  show "waiting e' \<or> finished e'"
  proof (cases "generation = ex_generation e")
    case False
    then have "e' = ?e"
      by (simp add: e' run_handler_def run_proxy_handler_action_def)
    moreover have "ex_generation e \<in> set (remove1 generation (ex_waits e))"
      using assms(1) False by (simp add: waiting_def in_set_remove1)
    then have "waiting ?e"
      using assms(1) by (simp add: waiting_def reserved_def body_reserved_def block_reserved_def
          cong: option.case_cong exchange_op.case_cong bool.case_cong)
    ultimately show ?thesis by simp
  qed (simp add: timeout)
qed

lemma waiting_entry:
  assumes "waiting e"
  shows "active e" "ex_generation e \<in> set (ex_waits e)"
    "ex_op e = Some Xo_read_some \<Longrightarrow> block_reserved e \<and> ex_stream_started e"
    "ex_op e = Some (Xo_resume final) \<Longrightarrow> ex_stream_started e \<and> (final \<or> block_reserved e)"
  using assms by (auto simp: waiting_def reserved_def split: bool.splits)

lemma waiting_step:
  assumes w: "waiting e" and "snd ev \<noteq> Xe_cancel"
  shows "waiting (exchange_step N B e ev) \<or> finished (exchange_step N B e ev)"
proof -
  note entry = waiting_entry [OF w]
  obtain x xe where ev: "ev = (x, xe)"
    by (cases ev)
  show ?thesis
  proof (cases xe)
    case (Xe_deadline g error)
    have "\<not> ex_observed e"
      using entry(1) by simp
    then show ?thesis
      using deadline_step_ok(2) [OF w, of g error B x] w by (auto simp: ev Xe_deadline)
  next
    case (Xe_resolve error)
    then show ?thesis
      unfolding ev by (auto intro!: delivers_ok [OF w] on_resolve_good simp: entry(1))
  next
    case (Xe_connect error)
    then show ?thesis
      unfolding ev by (auto intro!: delivers_ok [OF w] on_connect_good simp: entry(1))
  next
    case (Xe_handshake error)
    then show ?thesis
      unfolding ev by (auto intro!: delivers_ok [OF w] on_handshake_good simp: entry(1))
  next
    case (Xe_write error)
    then show ?thesis
      unfolding ev by (auto intro!: delivers_ok [OF w] on_write_good simp: entry(1))
  next
    case (Xe_read_header error v)
    have "good (exchange_on_read_header B x error (parsed v (e\<lparr>ex_op := None\<rparr>)))"
      using entry(1,2) by (intro on_read_header_good) simp_all
    then show ?thesis
      unfolding ev Xe_read_header exchange_step.simps by (intro delivers_ok [OF w])
  next
    case (Xe_read_body error v)
    have "good (exchange_on_read_body B x error (parsed v (e\<lparr>ex_op := None\<rparr>)))"
      using entry(1) by (intro on_read_body_good) simp
    then show ?thesis
      unfolding ev Xe_read_body exchange_step.simps by (intro delivers_ok [OF w])
  next
    case (Xe_read_some error v)
    have "good (exchange_on_read_some B x error (parsed v (e\<lparr>ex_op := None\<rparr>)))"
      if "ex_op e = Some Xo_read_some"
      using entry(1-3) that by (intro on_read_some_good) simp_all
    then show ?thesis
      unfolding ev Xe_read_some exchange_step.simps by (intro delivers_ok [OF w])
  next
    case (Xe_resume error)
    have "good (exchange_on_resume B x final error (id (e\<lparr>ex_op := None\<rparr>)))"
      if "ex_op e = Some (Xo_resume final)" for final
      using entry(1,2) entry(4) [OF that] by (intro on_resume_good) auto
    then show ?thesis
      using w delivers_ok [OF w] unfolding ev Xe_resume exchange_step.simps
      by (auto split: option.split exchange_op.split)
  next
    case Xe_cancel
    then show ?thesis
      using assms(2) ev by simp
  next
    case (Xe_shared budget pool)
    have "waiting (e\<lparr>ex_budget := budget, ex_pool := pool\<rparr>)"
      using w by (simp add: waiting_def active_def pending_def report_def reserved_def body_reserved_def
          block_reserved_def cong: option.case_cong exchange_op.case_cong bool.case_cong)
    then show ?thesis
      using w by (simp add: ev Xe_shared)
  qed
qed

lemmas handler_defs = exchange_on_resolve_def exchange_on_connect_def exchange_on_handshake_def
  exchange_on_write_def exchange_on_read_header_def exchange_on_read_body_def
  exchange_on_read_some_def exchange_on_resume_def

text \<open>After the end no handler changes what was reported.\<close>

lemma over_delivers:
  assumes "over e" and "\<And>e. ex_observed e \<Longrightarrow> action e = (False, e)"
    and "prepare = id \<or> prepare = parsed v"
  shows "over (delivers op prepare action e) \<and> ex_calls (delivers op prepare action e) = ex_calls e"
proof -
  let ?e = "prepare (e\<lparr>ex_op := None\<rparr>)"
  have e: "over ?e" "ex_calls ?e = ex_calls e" "ex_observed ?e"
    using assms(1,3) by (auto simp: over_def parsed_def)
  have "run_handler action ?e = ?e"
    using assms(2) [OF e(3)] by (simp add: run_handler_def run_proxy_handler_action_def)
  then show ?thesis
    using e(1,2) assms(1) unfolding delivers_def by simp
qed

lemma over_step:
  assumes "over e"
  shows "over (exchange_step N B e ev) \<and> ex_calls (exchange_step N B e ev) = ex_calls e"
proof -
  obtain x xe where ev: "ev = (x, xe)"
    by (cases ev)
  show ?thesis
  proof (cases xe)
    case (Xe_deadline g error)
    then show ?thesis
      using assms
      by (simp add: ev exchange_on_deadline_def run_handler_def run_proxy_handler_action_def
          exchange_fail_def over_def)
  next
    case (Xe_resume error)
    then show ?thesis
      using assms over_delivers [OF assms, of "exchange_on_resume B x _ error" id]
      by (auto simp: ev exchange_on_resume_def split: option.split exchange_op.split)
  next
    case Xe_cancel
    then show ?thesis
      using assms
      by (simp add: ev exchange_cancel_def ProxyCompletionState_claim_def put_completion_def over_def)
  next
    case (Xe_shared budget pool)
    then show ?thesis
      using assms by (simp add: ev over_def)
  next
    case (Xe_read_header error v)
    then show ?thesis
      unfolding ev exchange_step.simps by (auto intro!: over_delivers [OF assms] simp: handler_defs)
  next
    case (Xe_read_body error v)
    then show ?thesis
      unfolding ev exchange_step.simps by (auto intro!: over_delivers [OF assms] simp: handler_defs)
  next
    case (Xe_read_some error v)
    then show ?thesis
      unfolding ev exchange_step.simps by (auto intro!: over_delivers [OF assms] simp: handler_defs)
  qed (use over_delivers [OF assms, where prepare = id] in \<open>simp_all add: ev handler_defs\<close>)
qed

section \<open>Runs\<close>

definition exchange_inv :: "exchange \<Rightarrow> bool" where
  "exchange_inv e \<longleftrightarrow> waiting e \<or> over e \<and> (report e = [] \<or> reported_once (report e))"

lemma cancel_over: "waiting e \<Longrightarrow> over (exchange_cancel e) \<and> report (exchange_cancel e) = []"
  by (auto simp: exchange_cancel_def ProxyCompletionState_claim_def put_completion_def
      cancel_operations_def close_upstream_def waiting_def state_defs)

lemma report_calls: "ex_calls e' = ex_calls e \<Longrightarrow> report e' = report e"
  by (simp add: report_def)

interpretation exchanges: step_invariant "exchange_step N B" exchange_inv for N B
proof
  fix e ev assume inv: "exchange_inv e"
  show "exchange_inv (exchange_step N B e ev)"
  proof (cases "waiting e")
    case True
    then show ?thesis
    proof (cases "snd ev = Xe_cancel")
      case True
      then show ?thesis
        using cancel_over [OF \<open>waiting e\<close>] by (cases ev) (simp add: exchange_inv_def)
    next
      case False
      then show ?thesis
        using waiting_step [OF \<open>waiting e\<close>, of ev N B] by (auto simp: exchange_inv_def finished_def)
    qed
  next
    case False
    then show ?thesis
      using inv over_step [of e N B ev] report_calls [of "exchange_step N B e ev" e]
      by (auto simp: exchange_inv_def)
  qed
qed

interpretation uncancelled: step_invariant
  "\<lambda>e ev. if snd ev = Xe_cancel then e else exchange_step N B e ev" "\<lambda>e. waiting e \<or> finished e" for N B
proof
  fix e ev assume "waiting e \<or> finished e"
  then show "waiting (if snd ev = Xe_cancel then e else exchange_step N B e ev) \<or>
      finished (if snd ev = Xe_cancel then e else exchange_step N B e ev)"
    using waiting_step [of e ev N B] over_step [of e N B ev] report_calls [of "exchange_step N B e ev" e]
    by (auto simp: finished_def)
qed

lemma run_over:
  "over e \<Longrightarrow> over (exchange_run N B e es) \<and> ex_calls (exchange_run N B e es) = ex_calls e"
proof (induction es arbitrary: e)
  case (Cons ev es)
  then show ?case
    using over_step [OF Cons.prems, of N B ev] Cons.IH [of "exchange_step N B e ev"]
    by (simp add: exchange_run_def run_steps_def)
qed (simp add: exchange_run_def run_steps_def)

lemma run_uncancelled:
  assumes "waiting e" and "Xe_cancel \<notin> snd ` set es"
  shows "waiting (exchange_run N B e es) \<or> finished (exchange_run N B e es)"
proof -
  have "exchange_run N B e es =
      run_steps (\<lambda>e ev. if snd ev = Xe_cancel then e else exchange_step N B e ev) e es"
    unfolding exchange_run_def run_steps_def
    by (rule foldl_cong) (use assms(2) in \<open>auto simp: image_iff\<close>)
  then show ?thesis
    using uncancelled.run_inv [of e N B es] assms(1) by simp
qed

lemma started_waiting:
  assumes "HttpProxyExchange_new B x0 selected request context budget callbacks pool ident = Inr e0"
    and "exchange_start x e0 = (False, e1)"
  shows "waiting e1"
proof -
  have "active e0"
    using assms(1)
    by (auto simp: HttpProxyExchange_new_def active_def pending_def report_def
        ProxyCompletionState_new_def Let_def elim!: bind_result_InrE
        split: option.splits prod.splits if_splits)
  then have "good (exchange_start x e0)" "\<not> ex_observed e1"
    using begin_initiate_good [of e0 Xo_resolve x] write_request_good [of e0 x] assms(2)
    by (auto simp: exchange_start_def write_request_def and_then_def begin_deadline_def initiate_def
        Let_def split: if_splits)
  then show ?thesis
    using assms(2) by (auto simp: good_def finished_def over_def)
qed

section \<open>Theorems\<close>


text \<open>
  C6. An exchange never hangs. While an exchange has not ended, one operation is outstanding, the
  wait of its current deadline is outstanding too, and the memory the operation fills is reserved
  (a body of unknown length reserves the largest body). When that deadline passes, the exchange
  ends and reports.
\<close>

theorem exchange_under_deadline:
  assumes "HttpProxyExchange_new B x0 selected request context budget callbacks pool ident = Inr e0"
    and "exchange_start x e0 = (False, e1)" and "e = exchange_run N B e1 es"
    and "\<not> pc_completed (ex_completion e)"
  shows "ex_op e \<noteq> None \<and> ex_generation e \<in> set (ex_waits e) \<and> reserved e \<and>
    finished (exchange_step N B e (x', Xe_deadline (ex_generation e) None))"
proof -
  have "exchange_inv e"
    unfolding assms(3) exchange_run_def
    by (rule exchanges.run_inv) (simp add: exchange_inv_def started_waiting [OF assms(1,2)])
  then have w: "waiting e"
    using assms(4) by (simp add: exchange_inv_def over_def)
  then have "ex_op e \<noteq> None" "ex_generation e \<in> set (ex_waits e)" "reserved e"
    by (simp_all add: waiting_def)
  then show ?thesis
    using deadline_step_ok(1) [OF w, of "ex_generation e" None B x'] by simp
qed

text \<open>A concrete exchange over a new connection.\<close>

definition sample_input :: exchange_input where
  "sample_input =
     \<lparr>xi_sockets = \<lparr>sv_is_open = (\<lambda>_. True), sv_tls_pending = (\<lambda>_. False),
        sv_available = (\<lambda>_. (None, 0))\<rparr>,
      xi_pool_fault = No_fault, xi_now = 0, xi_deadline_throws = False, xi_begin_throws = False,
      xi_alloc_throws = False, xi_callback_throws = False\<rparr>"

definition sample_exchange :: "exchange result" where
  "sample_exchange = HttpProxyExchange_new sample_beast sample_input sample_selected
     (HttpRequest_new Get ''/api/x'' 11) None (Some (BufferBudgetState_new 1000)) (True, True, True)
     None 0"

lemma sample_exchange_starts:
  "\<exists>e0 e1. sample_exchange = Inr e0 \<and> exchange_start sample_input e0 = (False, e1) \<and>
     ex_op e1 = Some Xo_resolve \<and> \<not> pc_completed (ex_completion e1)"
  by (simp add: sample_exchange_def HttpProxyExchange_new_def make_upstream_request_def Let_def
      HttpRequest_new_def UpstreamConnection_new_def sample_selected_def exchange_start_def
      begin_deadline_def initiate_def and_then_def sample_input_def ProxyCompletionState_new_def
      sample_upstream_def)


theorem exchange_under_deadline_witness:
  "\<exists>e0 e1. sample_exchange = Inr e0 \<and> exchange_start sample_input e0 = (False, e1) \<and>
     ex_op e1 \<noteq> None \<and>
     finished (exchange_step sample_net sample_beast e1
       (sample_input, Xe_deadline (ex_generation e1) None))"
proof -
  obtain e0 e1 where e: "sample_exchange = Inr e0" "exchange_start sample_input e0 = (False, e1)"
    "\<not> pc_completed (ex_completion e1)"
    using sample_exchange_starts by blast
  have run: "e1 = exchange_run sample_net sample_beast e1 []"
    by (simp add: exchange_run_def run_steps_def)
  show ?thesis
    using e exchange_under_deadline [OF e(1) [unfolded sample_exchange_def] e(2) run e(3)]
    by blast
qed

end
