(* ===== verification/Session.thy ===== *)
theory Session
  imports Metrics Admission ApiKeyAuth Exchange
begin

text \<open>
  One client connection, \<open>HttpSession\<close> of \<open>src/http_server.cpp\<close>: TLS handshake, reading a request,
  answering it locally or through an exchange, writing the response, and closing. The transport is
  the operation that is outstanding on it. The admission state, the buffer budget and the metrics
  are shared objects threaded through the steps. The exchange appears as the calls it makes, which
  are events of the session; the theory of the exchange shows which sequences of them occur. What the
  I/O library reports and which calls throw is the input of a step; log lines are not modelled,
  except that a logger call outside a \<open>try\<close> may throw. The lemmas show that a session closes once,
  gives back its proxy permit, serves at most a hundred requests and does not stall, save in one
  case of two failures in a row, which is shown at the end.
\<close>

section \<open>State\<close>

definition max_requests_per_connection :: usize where
  "max_requests_per_connection = 100"

definition max_body_bytes :: u64 where
  "max_body_bytes = 64 * 1024"

text \<open>What the request parser says after a read.\<close>

record request_view =
  rv_request :: http_request
  rv_content_length :: "u64 option"
  rv_done :: bool

text \<open>
  The operation outstanding on the transport. A write knows whether to close afterwards. A stream
  writes the header or a block, which knows whether it is the last one.
\<close>

datatype session_op =
  So_handshake | So_read_header | So_read_body | So_write bool | So_stream "bool option" | So_shutdown

text \<open>
  \<open>ss_exchange\<close> and \<open>ss_stream_writer\<close> say whether the pointers are set. \<open>ss_kept_permits\<close> are the
  request reservations that exchanges still keep alive. \<open>ss_closes\<close> counts the calls of
  \<open>on_close_\<close>, \<open>ss_start_failures\<close> the exchanges that could not be started and were reported as
  failed, \<open>ss_sent\<close> keeps the responses passed to the transport.
\<close>

record 'd session =
  ss_config :: app_config
  ss_tls :: bool
  ss_admission :: route_proxy_admission
  ss_budget :: budget_control
  ss_metrics :: "'d metrics option"
  ss_connections :: "accept_capacity_state option"
  ss_observation :: request_observation
  ss_parser :: "request_view option"
  ss_response :: "http_response option"
  ss_stream_writer :: bool
  ss_stream_pending_bytes :: nat
  ss_stream_status :: nat
  ss_stream_close :: bool
  ss_response_permit :: budget_permit
  ss_exchange :: bool
  ss_proxy_permit :: "proxy_permit option"
  ss_request_permit :: "budget_permit option"
  ss_kept_permits :: "budget_permit list"
  ss_requests_served :: usize
  ss_phase :: session_phase
  ss_tls_established :: bool
  ss_draining :: bool
  ss_stopping :: bool
  ss_finished :: bool
  ss_op :: "session_op option"
  ss_closes :: nat
  ss_start_failures :: nat
  ss_sent :: "http_response list"

datatype exchange_outcome = Exchange_started | Exchange_construction_throws | Exchange_start_throws

record session_input =
  si_now :: time_point
  si_begin_throws :: bool
  si_write_throws :: bool
  si_log_throws :: bool
  si_alloc_throws :: bool
  si_exchange :: exchange_outcome

type_synonym 'd session_action = "'d session \<Rightarrow> bool \<times> 'd session"

text \<open>The libraries: Beast, OpenSSL and the floating-point operations of the metrics.\<close>

record 'd libs =
  lib_beast :: beast
  lib_openssl :: openssl
  lib_double :: "'d double_ops"

definition HttpSession_new ::
  "app_config \<Rightarrow> bool \<Rightarrow> route_proxy_admission option \<Rightarrow> budget_control option \<Rightarrow> 'd metrics option \<Rightarrow>
   accept_capacity_state option \<Rightarrow> bool \<Rightarrow> bool \<Rightarrow> 'd session result" where
  "HttpSession_new config proxies route_admission budget metrics connections on_close tls =
     (if \<not> proxies then Inl (Invalid_argument ''proxy admission state must not be empty'')
      else case budget of
        None \<Rightarrow> Inl (Invalid_argument ''buffer budget must not be empty'')
      | Some control \<Rightarrow>
          if \<not> on_close then Inl (Invalid_argument ''session close callback must not be empty'')
          else case route_admission of
            None \<Rightarrow> Inl (Invalid_argument ''route proxy admission must not be empty'')
          | Some admission \<Rightarrow> Inr
              \<lparr>ss_config = config, ss_tls = tls, ss_admission = admission, ss_budget = control,
               ss_metrics = metrics, ss_connections = connections,
               ss_observation = RequestObservation_new, ss_parser = None, ss_response = None,
               ss_stream_writer = False, ss_stream_pending_bytes = 0, ss_stream_status = 0,
               ss_stream_close = False, ss_response_permit = BufferBudgetPermit_default,
               ss_exchange = False, ss_proxy_permit = None, ss_request_permit = None,
               ss_kept_permits = [], ss_requests_served = 0, ss_phase = Reading,
               ss_tls_established = False, ss_draining = False, ss_stopping = False,
               ss_finished = False, ss_op = None, ss_closes = 0, ss_start_failures = 0,
               ss_sent = []\<rparr>)"

section \<open>Closing\<close>

definition release_budget :: "budget_permit \<Rightarrow> 'd session \<Rightarrow> 'd session" where
  "release_budget p s = s\<lparr>ss_budget := fst (BufferBudgetPermit_release (ss_budget s) p)\<rparr>"

definition reset_request_permit :: "'d session \<Rightarrow> 'd session" where
  "reset_request_permit s =
     (case ss_request_permit s of None \<Rightarrow> s
      | Some p \<Rightarrow> (release_budget p s)\<lparr>ss_request_permit := None\<rparr>)"

definition reset_proxy_permit :: "'d session \<Rightarrow> 'd session" where
  "reset_proxy_permit s =
     (case ss_proxy_permit s of None \<Rightarrow> s
      | Some p \<Rightarrow> s\<lparr>ss_admission := (ss_admission s)\<lparr>adm_proxies :=
            fst (ProxyPermit_release (adm_proxies (ss_admission s)) p)\<rparr>,
          ss_proxy_permit := None\<rparr>)"

definition reset_exchange :: "'d session \<Rightarrow> 'd session" where
  "reset_exchange s = s\<lparr>ss_exchange := False\<rparr>"

definition session_finish :: "'d session \<Rightarrow> 'd session" where
  "session_finish s =
     (if ss_finished s then s
      else s\<lparr>ss_finished := True, ss_phase := Finished, ss_closes := ss_closes s + 1\<rparr>)"

text \<open>Cancelling the exchange and dropping the pointer to it are one step here.\<close>

definition close_socket :: "'d session \<Rightarrow> 'd session" where
  "close_socket s =
     (if ss_finished s then s else session_finish (reset_proxy_permit (reset_exchange s)))"

definition session_stop :: "'d session \<Rightarrow> 'd session" where
  "session_stop s =
     (if ss_finished s then s
      else session_finish (reset_proxy_permit (reset_exchange (s\<lparr>ss_stopping := True\<rparr>))))"

definition session_begin_drain :: "'d session \<Rightarrow> 'd session" where
  "session_begin_drain s =
     (if ss_draining s \<or> ss_finished s then s
      else let s = s\<lparr>ss_draining := True\<rparr> in
        if classify_session_drain (ss_phase s) = Close_immediately then session_stop s else s)"

definition session_run_handler :: "'d session_action \<Rightarrow> 'd session \<Rightarrow> 'd session" where
  "session_run_handler action s =
     (case action s of (threw, s) \<Rightarrow> if threw then close_socket s else s)"

definition begin_op :: "session_input \<Rightarrow> session_op \<Rightarrow> 'd session_action" where
  "begin_op x op s = (if si_begin_throws x then (True, s) else (False, s\<lparr>ss_op := Some op\<rparr>))"

definition graceful_close :: "session_input \<Rightarrow> 'd session \<Rightarrow> 'd session" where
  "graceful_close x s =
     (if ss_finished s \<or> ss_phase s = Closing then s
      else if \<not> ss_tls s \<or> \<not> ss_tls_established s then close_socket s
      else case begin_op x So_shutdown (s\<lparr>ss_phase := Closing\<rparr>) of
        (threw, s) \<Rightarrow> if threw then close_socket s else s)"

definition on_shutdown :: "error_code \<Rightarrow> 'd session \<Rightarrow> 'd session" where
  "on_shutdown error s = (if ss_finished s then s else close_socket s)"

section \<open>Reading and writing\<close>

definition empty_view :: request_view where
  "empty_view = \<lparr>rv_request = HttpRequest_new Get [] 11, rv_content_length = None, rv_done = False\<rparr>"

definition read_request :: "session_input \<Rightarrow> 'd session_action" where
  "read_request x s =
     (if ss_stopping s \<or> ss_draining s then (False, close_socket s)
      else begin_op x So_read_header
        (s\<lparr>ss_observation := RequestObservation_new, ss_phase := Reading, ss_parser := Some empty_view\<rparr>))"

definition session_start :: "session_input \<Rightarrow> 'd session_action" where
  "session_start x s =
     (if \<not> ss_tls s then read_request x s
      else begin_op x So_handshake (s\<lparr>ss_phase := Handshaking\<rparr>))"

definition on_handshake :: "session_input \<Rightarrow> error_code \<Rightarrow> 'd session_action" where
  "on_handshake x error s =
     (if ss_finished s then (False, s)
      else if error \<noteq> None then (False, close_socket s)
      else read_request x (s\<lparr>ss_tls_established := True\<rparr>))"

text \<open>\<open>observation_.finish\<close>, \<open>reject\<close>, \<open>fail\<close> and \<open>fail_stream\<close> on the session's metrics.\<close>

definition observe_finish ::
  "'d libs \<Rightarrow> session_input \<Rightarrow> nat \<Rightarrow> 'd session \<Rightarrow> 'd session \<times> bool" where
  "observe_finish L x status s =
     (case RequestObservation_finish (lib_double L) (ss_observation s) (ss_metrics s) status (si_now x) of
        (ob, m, first) \<Rightarrow> (s\<lparr>ss_observation := ob, ss_metrics := m\<rparr>, first))"

definition observe_reject :: "rejection_reason \<Rightarrow> 'd session \<Rightarrow> 'd session" where
  "observe_reject reason s =
     (case RequestObservation_reject (ss_observation s) (ss_metrics s) reason of
        (ob, m) \<Rightarrow> s\<lparr>ss_observation := ob, ss_metrics := m\<rparr>)"

definition observe_fail :: "proxy_failure_stage \<Rightarrow> 'd session \<Rightarrow> 'd session" where
  "observe_fail stage s =
     (case RequestObservation_fail (ss_observation s) (ss_metrics s) stage of
        (ob, m) \<Rightarrow> s\<lparr>ss_observation := ob, ss_metrics := m\<rparr>)"

definition observe_fail_stream :: "proxy_failure_stage \<Rightarrow> 'd session \<Rightarrow> 'd session" where
  "observe_fail_stream stage s =
     (case RequestObservation_fail_stream (ss_observation s) (ss_metrics s) stage of
        (ob, m) \<Rightarrow> s\<lparr>ss_observation := ob, ss_metrics := m\<rparr>)"

definition write_response ::
  "'d libs \<Rightarrow> session_input \<Rightarrow> http_response \<Rightarrow> budget_permit \<Rightarrow> 'd session_action" where
  "write_response L x response body_permit s =
     (if ss_finished s \<or> ss_stopping s then (False, release_budget body_permit s)
      else case observe_finish L x (res_status response) s of
        (s, False) \<Rightarrow> (False, release_budget body_permit s)
      | (s, True) \<Rightarrow>
          let response = (if ss_draining s then response_keep_alive (lib_beast L) response False
                else response);
              close_after_write = need_eof (lib_beast L) response;
              (budget, permit, _) =
                BufferBudgetPermit_assign (ss_budget s) (ss_response_permit s) body_permit;
              s = s\<lparr>ss_phase := Writing, ss_response := Some response, ss_budget := budget,
                ss_response_permit := permit, ss_sent := ss_sent s @ [response]\<rparr> in
          if si_write_throws x then (True, s)
          else (False, s\<lparr>ss_op := Some (So_write close_after_write)\<rparr>))"

definition on_write :: "session_input \<Rightarrow> error_code \<Rightarrow> bool \<Rightarrow> 'd session_action" where
  "on_write x error close_after_write s =
     (if ss_finished s then (False, s)
      else
        let (budget, permit) = BufferBudgetPermit_release (ss_budget s) (ss_response_permit s);
            s = reset_request_permit (s\<lparr>ss_response := None, ss_budget := budget,
              ss_response_permit := permit, ss_parser := None\<rparr>) in
        if classify_http_write_result error (ss_stopping s) = Write_success then
          if close_after_write \<or> ss_draining s then (False, graceful_close x s)
          else read_request x s
        else (False, close_socket s))"

section \<open>Errors of the protocol\<close>

definition write_protocol_error ::
  "'d libs \<Rightarrow> session_input \<Rightarrow> nat \<Rightarrow> string \<Rightarrow> string \<Rightarrow> 'd session_action" where
  "write_protocol_error L x status code message s =
     (let B = lib_beast L; response = HttpResponse_new status 11;
          response = response_set B response Field_server ''ApiGate'';
          response = response_set B response Field_content_type ''application/json'';
          response = response_set B response Field_cache_control ''no-store'';
          response = response_keep_alive B response False in
      case bind_result (json_dump B (error_json code message)) (\<lambda>body.
          prepare_response B (response\<lparr>res_body := body\<rparr>)) of
        Inl _ \<Rightarrow> (True, s)
      | Inr response \<Rightarrow>
          if si_log_throws x then (True, s)
          else write_response L x response BufferBudgetPermit_default s)"

definition handle_read_error :: "'d libs \<Rightarrow> session_input \<Rightarrow> error_value \<Rightarrow> 'd session_action" where
  "handle_read_error L x error s =
     (if error = End_of_stream then (False, graceful_close x s)
      else if error = Operation_aborted \<or> error = Stream_truncated then (False, close_socket s)
      else if error = Beast_timeout then
        if si_log_throws x then (True, s) else (False, close_socket s)
      else if error = Body_limit then
        write_protocol_error L x status_payload_too_large ''payload_too_large''
          ''request body is too large'' s
      else if error = Header_limit then
        write_protocol_error L x status_request_header_fields_too_large ''headers_too_large''
          ''request headers are too large'' s
      else if si_log_throws x then (True, s)
      else write_protocol_error L x status_bad_request ''bad_request'' ''malformed HTTP request'' s)"

section \<open>Answering\<close>

definition limit_keep_alive :: "'d libs \<Rightarrow> 'd session \<Rightarrow> http_response \<Rightarrow> http_response" where
  "limit_keep_alive L s response =
     (if max_requests_per_connection \<le> ss_requests_served s
      then response_keep_alive (lib_beast L) response False else response)"

text \<open>Writing a response that may fail to be made, with the limit on requests applied.\<close>

definition answer ::
  "'d libs \<Rightarrow> session_input \<Rightarrow> http_response result \<Rightarrow> 'd session_action" where
  "answer L x made s =
     (case made of Inl _ \<Rightarrow> (True, s)
      | Inr response \<Rightarrow>
          write_response L x (limit_keep_alive L s response) BufferBudgetPermit_default s)"

definition reject_buffer_budget ::
  "'d libs \<Rightarrow> session_input \<Rightarrow> http_request \<Rightarrow> 'd session_action" where
  "reject_buffer_budget L x request s =
     (let s = observe_reject Reason_buffer_capacity s in
      case make_gateway_error_response (lib_beast L) request Buffer_capacity_exhausted of
        Inl _ \<Rightarrow> (True, s)
      | Inr response \<Rightarrow>
          write_response L x (response_keep_alive (lib_beast L) response False)
            BufferBudgetPermit_default s)"

text \<open>The body of \<open>start_proxy_request\<close>'s \<open>try\<close>.\<close>

definition try_proxy_request ::
  "'d libs \<Rightarrow> session_input \<Rightarrow> http_request \<Rightarrow> selected_route \<Rightarrow> 'd session_action" where
  "try_proxy_request L x request route s =
     (case RouteProxyAdmission_try_acquire (ss_admission s) route (si_now x) of
        (admission, Inl _) \<Rightarrow> (True, s\<lparr>ss_admission := admission\<rparr>)
      | (admission, Inr r) \<Rightarrow>
          let s = s\<lparr>ss_admission := admission\<rparr> in
          if \<not> allowed (ar_rate_limit r) then
            answer L x (make_rate_limited_response (lib_beast L) request
              (retry_after_seconds (ar_rate_limit r))) (observe_reject Reason_rate_limit s)
          else if ar_no_healthy_upstream r then
            answer L x (make_gateway_error_response (lib_beast L) request No_healthy_upstream)
              (observe_reject Reason_no_healthy_upstream s)
          else
            let s = (reset_proxy_permit s)\<lparr>ss_proxy_permit := ar_permit r\<rparr> in
            if ar_permit r = None then
              answer L x (make_gateway_error_response (lib_beast L) request Gateway_overloaded)
                (observe_reject Reason_proxy_capacity s)
            else if ar_upstream r = None \<or> si_exchange x = Exchange_construction_throws
            then (True, s)
            else if si_exchange x = Exchange_start_throws then (True, s\<lparr>ss_exchange := True\<rparr>)
            else (False, s\<lparr>ss_exchange := True, ss_parser := None,
              ss_kept_permits := ss_kept_permits s @
                (case ss_request_permit s of None \<Rightarrow> [] | Some p \<Rightarrow> [p]),
              ss_request_permit := None\<rparr>))"

definition start_proxy_request ::
  "'d libs \<Rightarrow> session_input \<Rightarrow> http_request \<Rightarrow> selected_route \<Rightarrow> 'd session \<Rightarrow> 'd session" where
  "start_proxy_request L x request route s =
     (case try_proxy_request L x request route s of
        (False, s) \<Rightarrow> s
      | (True, s) \<Rightarrow>
          let s = reset_proxy_permit (reset_exchange s) in
          case make_gateway_error_response (lib_beast L) request Bad_gateway of
            Inl _ \<Rightarrow> close_socket s
          | Inr response \<Rightarrow>
              (case write_response L x response BufferBudgetPermit_default
                  (observe_fail Stage_connect (s\<lparr>ss_start_failures := ss_start_failures s + 1\<rparr>)) of
                 (threw, s) \<Rightarrow> if threw then close_socket s else s))"

definition local_response :: "'d libs \<Rightarrow> http_request \<Rightarrow> 'd session \<Rightarrow> http_response result" where
  "local_response L request s =
     bind_result (handle_http_request (lib_beast L) (ss_config s) request) (\<lambda>response.
       if is_metrics_target (ss_config s) (req_target request) \<and> res_status response = status_ok then
         case (ss_metrics s, ss_connections s) of
           (Some m, Some connections) \<Rightarrow>
             bind_result (Metrics_render (lib_double L) m (ss_config s) connections
                 (adm_proxies (ss_admission s)) (ss_budget s) (adm_health (ss_admission s)))
               (make_metrics_response (lib_beast L) request)
         | _ \<Rightarrow> Inl (Logic_error ''metrics runtime state is missing'')
       else Inr response)"

definition process_request :: "'d libs \<Rightarrow> session_input \<Rightarrow> 'd session_action" where
  "process_request L x s =
     (case ss_parser s of
        None \<Rightarrow> if si_log_throws x then (True, s) else (False, close_socket s)
      | Some v \<Rightarrow>
          let request = rv_request v;
              s = s\<lparr>ss_observation := RequestObservation_begin (ss_observation s) (si_now x),
                ss_requests_served := ss_requests_served s + 1\<rparr> in
          case select_http_route (lib_beast L) (ss_config s) request of
            Some route \<Rightarrow>
              (case (case sr_auth route of None \<Rightarrow> Inr True
                     | Some auth \<Rightarrow> authenticate_api_key (lib_beast L) (lib_openssl L) auth request) of
                 Inl _ \<Rightarrow> (True, s)
               | Inr False \<Rightarrow>
                   answer L x (make_authentication_failed_response (lib_beast L) request) s
               | Inr True \<Rightarrow>
                   (False, start_proxy_request L x request route (s\<lparr>ss_phase := Proxying\<rparr>)))
          | None \<Rightarrow> answer L x (local_response L request s) s)"

definition expects :: "beast \<Rightarrow> http_request \<Rightarrow> bool" where
  "expects B request \<longleftrightarrow>
     list_ex (\<lambda>f. field_of B (fst f) = Field_expect \<and> snd f \<noteq> []) (req_fields request)"

definition on_read_header :: "'d libs \<Rightarrow> session_input \<Rightarrow> error_code \<Rightarrow> 'd session_action" where
  "on_read_header L x error s0 =
     (let s = (case ss_parser s0 of None \<Rightarrow> s0
            | Some v \<Rightarrow> s0\<lparr>ss_observation := RequestObservation_exclude (ss_observation s0)
                (is_metrics_target (ss_config s0) (req_target (rv_request v)))\<rparr>) in
      if ss_finished s then (False, s)
      else case error of
        Some e \<Rightarrow> handle_read_error L x e s
      | None \<Rightarrow>
          (case ss_parser s of
             None \<Rightarrow> if si_log_throws x then (True, s) else (False, close_socket s)
           | Some v \<Rightarrow>
               if expects (lib_beast L) (rv_request v) then
                 write_protocol_error L x status_expectation_failed ''expectation_failed''
                   ''Expect is not supported'' s
               else if (case rv_content_length v of None \<Rightarrow> False | Some n \<Rightarrow> max_body_bytes < n) then
                 write_protocol_error L x status_payload_too_large ''payload_too_large''
                   ''request body is too large'' s
               else
                 let plan = plan_body_reservation (rv_content_length v) (rv_done v) max_body_bytes in
                 if plan_kind plan = Kind_none then process_request L x s
                 else if plan_kind plan = Kind_too_large then
                   write_protocol_error L x status_payload_too_large ''payload_too_large''
                     ''request body is too large'' s
                 else case BufferBudgetState_try_acquire (ss_budget s) (plan_bytes plan) of
                     (budget, None) \<Rightarrow>
                       reject_buffer_budget L x (rv_request v) (s\<lparr>ss_budget := budget\<rparr>)
                   | (budget, Some permit) \<Rightarrow>
                       if si_alloc_throws x
                       then (True, release_budget permit (s\<lparr>ss_budget := budget\<rparr>))
                       else begin_op x So_read_body ((reset_request_permit
                         (s\<lparr>ss_budget := budget\<rparr>))\<lparr>ss_request_permit := Some permit\<rparr>)))"

definition on_read_body :: "'d libs \<Rightarrow> session_input \<Rightarrow> error_code \<Rightarrow> 'd session_action" where
  "on_read_body L x error s =
     (if ss_finished s then (False, s)
      else case error of
        Some e \<Rightarrow> handle_read_error L x e s
      | None \<Rightarrow>
          (case (ss_parser s, ss_request_permit s) of
             (Some v, Some permit) \<Rightarrow>
               (case BufferBudgetPermit_shrink_to (ss_budget s) permit
                    (of_nat (length (req_body (rv_request v)))) of
                  ((budget, permit), ok) \<Rightarrow>
                    let s = s\<lparr>ss_budget := budget, ss_request_permit := Some permit\<rparr> in
                    if ok then process_request L x s else (False, close_socket s))
           | _ \<Rightarrow> (False, close_socket s)))"

section \<open>Calls of the exchange\<close>

text \<open>
  A call of \<open>resume\<close> with an error before the session has started a write leaves the session as
  it is; the exchange goes on with it.
\<close>

definition write_stream_header ::
  "'d libs \<Rightarrow> session_input \<Rightarrow> http_response \<Rightarrow> 'd session_action" where
  "write_stream_header L x header s =
     (if ss_finished s \<or> ss_stopping s then (False, s)
      else
        let header = (if ss_draining s \<or> max_requests_per_connection \<le> ss_requests_served s
              then response_keep_alive (lib_beast L) header False else header);
            s = fst (observe_finish L x (res_status header)
              (s\<lparr>ss_stream_close := need_eof (lib_beast L) header,
                 ss_stream_status := res_status header\<rparr>)) in
        if si_alloc_throws x then (True, s)
        else begin_op x (So_stream None) (s\<lparr>ss_stream_writer := True, ss_phase := Writing\<rparr>))"

definition write_stream_body :: "session_input \<Rightarrow> nat \<Rightarrow> bool \<Rightarrow> 'd session_action" where
  "write_stream_body x bytes final s =
     (if ss_finished s \<or> ss_stopping s then (False, s)
      else begin_op x (So_stream (Some final)) (s\<lparr>ss_stream_pending_bytes := bytes\<rparr>))"

definition on_stream_written :: "'d session \<Rightarrow> 'd session" where
  "on_stream_written s = s\<lparr>ss_stream_pending_bytes := 0\<rparr>"

definition on_stream_complete ::
  "session_input \<Rightarrow> proxy_failure option \<Rightarrow> bool \<Rightarrow> 'd session_action" where
  "on_stream_complete x failure downstream_failed s =
     (let s = (reset_proxy_permit (reset_exchange s))\<lparr>ss_stream_writer := False\<rparr> in
      if ss_finished s \<or> ss_stopping s then (False, s)
      else if failure \<noteq> None \<or> downstream_failed then
        let s = (case failure of None \<Rightarrow> s | Some f \<Rightarrow> observe_fail_stream (pf_stage f) s) in
        if si_log_throws x then (True, s) else (False, close_socket s)
      else if ss_stream_close s \<or> ss_draining s then (False, graceful_close x s)
      else read_request x s)"

definition on_proxy_complete ::
  "'d libs \<Rightarrow> session_input \<Rightarrow> proxy_result \<Rightarrow> 'd session \<Rightarrow> 'd session" where
  "on_proxy_complete L x result s =
     (let s = reset_proxy_permit (reset_exchange s) in
      if ss_finished s \<or> ss_stopping s \<or> ob_completed (ss_observation s)
      then release_budget (pr_body_permit result) s
      else
        let response = limit_keep_alive L s (pr_response result);
            s = (case pr_failure result of None \<Rightarrow> s | Some f \<Rightarrow> observe_fail (pf_stage f) s);
            s = (case pr_rejected_bytes result of None \<Rightarrow> s
                 | Some _ \<Rightarrow> observe_reject Reason_buffer_capacity s) in
        session_run_handler (write_response L x response (pr_body_permit result)) s)"

definition on_proxy_aborted :: "'d session \<Rightarrow> 'd session" where
  "on_proxy_aborted s =
     (let s = reset_proxy_permit (reset_exchange s) in
      if ss_finished s \<or> ss_stopping s then s else close_socket s)"

section \<open>Steps\<close>

text \<open>
  The events of a session: completions of the outstanding operation of the transport, the calls of
  its exchange, and what the server does. An exchange reports the header of a stream at most once,
  blocks only after it, each when the previous write has completed, and either a result or, after a
  header, the end of the stream. When a callback throws, the exchange aborts.
\<close>

datatype 'd session_event =
    Se_handshake error_code
  | Se_read_header error_code request_view
  | Se_read_body error_code request_view
  | Se_write error_code
  | Se_stream_written error_code
  | Se_shutdown error_code
  | Se_complete proxy_result
  | Se_abort
  | Se_stream_header http_response
  | Se_stream_body nat bool
  | Se_stream_finish "proxy_failure option" bool
  | Se_begin_drain
  | Se_stop
  | Se_exchange_destroyed
  | Se_shared route_proxy_admission budget_control "'d metrics option" "accept_capacity_state option"

definition op_done :: "'d session \<Rightarrow> 'd session" where
  "op_done s = s\<lparr>ss_op := None\<rparr>"

definition got_request :: "request_view \<Rightarrow> 'd session \<Rightarrow> 'd session" where
  "got_request v s =
     (case ss_parser s of None \<Rightarrow> op_done s | Some _ \<Rightarrow> (op_done s)\<lparr>ss_parser := Some v\<rparr>)"

definition stream_call :: "'d session_action \<Rightarrow> 'd session \<Rightarrow> 'd session" where
  "stream_call action s = (case action s of (threw, s) \<Rightarrow> if threw then on_proxy_aborted s else s)"

fun session_step ::
  "'d libs \<Rightarrow> 'd session \<Rightarrow> session_input \<times> 'd session_event \<Rightarrow> 'd session" where
  "session_step L s (x, Se_handshake error) =
     (if ss_op s = Some So_handshake then session_run_handler (on_handshake x error) (op_done s) else s)"
| "session_step L s (x, Se_read_header error v) =
     (if ss_op s = Some So_read_header
      then session_run_handler (on_read_header L x error) (got_request v s) else s)"
| "session_step L s (x, Se_read_body error v) =
     (if ss_op s = Some So_read_body
      then session_run_handler (on_read_body L x error) (got_request v s) else s)"
| "session_step L s (x, Se_write error) =
     (case ss_op s of
        Some (So_write close) \<Rightarrow> session_run_handler (on_write x error close) (op_done s)
      | _ \<Rightarrow> s)"
| "session_step L s (x, Se_stream_written error) =
     (case ss_op s of Some (So_stream _) \<Rightarrow> on_stream_written (op_done s) | _ \<Rightarrow> s)"
| "session_step L s (x, Se_shutdown error) =
     (if ss_op s = Some So_shutdown then on_shutdown error (op_done s) else s)"
| "session_step L s (x, Se_complete result) =
     (if ss_exchange s \<and> \<not> ss_stream_writer s then on_proxy_complete L x result s else s)"
| "session_step L s (x, Se_abort) = (if ss_exchange s then on_proxy_aborted s else s)"
| "session_step L s (x, Se_stream_header header) =
     (if ss_exchange s \<and> \<not> ss_stream_writer s
      then stream_call (write_stream_header L x header) s else s)"
| "session_step L s (x, Se_stream_body bytes final) =
     (if ss_exchange s \<and> ss_stream_writer s \<and> ss_op s = None
      then stream_call (write_stream_body x bytes final) s else s)"
| "session_step L s (x, Se_stream_finish failure downstream_failed) =
     (if ss_exchange s \<and> ss_stream_writer s \<and>
         (ss_op s = None \<or> failure \<noteq> None \<or> downstream_failed)
      then session_run_handler (on_stream_complete x failure downstream_failed) s else s)"
| "session_step L s (x, Se_begin_drain) = session_begin_drain s"
| "session_step L s (x, Se_stop) = session_stop s"
| "session_step L s (x, Se_exchange_destroyed) =
     (case ss_kept_permits s of
        [] \<Rightarrow> s
      | p # ps \<Rightarrow> if ss_exchange s then s else release_budget p (s\<lparr>ss_kept_permits := ps\<rparr>))"
| "session_step L s (x, Se_shared admission budget metrics connections) =
     s\<lparr>ss_admission := admission, ss_budget := budget, ss_metrics := metrics,
       ss_connections := connections\<rparr>"

definition session_run ::
  "'d libs \<Rightarrow> 'd session \<Rightarrow> (session_input \<times> 'd session_event) list \<Rightarrow> 'd session" where
  "session_run L = run_steps (session_step L)"

section \<open>The states of a session\<close>

text \<open>\<open>keep_alive(false)\<close> makes the end of the message the end of the connection.\<close>

definition beast_closes :: "beast \<Rightarrow> bool" where
  "beast_closes B \<longleftrightarrow> (\<forall>r. need_eof B (response_keep_alive B r False))"

definition within_limit :: "'d session \<Rightarrow> bool" where
  "within_limit s \<longleftrightarrow> unat (ss_requests_served s) < 100 + ss_start_failures s"

definition sane :: "'d session \<Rightarrow> bool" where
  "sane s \<longleftrightarrow>
     ss_closes s = (if ss_finished s then 1 else 0) \<and> (ss_stopping s \<longrightarrow> ss_finished s) \<and>
     (ss_finished s \<longrightarrow> \<not> ss_exchange s \<and> ss_proxy_permit s = None) \<and>
     unat (ss_requests_served s) \<le> 100 + ss_start_failures s"

definition quiet :: "'d session \<Rightarrow> bool" where
  "quiet s \<longleftrightarrow>
     sane s \<and> \<not> ss_finished s \<and> \<not> ss_exchange s \<and> \<not> ss_stream_writer s \<and> ss_proxy_permit s = None"

definition proxied :: "'d session \<Rightarrow> bool" where
  "proxied s \<longleftrightarrow>
     sane s \<and> \<not> ss_finished s \<and> ss_exchange s \<and> ss_proxy_permit s \<noteq> None \<and>
     ss_phase s \<noteq> Closing \<and>
     (if ss_stream_writer s then within_limit s \<or> ss_stream_close s
      else ss_op s = None \<and> \<not> ob_completed (ss_observation s))"

definition reading :: "'d session \<Rightarrow> bool" where
  "reading s \<longleftrightarrow>
     quiet s \<and> ss_phase s \<noteq> Closing \<and> within_limit s \<and> \<not> ob_completed (ss_observation s)"

definition engaged :: "'d session \<Rightarrow> bool" where
  "engaged s \<longleftrightarrow>
     (case ss_op s of
        Some So_handshake \<Rightarrow> quiet s \<and> within_limit s
      | Some So_read_header \<Rightarrow> reading s
      | Some So_read_body \<Rightarrow> reading s
      | Some (So_write close) \<Rightarrow> quiet s \<and> ss_phase s \<noteq> Closing \<and> (close \<or> within_limit s)
      | Some So_shutdown \<Rightarrow> quiet s
      | Some (So_stream _) \<Rightarrow> proxied s \<and> ss_stream_writer s
      | None \<Rightarrow> proxied s)"

definition session_inv :: "'d session \<Rightarrow> bool" where
  "session_inv s \<longleftrightarrow> sane s \<and> (ss_finished s \<or> engaged s)"

text \<open>The outcome of an action of a handler.\<close>

definition sound :: "bool \<times> 'd session \<Rightarrow> bool" where
  "sound r \<longleftrightarrow> (if fst r then sane (snd r) \<and> \<not> ss_finished (snd r) else session_inv (snd r))"

lemmas session_defs = sane_def quiet_def proxied_def within_limit_def

section \<open>Frames\<close>

text \<open>Most fields do not matter for the states above.\<close>

lemma sane_frame [simp]:
  "sane (s\<lparr>ss_budget := v1\<rparr>) = sane s"
  "sane (s\<lparr>ss_metrics := v2\<rparr>) = sane s"
  "sane (s\<lparr>ss_connections := v3\<rparr>) = sane s"
  "sane (s\<lparr>ss_parser := v5\<rparr>) = sane s"
  "sane (s\<lparr>ss_response := v6\<rparr>) = sane s"
  "sane (s\<lparr>ss_response_permit := v7\<rparr>) = sane s"
  "sane (s\<lparr>ss_request_permit := v8\<rparr>) = sane s"
  "sane (s\<lparr>ss_kept_permits := v9\<rparr>) = sane s"
  "sane (s\<lparr>ss_phase := v10\<rparr>) = sane s"
  "sane (s\<lparr>ss_tls_established := v11\<rparr>) = sane s"
  "sane (s\<lparr>ss_draining := v12\<rparr>) = sane s"
  "sane (s\<lparr>ss_sent := v13\<rparr>) = sane s"
  "sane (s\<lparr>ss_observation := v14\<rparr>) = sane s"
  "sane (s\<lparr>ss_stream_pending_bytes := v15\<rparr>) = sane s"
  "sane (s\<lparr>ss_stream_status := v16\<rparr>) = sane s"
  "sane (s\<lparr>ss_admission := v4\<rparr>) = sane s"
  "sane (s\<lparr>ss_op := v17\<rparr>) = sane s"
  "sane (s\<lparr>ss_stream_close := v18\<rparr>) = sane s"
  "sane (s\<lparr>ss_stream_writer := v19\<rparr>) = sane s"
  by (simp_all add: session_defs)

lemma quiet_frame [simp]:
  "quiet (s\<lparr>ss_budget := v1\<rparr>) = quiet s"
  "quiet (s\<lparr>ss_metrics := v2\<rparr>) = quiet s"
  "quiet (s\<lparr>ss_connections := v3\<rparr>) = quiet s"
  "quiet (s\<lparr>ss_parser := v5\<rparr>) = quiet s"
  "quiet (s\<lparr>ss_response := v6\<rparr>) = quiet s"
  "quiet (s\<lparr>ss_response_permit := v7\<rparr>) = quiet s"
  "quiet (s\<lparr>ss_request_permit := v8\<rparr>) = quiet s"
  "quiet (s\<lparr>ss_kept_permits := v9\<rparr>) = quiet s"
  "quiet (s\<lparr>ss_phase := v10\<rparr>) = quiet s"
  "quiet (s\<lparr>ss_tls_established := v11\<rparr>) = quiet s"
  "quiet (s\<lparr>ss_draining := v12\<rparr>) = quiet s"
  "quiet (s\<lparr>ss_sent := v13\<rparr>) = quiet s"
  "quiet (s\<lparr>ss_observation := v14\<rparr>) = quiet s"
  "quiet (s\<lparr>ss_stream_pending_bytes := v15\<rparr>) = quiet s"
  "quiet (s\<lparr>ss_stream_status := v16\<rparr>) = quiet s"
  "quiet (s\<lparr>ss_admission := v4\<rparr>) = quiet s"
  "quiet (s\<lparr>ss_op := v17\<rparr>) = quiet s"
  "quiet (s\<lparr>ss_stream_close := v18\<rparr>) = quiet s"
  by (simp_all add: session_defs)

lemma within_limit_frame [simp]:
  "within_limit (s\<lparr>ss_budget := v1\<rparr>) = within_limit s"
  "within_limit (s\<lparr>ss_metrics := v2\<rparr>) = within_limit s"
  "within_limit (s\<lparr>ss_connections := v3\<rparr>) = within_limit s"
  "within_limit (s\<lparr>ss_parser := v5\<rparr>) = within_limit s"
  "within_limit (s\<lparr>ss_response := v6\<rparr>) = within_limit s"
  "within_limit (s\<lparr>ss_response_permit := v7\<rparr>) = within_limit s"
  "within_limit (s\<lparr>ss_request_permit := v8\<rparr>) = within_limit s"
  "within_limit (s\<lparr>ss_kept_permits := v9\<rparr>) = within_limit s"
  "within_limit (s\<lparr>ss_phase := v10\<rparr>) = within_limit s"
  "within_limit (s\<lparr>ss_tls_established := v11\<rparr>) = within_limit s"
  "within_limit (s\<lparr>ss_draining := v12\<rparr>) = within_limit s"
  "within_limit (s\<lparr>ss_sent := v13\<rparr>) = within_limit s"
  "within_limit (s\<lparr>ss_observation := v14\<rparr>) = within_limit s"
  "within_limit (s\<lparr>ss_stream_pending_bytes := v15\<rparr>) = within_limit s"
  "within_limit (s\<lparr>ss_stream_status := v16\<rparr>) = within_limit s"
  "within_limit (s\<lparr>ss_admission := v4\<rparr>) = within_limit s"
  "within_limit (s\<lparr>ss_op := v17\<rparr>) = within_limit s"
  "within_limit (s\<lparr>ss_stream_close := v18\<rparr>) = within_limit s"
  "within_limit (s\<lparr>ss_exchange := v20\<rparr>) = within_limit s"
  "within_limit (s\<lparr>ss_proxy_permit := v21\<rparr>) = within_limit s"
  "within_limit (s\<lparr>ss_stream_writer := v19\<rparr>) = within_limit s"
  by (simp_all add: session_defs)

lemma release_budget_frame [simp]:
  "quiet (release_budget p s) = quiet s" "sane (release_budget p s) = sane s"
  "within_limit (release_budget p s) = within_limit s"
  "ss_observation (release_budget p s) = ss_observation s" "ss_op (release_budget p s) = ss_op s"
  "ss_finished (release_budget p s) = ss_finished s"
  by (simp_all add: release_budget_def)

lemma reset_request_permit_frame [simp]:
  "quiet (reset_request_permit s) = quiet s" "within_limit (reset_request_permit s) = within_limit s"
  "ss_observation (reset_request_permit s) = ss_observation s"
  "ss_draining (reset_request_permit s) = ss_draining s"
  "ss_stopping (reset_request_permit s) = ss_stopping s"
  by (simp_all add: reset_request_permit_def release_budget_def split: option.split)

lemma observe_reject_frame [simp]:
  "quiet (observe_reject reason s) = quiet s" "within_limit (observe_reject reason s) = within_limit s"
  "sane (observe_reject reason s) = sane s" "ss_finished (observe_reject reason s) = ss_finished s"
  "ob_completed (ss_observation (observe_reject reason s)) = ob_completed (ss_observation s)"
  "ss_requests_served (observe_reject reason s) = ss_requests_served s"
  by (auto simp: observe_reject_def RequestObservation_reject_def split: prod.split option.splits
      if_splits)

lemma observe_fail_frame [simp]:
  "quiet (observe_fail stage s) = quiet s" "within_limit (observe_fail stage s) = within_limit s"
  "ob_completed (ss_observation (observe_fail stage s)) = ob_completed (ss_observation s)"
  "ss_requests_served (observe_fail stage s) = ss_requests_served s"
  by (auto simp: observe_fail_def RequestObservation_fail_def RequestObservation_fail_stream_def
      split: prod.split option.splits if_splits)

lemma observe_fail_stream_frame [simp]:
  "quiet (observe_fail_stream stage s) = quiet s" "sane (observe_fail_stream stage s) = sane s"
  "ss_finished (observe_fail_stream stage s) = ss_finished s"
  by (auto simp: observe_fail_stream_def RequestObservation_fail_stream_def
      split: prod.split option.splits if_splits)

lemma observe_finish_first:
  assumes "\<not> ob_completed (ss_observation s)"
  obtains ob m where "observe_finish L x status s = (s\<lparr>ss_observation := ob, ss_metrics := m\<rparr>, True)"
  using assms that by (auto simp: observe_finish_def RequestObservation_finish_def split: prod.splits)

section \<open>Closing\<close>

lemma close_socket_inv:
  "sane s \<Longrightarrow> session_inv (close_socket s) \<and> ss_finished (close_socket s)"
  by (auto simp: close_socket_def session_finish_def reset_proxy_permit_def reset_exchange_def
      session_inv_def sane_def split: option.split)

lemma session_stop_inv:
  "sane s \<Longrightarrow> session_inv (session_stop s) \<and> ss_finished (session_stop s)"
  by (auto simp: session_stop_def session_finish_def reset_proxy_permit_def reset_exchange_def
      session_inv_def sane_def split: option.split)

lemma run_handler_sound:
  assumes "sound (action s)"
  shows "session_inv (session_run_handler action s)"
  using assms by (auto simp: session_run_handler_def sound_def close_socket_inv split: prod.split)

lemma sound_closed: "sane s \<Longrightarrow> sound (False, close_socket s)"
  by (simp add: sound_def close_socket_inv)

lemma sound_throw: "quiet s \<Longrightarrow> sound (True, s)"
  by (simp add: sound_def quiet_def)

lemma quiet_sane: "quiet s \<Longrightarrow> sane s"
  by (simp add: quiet_def)

lemma begin_read_sound:
  assumes "reading s" and "op \<in> {So_read_header, So_read_body}"
  shows "sound (begin_op x op s)"
  using assms
  by (auto simp: begin_op_def sound_def session_inv_def engaged_def reading_def quiet_sane)
     (simp_all add: quiet_def)

lemma read_request_sound:
  assumes "quiet s" "within_limit s"
  shows "sound (read_request x s)"
proof -
  have "reading (s\<lparr>ss_observation := RequestObservation_new, ss_phase := Reading,
      ss_parser := Some empty_view\<rparr>)"
    using assms by (simp add: reading_def RequestObservation_new_def)
  then show ?thesis
    using sound_closed [OF quiet_sane [OF assms(1)]] by (simp add: read_request_def begin_read_sound)
qed

lemma graceful_close_inv:
  assumes "quiet s" "ss_phase s \<noteq> Closing"
  shows "session_inv (graceful_close x s)"
  using assms close_socket_inv [of "s\<lparr>ss_phase := Closing\<rparr>"] close_socket_inv [of s]
  by (auto simp: graceful_close_def begin_op_def session_inv_def engaged_def quiet_sane split: prod.split)

section \<open>Responses\<close>

text \<open>A state in which the current request has not been answered.\<close>

definition unanswered :: "'d session \<Rightarrow> bool" where
  "unanswered s \<longleftrightarrow> quiet s \<and> \<not> ob_completed (ss_observation s)"

lemma not_stopping: "quiet s \<Longrightarrow> \<not> ss_stopping s \<and> \<not> ss_finished s"
  by (auto simp: quiet_def sane_def)

lemma write_response_sound:
  assumes u: "unanswered s" and B: "beast_closes (lib_beast L)"
    and close: "within_limit s \<or> need_eof (lib_beast L) response"
  shows "sound (write_response L x response p s)"
    "\<not> si_write_throws x \<Longrightarrow> \<not> fst (write_response L x response p s)"
proof -
  have quiet: "quiet s" and s: "\<not> ss_stopping s" "\<not> ss_finished s"
    using u not_stopping [of s] by (simp_all add: unanswered_def)
  obtain ob m where ob: "observe_finish L x (res_status response) s =
      (s\<lparr>ss_observation := ob, ss_metrics := m\<rparr>, True)"
    using u by (auto simp: unanswered_def elim: observe_finish_first [of s L x "res_status response"])
  let ?r = "if ss_draining s then response_keep_alive (lib_beast L) response False else response"
  obtain b q l where assign:
    "BufferBudgetPermit_assign (ss_budget s) (ss_response_permit s) p = (b, q, l)"
    by (cases "BufferBudgetPermit_assign (ss_budget s) (ss_response_permit s) p")
  let ?s = "s\<lparr>ss_observation := ob, ss_metrics := m, ss_phase := Writing, ss_response := Some ?r,
      ss_budget := b, ss_response_permit := q, ss_sent := ss_sent s @ [?r]\<rparr>"
  have eq: "write_response L x response p s =
      (if si_write_throws x then (True, ?s)
       else (False, ?s\<lparr>ss_op := Some (So_write (need_eof (lib_beast L) ?r))\<rparr>))"
    using s by (simp add: write_response_def ob assign Let_def)
  have "quiet ?s"
    using quiet by simp
  moreover have "need_eof (lib_beast L) ?r \<or> within_limit ?s"
    using close B by (auto simp: beast_closes_def)
  ultimately show "sound (write_response L x response p s)"
    unfolding eq by (auto simp: sound_def session_inv_def engaged_def quiet_sane) (simp_all add: quiet_def)
  show "\<not> si_write_throws x \<Longrightarrow> \<not> fst (write_response L x response p s)"
    unfolding eq by simp
qed

lemma limit_keep_alive_closes:
  "beast_closes (lib_beast L) \<Longrightarrow> within_limit s \<or> need_eof (lib_beast L) (limit_keep_alive L s response)"
  by (auto simp: limit_keep_alive_def max_requests_per_connection_def within_limit_def beast_closes_def
      word_le_nat_alt)

lemma answer_sound:
  assumes "unanswered s" and "beast_closes (lib_beast L)"
  shows "sound (answer L x made s)"
    "\<not> si_write_throws x \<Longrightarrow> fst (answer L x made s) \<Longrightarrow> snd (answer L x made s) = s"
proof -
  note written = write_response_sound [OF assms limit_keep_alive_closes [OF assms(2)]]
  show "sound (answer L x made s)"
    using written(1) assms(1) by (auto simp: answer_def unanswered_def sound_throw split: sum.split)
  show "\<not> si_write_throws x \<Longrightarrow> fst (answer L x made s) \<Longrightarrow> snd (answer L x made s) = s"
    using written(2) by (auto simp: answer_def split: sum.splits)
qed

lemma reading_unanswered: "reading s \<Longrightarrow> unanswered s \<and> within_limit s \<and> ss_phase s \<noteq> Closing"
  by (simp add: reading_def unanswered_def)

lemma write_protocol_error_sound:
  assumes "reading s" and "beast_closes (lib_beast L)"
  shows "sound (write_protocol_error L x status code message s)"
  using write_response_sound(1) [of s L] reading_unanswered [OF assms(1)] assms(2)
  by (auto simp: write_protocol_error_def Let_def unanswered_def sound_throw split: sum.split)

lemma handle_read_error_sound:
  assumes "reading s" and "beast_closes (lib_beast L)"
  shows "sound (handle_read_error L x error s)"
proof -
  have q: "quiet s" "ss_phase s \<noteq> Closing"
    using assms(1) by (simp_all add: reading_def)
  have "sound (False, graceful_close x s)"
    using graceful_close_inv [OF q] by (simp add: sound_def)
  then show ?thesis
    using write_protocol_error_sound [OF assms] sound_throw [OF q(1)] sound_closed [OF quiet_sane [OF q(1)]]
    by (simp add: handle_read_error_def)
qed

lemma reject_buffer_budget_sound:
  assumes "reading s" and "beast_closes (lib_beast L)"
  shows "sound (reject_buffer_budget L x request s)"
proof -
  have "unanswered (observe_reject Reason_buffer_capacity s)" "within_limit (observe_reject Reason_buffer_capacity s)"
    using assms(1) by (simp_all add: unanswered_def reading_def)
  then show ?thesis
    using write_response_sound(1) [OF _ assms(2), of "observe_reject Reason_buffer_capacity s"]
    by (auto simp: reject_buffer_budget_def Let_def unanswered_def sound_throw split: sum.split)
qed

section \<open>Starting an exchange\<close>

text \<open>
  When \<open>try_proxy_request\<close> throws, no answer has been given, unless starting the write threw.
\<close>

definition proxy_start_ok :: "bool \<times> 'd session \<Rightarrow> bool" where
  "proxy_start_ok r \<longleftrightarrow>
     (if fst r then unanswered (reset_proxy_permit (reset_exchange (snd r))) else session_inv (snd r))"

lemma reset_quiet: "quiet s \<Longrightarrow> reset_proxy_permit (reset_exchange s) = s"
  by (simp add: quiet_def reset_proxy_permit_def reset_exchange_def)

lemma answer_proxy_start:
  assumes "unanswered s" and "beast_closes (lib_beast L)" and "\<not> si_write_throws x"
  shows "proxy_start_ok (answer L x made s)"
proof (cases "fst (answer L x made s)")
  case True
  then have "snd (answer L x made s) = s"
    using answer_sound(2) [OF assms(1,2,3)] by simp
  then show ?thesis
    using True assms(1) reset_quiet [of s] by (simp add: proxy_start_ok_def unanswered_def)
next
  case False
  then show ?thesis
    using answer_sound(1) [OF assms(1,2), of x made] by (simp add: proxy_start_ok_def sound_def)
qed

lemma try_proxy_request_ok:
  assumes u: "unanswered s" and B: "beast_closes (lib_beast L)" and w: "\<not> si_write_throws x"
    and idle: "ss_op s = None" "ss_phase s \<noteq> Closing"
  shows "proxy_start_ok (try_proxy_request L x request route s)"
proof -
  obtain admission result where acquire:
    "RouteProxyAdmission_try_acquire (ss_admission s) route (si_now x) = (admission, result)"
    by (cases "RouteProxyAdmission_try_acquire (ss_admission s) route (si_now x)")
  let ?s = "s\<lparr>ss_admission := admission\<rparr>"
  have "quiet s" "\<not> ob_completed (ss_observation s)"
    using u by (simp_all add: unanswered_def)
  then have s: "unanswered ?s" "reset_proxy_permit ?s = ?s"
    by (simp_all add: unanswered_def) (simp add: quiet_def reset_proxy_permit_def)
  show ?thesis
  proof (cases result)
    case (Inl e)
    then show ?thesis
      using acquire s(1) reset_quiet [of ?s]
      by (simp add: try_proxy_request_def proxy_start_ok_def unanswered_def)
  next
    case (Inr r)
    let ?t = "?s\<lparr>ss_proxy_permit := ar_permit r\<rparr>"
    have answered: "proxy_start_ok (answer L x made (observe_reject reason ?s))" for made reason
      using s(1) B w by (intro answer_proxy_start) (simp_all add: unanswered_def)
    have full: "ar_permit r = None \<Longrightarrow> ?t = ?s"
      using \<open>quiet s\<close> by (simp add: quiet_def)
    have caught: "unanswered (reset_proxy_permit (reset_exchange (?t\<lparr>ss_exchange := b\<rparr>)))" for b
      using s(1) by (auto simp: unanswered_def quiet_def reset_proxy_permit_def reset_exchange_def
          sane_def split: option.split)
    have caught': "unanswered (reset_proxy_permit (reset_exchange ?t))"
      using caught [of "ss_exchange s"] by simp
    have started: "session_inv (?t\<lparr>ss_exchange := True, ss_parser := None, ss_kept_permits := k,
        ss_request_permit := None\<rparr>)" if "ar_permit r \<noteq> None" for k
      using s(1) idle that
      by (auto simp: session_inv_def engaged_def proxied_def unanswered_def quiet_def sane_def)
    show ?thesis
      using acquire Inr answered full caught caught' started s(2)
      by (auto simp: try_proxy_request_def proxy_start_ok_def Let_def)
  qed
qed

lemma start_proxy_request_inv:
  assumes "unanswered s" and B: "beast_closes (lib_beast L)" and "\<not> si_write_throws x"
    and "ss_op s = None" "ss_phase s \<noteq> Closing"
  shows "session_inv (start_proxy_request L x request route s)"
proof -
  obtain threw s1 where try_: "try_proxy_request L x request route s = (threw, s1)"
    by (cases "try_proxy_request L x request route s")
  have ok: "proxy_start_ok (threw, s1)"
    using try_proxy_request_ok [OF assms(1-5), of request route] by (simp add: try_)
  show ?thesis
  proof (cases threw)
    case True
    let ?s2 = "reset_proxy_permit (reset_exchange s1)"
    have u2: "unanswered ?s2"
      using ok True by (simp add: proxy_start_ok_def)
    let ?s' = "?s2\<lparr>ss_start_failures := ss_start_failures ?s2 + 1\<rparr>"
    let ?s3 = "observe_fail Stage_connect ?s'"
    have "quiet ?s'" "within_limit ?s'" "\<not> ob_completed (ss_observation ?s')"
      using u2 by (auto simp: unanswered_def quiet_def sane_def within_limit_def)
    then have "unanswered ?s3" "within_limit ?s3"
      by (simp_all only: unanswered_def observe_fail_frame simp_thms)
    then have "sound (write_response L x response BufferBudgetPermit_default ?s3)" for response
      using write_response_sound(1) [OF _ B] by blast
    moreover have "session_inv (close_socket ?s2)"
      using u2 close_socket_inv [of ?s2] by (simp add: unanswered_def quiet_def)
    ultimately show ?thesis
      using True run_handler_sound
      by (auto simp: start_proxy_request_def try_ Let_def session_run_handler_def [symmetric]
          split: sum.split)
  next
    case False
    then show ?thesis
      using ok by (simp add: start_proxy_request_def try_ proxy_start_ok_def)
  qed
qed

section \<open>Reading a request\<close>

lemma reading_frame [simp]:
  "reading (s\<lparr>ss_budget := v1\<rparr>) = reading s"
  "reading (s\<lparr>ss_request_permit := v2\<rparr>) = reading s"
  "reading (s\<lparr>ss_parser := v3\<rparr>) = reading s"
  "reading (s\<lparr>ss_op := v4\<rparr>) = reading s"
  "reading (release_budget p s) = reading s"
  "reading (reset_request_permit s) = reading s"
  by (simp_all add: reading_def release_budget_def reset_request_permit_def split: option.split)

lemma reset_request_permit_op [simp]: "ss_op (reset_request_permit s) = ss_op s"
  by (simp add: reset_request_permit_def release_budget_def split: option.split)

lemma unat_suc_bound: "unat (w :: usize) < n \<Longrightarrow> unat (w + 1) \<le> n"
  by (cases "1 + w = 0") (simp_all add: unatSuc add.commute)

lemma request_begun:
  assumes "reading s"
  shows "unanswered (s\<lparr>ss_observation := RequestObservation_begin (ss_observation s) t,
      ss_requests_served := ss_requests_served s + 1\<rparr>)"
  using assms unat_suc_bound [of "ss_requests_served s" "100 + ss_start_failures s"]
  by (auto simp: reading_def unanswered_def quiet_def sane_def within_limit_def
      RequestObservation_begin_def)

lemma process_request_sound:
  assumes s: "reading s" "ss_op s = None" and B: "beast_closes (lib_beast L)" and w: "\<not> si_write_throws x"
  shows "sound (process_request L x s)"
proof (cases "ss_parser s")
  case None
  then show ?thesis
    using s(1) sound_throw [of s] sound_closed [of s] by (simp add: process_request_def reading_def quiet_sane)
next
  case (Some v)
  let ?s = "s\<lparr>ss_observation := RequestObservation_begin (ss_observation s) (si_now x),
      ss_requests_served := ss_requests_served s + 1\<rparr>"
  have u: "unanswered ?s"
    using request_begun [OF s(1)] .
  have answered: "sound (answer L x made ?s)" for made
    using answer_sound(1) [OF u B] .
  have u': "unanswered (?s\<lparr>ss_phase := Proxying\<rparr>)"
    using u by (simp add: unanswered_def)
  have "session_inv (start_proxy_request L x request route (?s\<lparr>ss_phase := Proxying\<rparr>))" for request route
    using start_proxy_request_inv [OF u' B w] s(2) by simp
  then have started: "sound (False, start_proxy_request L x request route (?s\<lparr>ss_phase := Proxying\<rparr>))"
    for request route
    by (simp add: sound_def)
  have threw: "sound (True, ?s)"
    using u by (simp add: unanswered_def sound_throw)
  show ?thesis
    using Some answered started threw
    by (auto simp: process_request_def Let_def split: option.split sum.split bool.split)
qed

lemma on_read_header_sound:
  assumes s: "reading s" "ss_op s = None" and B: "beast_closes (lib_beast L)" and w: "\<not> si_write_throws x"
  shows "sound (on_read_header L x error s)"
proof -
  define t where "t = (case ss_parser s of None \<Rightarrow> s
      | Some v \<Rightarrow> s\<lparr>ss_observation := RequestObservation_exclude (ss_observation s)
          (is_metrics_target (ss_config s) (req_target (rv_request v)))\<rparr>)"
  have t: "reading t" "ss_op t = None"
    using s by (auto simp: t_def reading_def RequestObservation_exclude_def split: option.split)
  then have q: "quiet t"
    by (simp add: reading_def)
  have body: "sound (begin_op x So_read_body ((reset_request_permit
      (t\<lparr>ss_budget := b\<rparr>))\<lparr>ss_request_permit := p\<rparr>))" for b p
    using t(1) by (intro begin_read_sound) simp_all
  have rejected: "sound (reject_buffer_budget L x request (t\<lparr>ss_budget := b\<rparr>))" for request b
    using t(1) by (intro reject_buffer_budget_sound B) simp
  have alloc: "sound (True, release_budget p (t\<lparr>ss_budget := b\<rparr>))" for p b
    using q by (intro sound_throw) simp
  show ?thesis
    using process_request_sound [OF t B w] handle_read_error_sound [OF t(1) B] body rejected alloc
      write_protocol_error_sound [OF t(1) B] sound_throw [OF q] sound_closed [OF quiet_sane [OF q]]
      not_stopping [OF q]
    by (simp add: on_read_header_def Let_def t_def [symmetric] split: option.split prod.split)
qed

lemma on_read_body_sound:
  assumes s: "reading s" "ss_op s = None" and B: "beast_closes (lib_beast L)" and w: "\<not> si_write_throws x"
  shows "sound (on_read_body L x error s)"
proof -
  have q: "quiet s"
    using s by (simp add: reading_def)
  have processed: "sound (process_request L x (s\<lparr>ss_budget := b, ss_request_permit := p\<rparr>))" for b p
    using s by (intro process_request_sound B w) simp_all
  have closed: "sound (False, close_socket (s\<lparr>ss_budget := b, ss_request_permit := p\<rparr>))" for b p
    using q by (intro sound_closed) (simp add: quiet_sane)
  show ?thesis
    using handle_read_error_sound [OF s(1) B] processed closed sound_closed [OF quiet_sane [OF q]]
      not_stopping [OF q]
    by (simp add: on_read_body_def Let_def split: option.split prod.split)
qed

section \<open>Writing and the calls of the exchange\<close>

lemma on_handshake_sound:
  assumes "quiet s" "within_limit s"
  shows "sound (on_handshake x error s)"
proof -
  have "sound (read_request x (s\<lparr>ss_tls_established := True\<rparr>))"
    using assms by (intro read_request_sound) simp_all
  then show ?thesis
    using sound_closed [OF quiet_sane [OF assms(1)]] not_stopping [OF assms(1)]
    by (simp add: on_handshake_def)
qed

lemma reset_request_permit_phase [simp]: "ss_phase (reset_request_permit s) = ss_phase s"
  by (simp add: reset_request_permit_def release_budget_def split: option.split)

lemma on_write_sound:
  assumes s: "quiet s" "ss_phase s \<noteq> Closing" and close: "close \<or> within_limit s"
  shows "sound (on_write x error close s)"
proof -
  obtain b p where release: "BufferBudgetPermit_release (ss_budget s) (ss_response_permit s) = (b, p)"
    by (cases "BufferBudgetPermit_release (ss_budget s) (ss_response_permit s)")
  define t where "t = reset_request_permit (s\<lparr>ss_response := None, ss_budget := b,
      ss_response_permit := p, ss_parser := None\<rparr>)"
  have t: "quiet t" "ss_phase t \<noteq> Closing" "close \<or> within_limit t"
    using s close by (simp_all add: t_def)
  have "sound (False, graceful_close x t)"
    using graceful_close_inv [OF t(1,2)] by (simp add: sound_def)
  moreover have "within_limit t \<Longrightarrow> sound (read_request x t)"
    using read_request_sound [OF t(1)] .
  ultimately show ?thesis
    using t(3) sound_closed [OF quiet_sane [OF t(1)]] not_stopping [OF s(1)]
    by (auto simp: on_write_def Let_def release t_def [symmetric])
qed

text \<open>Dropping the exchange and the permit.\<close>

lemma reset_fields [simp]:
  "ss_phase (reset_proxy_permit s) = ss_phase s"
  "ss_observation (reset_proxy_permit s) = ss_observation s"
  "ss_stream_close (reset_proxy_permit s) = ss_stream_close s"
  "within_limit (reset_proxy_permit s) = within_limit s"
  "ss_phase (reset_exchange s) = ss_phase s"
  "ss_observation (reset_exchange s) = ss_observation s"
  "ss_stream_close (reset_exchange s) = ss_stream_close s"
  "within_limit (reset_exchange s) = within_limit s"
  by (simp_all add: reset_proxy_permit_def reset_exchange_def split: option.split)

lemma proxied_reset:
  assumes "proxied s"
  shows "quiet ((reset_proxy_permit (reset_exchange s))\<lparr>ss_stream_writer := False\<rparr>)"
    "\<not> ss_stream_writer s \<Longrightarrow> quiet (reset_proxy_permit (reset_exchange s))"
    "sane (reset_proxy_permit (reset_exchange s))"
  using assms
  by (auto simp: proxied_def quiet_def sane_def reset_proxy_permit_def reset_exchange_def
      split: option.split)

lemma proxied_stopping: "proxied s \<Longrightarrow> \<not> ss_stopping s \<and> \<not> ss_finished s"
  by (auto simp: proxied_def sane_def)

lemma on_proxy_aborted_inv:
  assumes "sane s"
  shows "session_inv (on_proxy_aborted s)"
proof -
  have "sane (reset_proxy_permit (reset_exchange s))"
    using assms by (auto simp: sane_def reset_proxy_permit_def reset_exchange_def split: option.split)
  then show ?thesis
    using close_socket_inv [of "reset_proxy_permit (reset_exchange s)"]
    by (auto simp: on_proxy_aborted_def Let_def session_inv_def sane_def)
qed

lemma stream_call_inv:
  assumes "sound (action s)"
  shows "session_inv (stream_call action s)"
  using assms by (auto simp: stream_call_def sound_def on_proxy_aborted_inv split: prod.split)

lemma begin_stream_sound:
  assumes "proxied s" "ss_stream_writer s"
  shows "sound (begin_op x (So_stream k) s)"
  using assms
  by (auto simp: begin_op_def sound_def session_inv_def engaged_def proxied_def within_limit_def)

lemma write_stream_header_sound:
  assumes s: "proxied s" "\<not> ss_stream_writer s" and B: "beast_closes (lib_beast L)"
  shows "sound (write_stream_header L x header s)"
proof -
  define h where "h = (if ss_draining s \<or> max_requests_per_connection \<le> ss_requests_served s
      then response_keep_alive (lib_beast L) header False else header)"
  define t where "t = s\<lparr>ss_stream_close := need_eof (lib_beast L) h, ss_stream_status := res_status h\<rparr>"
  have "\<not> ob_completed (ss_observation t)"
    using s by (simp add: t_def proxied_def)
  then obtain ob m where fin: "observe_finish L x (res_status h) t =
      (t\<lparr>ss_observation := ob, ss_metrics := m\<rparr>, True)"
    by (rule observe_finish_first)
  have limit: "within_limit s \<or> need_eof (lib_beast L) h"
    using B by (auto simp: h_def beast_closes_def max_requests_per_connection_def within_limit_def
        word_le_nat_alt)
  have live: "sane s" "\<not> ss_finished s" "\<not> ss_stopping s"
    using s proxied_stopping [OF s(1)] by (simp_all add: proxied_def)
  have writing: "proxied (t\<lparr>ss_observation := ob, ss_metrics := m, ss_stream_writer := True, ss_phase := Writing\<rparr>)"
    using s limit by (simp add: proxied_def t_def)
  have "sound (True, t\<lparr>ss_observation := ob, ss_metrics := m\<rparr>)"
    using live by (simp add: sound_def t_def)
  then show ?thesis
    using live begin_stream_sound [OF writing]
    by (simp add: write_stream_header_def Let_def h_def [symmetric] t_def [symmetric] fin)
qed

lemma write_stream_body_sound:
  assumes "proxied s" "ss_stream_writer s"
  shows "sound (write_stream_body x bytes final s)"
proof -
  have "proxied (s\<lparr>ss_stream_pending_bytes := bytes\<rparr>)"
    using assms by (simp add: proxied_def)
  then show ?thesis
    using begin_stream_sound [of "s\<lparr>ss_stream_pending_bytes := bytes\<rparr>" x "Some final"] assms(2)
      proxied_stopping [OF assms(1)]
    by (simp add: write_stream_body_def)
qed

lemma on_stream_complete_sound:
  assumes s: "proxied s" "ss_stream_writer s"
  shows "sound (on_stream_complete x failure downstream_failed s)"
proof -
  define t where "t = (reset_proxy_permit (reset_exchange s))\<lparr>ss_stream_writer := False\<rparr>"
  define u where "u = (case failure of None \<Rightarrow> t | Some f \<Rightarrow> observe_fail_stream (pf_stage f) t)"
  have t: "quiet t" "ss_phase t \<noteq> Closing" "within_limit t \<or> ss_stream_close t"
    using s proxied_reset(1) [OF s(1)] by (auto simp: t_def proxied_def)
  have "quiet u"
    using t(1) by (simp add: u_def split: option.split)
  then have "sound (False, close_socket u)" "sound (True, u)"
    by (simp_all add: sound_closed quiet_sane sound_throw)
  moreover have "sound (False, graceful_close x t)"
    using graceful_close_inv [OF t(1,2)] by (simp add: sound_def)
  moreover have "within_limit t \<Longrightarrow> sound (read_request x t)"
    using read_request_sound [OF t(1)] .
  ultimately show ?thesis
    using t(3) not_stopping [OF t(1)]
    by (auto simp: on_stream_complete_def Let_def t_def [symmetric] u_def [symmetric])
qed

lemma on_proxy_complete_inv:
  assumes s: "proxied s" "\<not> ss_stream_writer s" and B: "beast_closes (lib_beast L)"
  shows "session_inv (on_proxy_complete L x result s)"
proof -
  define t where "t = reset_proxy_permit (reset_exchange s)"
  define u where "u = (case pr_failure result of None \<Rightarrow> t | Some f \<Rightarrow> observe_fail (pf_stage f) t)"
  define v where "v = (case pr_rejected_bytes result of None \<Rightarrow> u
      | Some _ \<Rightarrow> observe_reject Reason_buffer_capacity u)"
  have t: "quiet t" "\<not> ob_completed (ss_observation t)"
    using s proxied_reset(2) [OF s] by (simp_all add: t_def proxied_def)
  have u: "unanswered u" "within_limit u = within_limit t"
    using t by (simp_all add: u_def unanswered_def split: option.split)
  have v: "unanswered v" "within_limit v = within_limit t"
    using u by (simp_all add: v_def unanswered_def split: option.split)
  have "sound (write_response L x (limit_keep_alive L t (pr_response result)) (pr_body_permit result) v)"
    using write_response_sound(1) [OF v(1) B] limit_keep_alive_closes [OF B] v(2) by metis
  then show ?thesis
    using t(2) not_stopping [OF t(1)]
    by (simp add: on_proxy_complete_def Let_def t_def [symmetric] u_def [symmetric] v_def [symmetric]
        run_handler_sound)
qed

section \<open>Every step keeps the invariant\<close>

text \<open>
  The one failure excluded: starting a write throws while the answer to a request just read is
  being written.
\<close>

fun writes_start :: "session_input \<times> 'd session_event \<Rightarrow> bool" where
  "writes_start (x, Se_read_header error v) = (\<not> si_write_throws x)"
| "writes_start (x, Se_read_body error v) = (\<not> si_write_throws x)"
| "writes_start (x, e) = True"

lemma engaged_frame [simp]:
  "session_inv (s\<lparr>ss_budget := v1\<rparr>) = session_inv s"
  "session_inv (s\<lparr>ss_metrics := v2\<rparr>) = session_inv s"
  "session_inv (s\<lparr>ss_connections := v3\<rparr>) = session_inv s"
  "session_inv (s\<lparr>ss_admission := v4\<rparr>) = session_inv s"
  "session_inv (s\<lparr>ss_kept_permits := v5\<rparr>) = session_inv s"
  "session_inv (s\<lparr>ss_draining := v6\<rparr>) = session_inv s"
  by (simp_all add: session_inv_def engaged_def proxied_def reading_def split: option.split session_op.split)

lemma session_inv_closed: "sane s \<Longrightarrow> ss_finished s \<Longrightarrow> session_inv s"
  by (simp add: session_inv_def)

lemma op_done_frame [simp]:
  "quiet (op_done s) = quiet s" "within_limit (op_done s) = within_limit s"
  "reading (op_done s) = reading s" "ss_phase (op_done s) = ss_phase s"
  "sane (op_done s) = sane s" "ss_finished (op_done s) = ss_finished s"
  by (simp_all add: op_done_def)

lemma got_request_frame [simp]:
  "reading (got_request v s) = reading s" "ss_op (got_request v s) = None"
  "sane (got_request v s) = sane s" "ss_finished (got_request v s) = ss_finished s"
  by (simp_all add: got_request_def op_done_def split: option.split)

text \<open>After the session has closed, late completions change nothing that matters.\<close>

lemma finished_handlers:
  assumes "ss_finished s"
  shows "session_run_handler (on_handshake x error) s = s"
    "session_run_handler (on_read_body L x error) s = s"
    "session_run_handler (on_write x error close) s = s"
    "on_shutdown error s = s"
    "sane (session_run_handler (on_read_header L x error) s) = sane s"
    "ss_finished (session_run_handler (on_read_header L x error) s)"
  using assms
  by (auto simp: session_run_handler_def on_handshake_def on_read_body_def on_write_def
      on_shutdown_def on_read_header_def Let_def split: option.split)

lemma session_step_finished:
  assumes "sane s" "ss_finished s"
  shows "session_inv (session_step L s (x, e)) \<and> ss_finished (session_step L s (x, e))"
proof -
  have "\<not> ss_exchange s"
    using assms by (simp add: sane_def)
  moreover have "session_stop s = s" "session_begin_drain s = s"
    using assms(2) by (simp_all add: session_stop_def session_begin_drain_def)
  moreover have "sane (on_stream_written (op_done s))" "ss_finished (on_stream_written (op_done s))"
    using assms by (simp_all add: on_stream_written_def)
  ultimately show ?thesis
    using assms session_inv_closed [OF assms]
    by (cases e) (auto simp: finished_handlers release_budget_def intro: session_inv_closed
        split: option.split session_op.split list.split)
qed

lemma session_step_engaged:
  assumes inv: "session_inv s" and live: "\<not> ss_finished s" and B: "beast_closes (lib_beast L)"
    and w: "writes_start (x, e)"
  shows "session_inv (session_step L s (x, e))"
proof -
  have sane: "sane s" and eng: "engaged s"
    using inv live by (simp_all add: session_inv_def)
  have stop: "session_inv (session_stop s)" "session_inv (session_stop (s\<lparr>ss_draining := True\<rparr>))"
    using sane by (simp_all add: session_stop_inv)
  have ex: "proxied s" if "ss_exchange s"
    using that eng by (auto simp: engaged_def quiet_def reading_def split: option.splits session_op.splits)
  show ?thesis
  proof (cases e)
    case (Se_handshake error)
    then show ?thesis
      using inv eng by (auto simp: engaged_def intro!: run_handler_sound on_handshake_sound)
  next
    case (Se_read_header error v)
    then show ?thesis
      using inv eng B w by (auto simp: engaged_def intro!: run_handler_sound on_read_header_sound)
  next
    case (Se_read_body error v)
    then show ?thesis
      using inv eng B w by (auto simp: engaged_def intro!: run_handler_sound on_read_body_sound)
  next
    case (Se_write error)
    then show ?thesis
      using inv eng
      by (auto simp: engaged_def intro!: run_handler_sound on_write_sound
          split: option.splits session_op.splits)
  next
    case (Se_stream_written error)
    then show ?thesis
      using inv eng
      by (auto simp: engaged_def on_stream_written_def op_done_def session_inv_def proxied_def
          split: option.splits session_op.splits)
  next
    case (Se_shutdown error)
    then show ?thesis
      using inv live sane close_socket_inv [of "op_done s"] by (simp add: on_shutdown_def)
  next
    case (Se_complete result)
    then show ?thesis
      using inv ex B by (auto intro!: on_proxy_complete_inv)
  next
    case Se_abort
    then show ?thesis
      using inv sane by (auto intro!: on_proxy_aborted_inv)
  next
    case (Se_stream_header header)
    then show ?thesis
      using inv ex B by (auto intro!: stream_call_inv write_stream_header_sound)
  next
    case (Se_stream_body bytes final)
    then show ?thesis
      using inv ex by (auto intro!: stream_call_inv write_stream_body_sound)
  next
    case (Se_stream_finish failure downstream_failed)
    then show ?thesis
      using inv ex by (auto intro!: run_handler_sound on_stream_complete_sound)
  next
    case Se_begin_drain
    then show ?thesis
      using inv stop by (simp add: session_begin_drain_def Let_def)
  next
    case Se_exchange_destroyed
    then show ?thesis
      using inv by (simp add: release_budget_def split: list.split)
  qed (use inv stop in simp_all)
qed

lemma session_step_inv:
  assumes "session_inv s" "beast_closes (lib_beast L)" "writes_start e"
  shows "session_inv (session_step L s e)"
  using assms session_step_finished session_step_engaged by (cases e) (fastforce simp: session_inv_def)

interpretation sessions: step_invariant
  "\<lambda>s e. if writes_start e then session_step L s e else s"
  "\<lambda>s. beast_closes (lib_beast L) \<longrightarrow> session_inv s" for L
  by unfold_locales (simp add: session_step_inv)

lemma session_run_inv:
  assumes "session_inv s" and "beast_closes (lib_beast L)" and "list_all writes_start es"
  shows "session_inv (session_run L s es)"
proof -
  have "session_run L s es = run_steps (\<lambda>s e. if writes_start e then session_step L s e else s) s es"
    unfolding session_run_def run_steps_def
    by (rule foldl_cong) (use assms(3) in \<open>auto simp: list_all_iff\<close>)
  then show ?thesis
    using sessions.run_inv [of L s es] assms by simp
qed

lemma new_session_quiet:
  assumes "HttpSession_new config proxies admission budget metrics connections on_close tls = Inr s"
  shows "quiet s \<and> within_limit s"
  using assms
  by (auto simp: HttpSession_new_def quiet_def sane_def within_limit_def split: if_splits option.splits)

lemma session_start_inv:
  assumes "quiet s" "within_limit s" and "session_start x s = (False, s')"
  shows "session_inv s'"
proof (cases "ss_tls s")
  case True
  then show ?thesis
    using assms by (auto simp: session_start_def begin_op_def session_inv_def engaged_def quiet_sane
        split: if_splits)
next
  case False
  then show ?thesis
    using assms read_request_sound [OF assms(1,2), of x] by (simp add: session_start_def sound_def)
qed

section \<open>Two failures\<close>

text \<open>
  The case left out above. When starting to write the answer to a request throws, the handler of
  \<open>start_proxy_request\<close> writes another answer; \<open>write_response\<close> refuses it, because the request
  counts as answered, and returns. The session then waits for nothing and is not closed.
\<close>

lemma start_proxy_request_stalls:
  assumes u: "unanswered s" "ss_op s = None" and w: "si_write_throws x"
    and acquire: "RouteProxyAdmission_try_acquire (ss_admission s) route (si_now x) = (admission, Inr r)"
      "\<not> allowed (ar_rate_limit r)"
    and made: "make_rate_limited_response (lib_beast L) request
        (retry_after_seconds (ar_rate_limit r)) = Inr response"
      "make_gateway_error_response (lib_beast L) request Bad_gateway = Inr response'"
  defines "s' \<equiv> start_proxy_request L x request route s"
  shows "ss_op s' = None \<and> \<not> ss_exchange s' \<and> \<not> ss_finished s'"
proof -
  have live: "\<not> ss_finished s" "\<not> ss_stopping s" "ss_proxy_permit s = None" "\<not> ss_exchange s"
    using u(1) not_stopping [of s] by (auto simp: unanswered_def quiet_def)
  show ?thesis
    using live u w acquire made
    by (auto simp: s'_def start_proxy_request_def try_proxy_request_def answer_def write_response_def
        observe_reject_def observe_fail_def observe_finish_def RequestObservation_reject_def
        RequestObservation_fail_def RequestObservation_fail_stream_def RequestObservation_finish_def
        unanswered_def reset_exchange_def reset_proxy_permit_def release_budget_def Let_def
        split: prod.splits option.splits if_splits)
qed

text \<open>
  The answer to an exchange that could not be started is not subject to the limit on requests: the
  connection stays open after it when the client asked for that, however many requests it served.
\<close>

lemma failed_start_keeps_connection:
  assumes u: "unanswered s" "\<not> ss_draining s" and w: "\<not> si_write_throws x"
    and acquire: "RouteProxyAdmission_try_acquire (ss_admission s) route (si_now x) = (admission, Inl e)"
    and made: "make_gateway_error_response (lib_beast L) request Bad_gateway = Inr response"
  shows "ss_op (start_proxy_request L x request route s) = Some (So_write (need_eof (lib_beast L) response))"
proof -
  have live: "\<not> ss_finished s" "\<not> ss_stopping s" "ss_proxy_permit s = None" "\<not> ss_exchange s"
    using u(1) not_stopping [of s] by (auto simp: unanswered_def quiet_def)
  show ?thesis
    using live u w acquire made
    by (auto simp: start_proxy_request_def try_proxy_request_def write_response_def observe_fail_def
        observe_finish_def RequestObservation_fail_def RequestObservation_fail_stream_def
        RequestObservation_finish_def unanswered_def reset_exchange_def reset_proxy_permit_def Let_def
        split: prod.splits option.splits if_splits)
qed

section \<open>Theorems\<close>


text \<open>A connection that serves one request, which the client then closes.\<close>

definition sample_libs :: "int libs" where
  "sample_libs = \<lparr>lib_beast = sample_beast, lib_openssl = sample_openssl, lib_double = sample_double\<rparr>"

definition sample_session_input :: session_input where
  "sample_session_input =
     \<lparr>si_now = 0, si_begin_throws = False, si_write_throws = False, si_log_throws = False,
      si_alloc_throws = False, si_exchange = Exchange_started\<rparr>"

definition sample_session_events :: "(session_input \<times> int session_event) list" where
  "sample_session_events =
     [(sample_session_input, Se_read_header None
        \<lparr>rv_request = sample_request Get ''/healthz'', rv_content_length = None, rv_done = True\<rparr>),
      (sample_session_input, Se_write None),
      (sample_session_input, Se_read_header (Some End_of_stream) empty_view)]"

definition sample_session :: "int session result" where
  "sample_session = HttpSession_new sample_config True (Some sample_admission)
     (Some (BufferBudgetState_new 1000)) None None True False"

lemma sample_beast_closes: "beast_closes sample_beast"
proof -
  have "sample_field_of (sample_field_text Field_connection) = Field_connection"
    by (simp add: sample_field_text)
  moreover have "lowercase ''close'' = ''close''"
    by code_simp
  ultimately show ?thesis
    by (auto simp: beast_closes_def response_keep_alive_def sample_beast_def sample_keep_alive_def
        sample_set_def)
qed

definition sample_report :: "int session \<Rightarrow> bool \<times> nat list" where
  "sample_report s = (ss_finished s, map res_status (ss_sent s))"

definition sample_opened :: "bool \<times> int session" where
  "sample_opened = session_start sample_session_input (projr sample_session)"

lemma sample_session_starts: "isl sample_session = False" "fst sample_opened = False"
  by code_simp+

lemma sample_session_runs:
  "sample_report (session_run sample_libs (snd sample_opened) sample_session_events) = (True, [status_ok])"
  by code_simp


end
