(* ===== verification/HealthChecks.thy ===== *)
theory HealthChecks
  imports Health ProxyMessage Tls
begin

text \<open>
  Active health checking, \<open>src/health_check.cpp\<close>: \<open>Probe\<close>, one GET and header transaction under
  one deadline, and \<open>HealthChecks::Impl\<close>, which starts a probe for every due slot of the schedule
  and records the outcomes. The probes live in a store, because a probe outlives its slot in the
  handlers of operations that are still outstanding; the slots hold references into the store.
  What the I/O library delivers is the event of a step, together with the exceptions the calls
  made in that step throw. The lemmas show that a slot never has two running probes, that a stopped
  checker has none, and that a started checker that is not stopped always waits for something.
\<close>

section \<open>Probes\<close>

record probe_target =
  pt_route :: nat
  pt_upstream :: nat
  pt_backend :: upstream_config
  pt_health :: health_check_config

datatype probe_op = Op_resolve | Op_connect | Op_handshake | Op_write | Op_read

text \<open>
  \<open>pb_slot\<close> is the slot captured by the completion, \<open>pb_completion\<close> whether the completion is
  still set, \<open>pb_deadline\<close> and \<open>pb_op\<close> the operations that are outstanding.
\<close>

record probe =
  pb_slot :: nat
  pb_backend :: upstream_config
  pb_timeout :: u32
  pb_tls :: bool
  pb_identity :: "tls_identity option"
  pb_request :: http_request
  pb_completion :: bool
  pb_done :: bool
  pb_deadline :: bool
  pb_op :: "probe_op option"
  pb_open :: bool

text \<open>The arguments of a call of the completion, if it was called.\<close>

type_synonym probe_outcome = "(bool \<times> string) option"

text \<open>An action of a handler: the probe, whether the action threw, the completion it called.\<close>

type_synonym probe_action = "probe \<Rightarrow> probe \<times> bool \<times> probe_outcome"

definition Probe_new ::
  "beast \<Rightarrow> probe_target \<Rightarrow> tls_context option \<Rightarrow> nat \<Rightarrow> probe result" where
  "Probe_new B target context slot =
     (let backend = pt_backend target;
          request = HttpRequest_new Get (hc_path (pt_health target)) 11;
          with_host = field_set B (req_fields request) Field_host
            (make_upstream_authority (up_host backend) (up_port backend));
          fields = field_set B with_host Field_connection ''close'' in
      if up_scheme backend = Https \<and> context = None
      then Inl (Invalid_argument ''HTTPS probe requires validated trust'')
      else Inr \<lparr>pb_slot = slot, pb_backend = backend,
                pb_timeout = hc_timeout_ms (pt_health target), pb_tls = (up_scheme backend = Https),
                pb_identity = None, pb_request = request\<lparr>req_fields := fields\<rparr>,
                pb_completion = True, pb_done = False, pb_deadline = False, pb_op = None,
                pb_open = False\<rparr>)"

text \<open>\<open>close\<close> cancels what is outstanding: its handlers still run, with an error.\<close>

definition Probe_close :: "probe \<Rightarrow> probe" where
  "Probe_close p = p\<lparr>pb_open := False\<rparr>"

definition Probe_finish :: "bool \<Rightarrow> string \<Rightarrow> probe \<Rightarrow> probe \<times> probe_outcome" where
  "Probe_finish success reason p =
     (if pb_done p then (p, None)
      else let closed = Probe_close (p\<lparr>pb_done := True\<rparr>) in
        (closed\<lparr>pb_completion := False\<rparr>,
         if pb_completion closed
         then Some (success, if success then ''probe_succeeded'' else reason) else None))"

definition Probe_cancel :: "probe \<Rightarrow> probe" where
  "Probe_cancel p =
     (if pb_done p then p
      else Probe_close (p\<lparr>pb_done := True, pb_completion := False\<rparr>))"

definition Probe_guarded :: "probe_action \<Rightarrow> probe \<Rightarrow> probe \<times> probe_outcome" where
  "Probe_guarded action p =
     (if pb_done p then (p, None)
      else case action p of (p', threw, out) \<Rightarrow>
        if threw then Probe_finish False ''exception'' p' else (p', out))"

definition ends :: "bool \<Rightarrow> string \<Rightarrow> probe_action" where
  "ends success reason p =
     (case Probe_finish success reason p of (p', out) \<Rightarrow> (p', False, out))"

definition begins :: "bool \<Rightarrow> probe_op \<Rightarrow> probe_action" where
  "begins throws op p = (if throws then (p, True, None) else (p\<lparr>pb_op := Some op\<rparr>, False, None))"

datatype probe_fault = Probe_ok | Fault_construct | Fault_deadline | Fault_resolve

definition Probe_start :: "probe_fault \<Rightarrow> probe \<Rightarrow> probe \<times> probe_outcome" where
  "Probe_start fault =
     Probe_guarded (\<lambda>p.
       if fault = Fault_deadline then (p, True, None)
       else begins (fault = Fault_resolve) Op_resolve (p\<lparr>pb_deadline := True\<rparr>))"

definition Probe_on_deadline :: "error_code \<Rightarrow> probe \<Rightarrow> probe \<times> probe_outcome" where
  "Probe_on_deadline error =
     Probe_guarded (\<lambda>p.
       if error = None then ends False ''timeout'' p
       else if error \<noteq> Some Operation_aborted then ends False ''timer'' p
       else (p, False, None))"

definition Probe_on_resolve :: "error_code \<Rightarrow> bool \<Rightarrow> probe \<Rightarrow> probe \<times> probe_outcome" where
  "Probe_on_resolve error throws =
     Probe_guarded (\<lambda>p.
       if error \<noteq> None then ends False ''resolve'' p
       else begins throws Op_connect (p\<lparr>pb_open := True\<rparr>))"

definition Probe_write :: "bool \<Rightarrow> probe_action" where
  "Probe_write throws = begins throws Op_write"

definition Probe_connected :: "net_lib \<Rightarrow> error_code \<Rightarrow> bool \<Rightarrow> probe_action" where
  "Probe_connected N error throws p =
     (if error \<noteq> None then ends False ''connect'' p
      else if \<not> pb_tls p then Probe_write throws p
      else case configure_upstream_tls_identity N (up_host (pb_backend p)) of (identity, ok) \<Rightarrow>
        let p = p\<lparr>pb_identity := Some identity\<rparr> in
        if \<not> ok then ends False ''handshake'' p else begins throws Op_handshake p)"

definition Probe_on_handshake :: "error_code \<Rightarrow> bool \<Rightarrow> probe \<Rightarrow> probe \<times> probe_outcome" where
  "Probe_on_handshake error throws =
     Probe_guarded (\<lambda>p.
       if error \<noteq> None then ends False ''handshake'' p else Probe_write throws p)"

definition Probe_read_header :: "bool \<Rightarrow> probe_action" where
  "Probe_read_header throws = begins throws Op_read"

definition Probe_on_write :: "error_code \<Rightarrow> bool \<Rightarrow> probe \<Rightarrow> probe \<times> probe_outcome" where
  "Probe_on_write error throws =
     Probe_guarded (\<lambda>p.
       if error \<noteq> None then ends False ''write'' p else Probe_read_header throws p)"

definition Probe_on_read :: "error_code \<Rightarrow> nat \<Rightarrow> probe \<Rightarrow> probe \<times> probe_outcome" where
  "Probe_on_read error status =
     Probe_guarded (\<lambda>p.
       if error \<noteq> None then ends False ''read'' p
       else ends (200 \<le> status \<and> status \<le> 299) ''status'' p)"

text \<open>
  The handlers the library runs. A handler runs only while its operation is outstanding; the
  deadline's runs with \<open>operation_aborted\<close> only once the wait was cancelled, which \<open>close\<close> does.
\<close>

datatype probe_event =
    On_deadline error_code
  | On_resolve error_code bool
  | On_connect error_code bool
  | On_handshake error_code bool
  | On_write error_code bool
  | On_read error_code nat

definition completes ::
  "probe_op \<Rightarrow> (probe \<Rightarrow> probe \<times> probe_outcome) \<Rightarrow> probe \<Rightarrow> probe \<times> probe_outcome" where
  "completes op handler p =
     (if pb_op p = Some op then handler (p\<lparr>pb_op := None\<rparr>) else (p, None))"

fun Probe_event :: "net_lib \<Rightarrow> probe_event \<Rightarrow> probe \<Rightarrow> probe \<times> probe_outcome" where
  "Probe_event N (On_deadline error) p =
     (if pb_deadline p \<and> (error = Some Operation_aborted \<longrightarrow> pb_done p)
      then Probe_on_deadline error (p\<lparr>pb_deadline := False\<rparr>) else (p, None))"
| "Probe_event N (On_resolve error throws) p =
     completes Op_resolve (Probe_on_resolve error throws) p"
| "Probe_event N (On_connect error throws) p =
     completes Op_connect (Probe_guarded (Probe_connected N error throws)) p"
| "Probe_event N (On_handshake error throws) p =
     completes Op_handshake (Probe_on_handshake error throws) p"
| "Probe_event N (On_write error throws) p = completes Op_write (Probe_on_write error throws) p"
| "Probe_event N (On_read error status) p = completes Op_read (Probe_on_read error status) p"

section \<open>The checker\<close>

text \<open>
  \<open>hk_posted\<close>: the first \<open>pump\<close> is posted. \<open>hk_armed\<close>: a wait of the schedule timer is
  outstanding; \<open>hk_stale\<close>: waits that were cancelled and whose handlers have not run yet.
  \<open>hk_failure_calls\<close> and \<open>hk_marked\<close> are the calls of the failure callback and of the logger.
\<close>

record health_checks =
  hk_context :: "tls_context option"
  hk_targets :: "probe_target list"
  hk_probes :: "nat option list"
  hk_store :: "probe list"
  hk_schedule :: probe_schedule
  hk_health :: "health_route list"
  hk_started :: bool
  hk_stopped :: bool
  hk_pumping :: bool
  hk_posted :: bool
  hk_armed :: bool
  hk_stale :: nat
  hk_failure_calls :: nat
  hk_marked :: "(health_transition \<times> nat \<times> nat \<times> string) list"

fun targets_from :: "nat \<Rightarrow> route_config list \<Rightarrow> probe_target list" where
  "targets_from index [] = []"
| "targets_from index (entry # routes) =
     (case route_health_check entry of
        None \<Rightarrow> []
      | Some settings \<Rightarrow>
          map (\<lambda>upstream. \<lparr>pt_route = index, pt_upstream = upstream,
                 pt_backend = route_upstreams entry ! upstream, pt_health = settings\<rparr>)
            [0..<length (route_upstreams entry)]) @
     targets_from (index + 1) routes"

definition HealthChecks_new ::
  "app_config \<Rightarrow> health_route list option \<Rightarrow> bool \<Rightarrow> time_point \<Rightarrow> health_checks result" where
  "HealthChecks_new config state on_failure now =
     (case state of
        None \<Rightarrow> Inl (Invalid_argument ''health check callbacks/state must not be empty'')
      | Some health \<Rightarrow>
          if \<not> on_failure
          then Inl (Invalid_argument ''health check callbacks/state must not be empty'')
          else
            let targets = targets_from 0 (cfg_routes config) in
            bind_result
              (ProbeSchedule_new (map (\<lambda>t. ucast (hc_interval_ms (pt_health t))) targets) now)
              (\<lambda>schedule. Inr
                \<lparr>hk_context = cfg_upstream_tls_context config, hk_targets = targets,
                 hk_probes = replicate (length targets) None, hk_store = [],
                 hk_schedule = schedule, hk_health = health, hk_started = False,
                 hk_stopped = False, hk_pumping = False, hk_posted = False, hk_armed = False,
                 hk_stale = 0, hk_failure_calls = 0, hk_marked = []\<rparr>))"

definition HealthChecks_start :: "health_checks \<Rightarrow> health_checks" where
  "HealthChecks_start h =
     (if hk_started h \<or> hk_stopped h \<or> hk_targets h = [] then h
      else h\<lparr>hk_started := True, hk_posted := True\<rparr>)"

text \<open>Cancelling the timer, which setting a new expiry does too.\<close>

definition timer_cancel :: "health_checks \<Rightarrow> health_checks" where
  "timer_cancel h =
     (if hk_armed h then h\<lparr>hk_armed := False, hk_stale := hk_stale h + 1\<rparr> else h)"

definition cancel_probes :: "nat option list \<Rightarrow> probe list \<Rightarrow> probe list" where
  "cancel_probes probes store =
     foldl (\<lambda>store probe. case probe of
        None \<Rightarrow> store | Some k \<Rightarrow> store[k := Probe_cancel (store ! k)]) store probes"

definition HealthChecks_stop :: "health_checks \<Rightarrow> health_checks" where
  "HealthChecks_stop h =
     (if hk_stopped h then h
      else let h = timer_cancel (h\<lparr>hk_stopped := True,
             hk_schedule := ProbeSchedule_stop (hk_schedule h)\<rparr>) in
        h\<lparr>hk_store := cancel_probes (hk_probes h) (hk_store h),
          hk_probes := map (\<lambda>_. None) (hk_probes h)\<rparr>)"

definition HealthChecks_failed :: "health_checks \<Rightarrow> health_checks" where
  "HealthChecks_failed h =
     (if hk_stopped h then h
      else let h = HealthChecks_stop h in h\<lparr>hk_failure_calls := hk_failure_calls h + 1\<rparr>)"

text \<open>\<open>completed\<close> up to its call of \<open>pump\<close>; the flag says whether it gets there.\<close>

definition completed_base ::
  "health_checks \<Rightarrow> nat \<Rightarrow> bool \<Rightarrow> string \<Rightarrow> health_checks \<times> bool" where
  "completed_base h index success reason =
     (if hk_stopped h then (h, False)
      else case ProbeSchedule_complete (hk_schedule h) index of
        Inl e \<Rightarrow> (HealthChecks_failed h, False)
      | Inr schedule \<Rightarrow>
          let h = h\<lparr>hk_schedule := schedule, hk_probes := (hk_probes h)[index := None]\<rparr>;
              target = hk_targets h ! index in
          case UpstreamHealthState_record (hk_health h) (pt_route target) (pt_upstream target)
                 success of
            Inl e \<Rightarrow> (HealthChecks_failed h, False)
          | Inr (transition, health) \<Rightarrow>
              (h\<lparr>hk_health := health,
                 hk_marked := hk_marked h @
                   (if transition \<noteq> Unchanged
                    then [(transition, pt_route target, pt_upstream target, reason)] else [])\<rparr>,
               True))"

text \<open>
  The loop of \<open>pump\<close>. Each iteration reads the clock and may meet an exception, the next entry
  of the inputs; the result is None when the loop needs more of them, otherwise the state and
  whether the loop threw. A probe whose start throws completes within the loop: there \<open>pumping_\<close>
  is set, so that \<open>completed\<close>'s own call of \<open>pump\<close> returns at once.
\<close>

record pump_input =
  in_now :: time_point
  in_fault :: probe_fault

definition start_probe ::
  "beast \<Rightarrow> probe_fault \<Rightarrow> nat \<Rightarrow> health_checks \<Rightarrow> health_checks result" where
  "start_probe B fault slot h =
     bind_result
       (if fault = Fault_construct then Inl Bad_alloc
        else Probe_new B (hk_targets h ! slot) (hk_context h) slot)
       (\<lambda>p. let k = length (hk_store h) in
         case Probe_start fault p of (p', out) \<Rightarrow>
           let h = h\<lparr>hk_store := hk_store h @ [p'], hk_probes := (hk_probes h)[slot := Some k]\<rparr> in
           Inr (case out of None \<Rightarrow> h
                | Some (success, reason) \<Rightarrow> fst (completed_base h slot success reason)))"

fun pump_loop ::
  "beast \<Rightarrow> pump_input list \<Rightarrow> health_checks \<Rightarrow> (health_checks \<times> bool) option" where
  "pump_loop B [] h = None"
| "pump_loop B (x # xs) h =
     (case ProbeSchedule_take_due (hk_schedule h) (in_now x) of
        (schedule, None) \<Rightarrow> Some (h\<lparr>hk_schedule := schedule\<rparr>, False)
      | (schedule, Some slot) \<Rightarrow>
          let h = h\<lparr>hk_schedule := schedule\<rparr> in
          case start_probe B (in_fault x) slot h of
            Inl e \<Rightarrow> Some (h, True)
          | Inr h' \<Rightarrow> pump_loop B xs h')"

datatype timer_fault = Timer_ok | Fault_expires_at | Fault_async_wait

definition arm_timer :: "timer_fault \<Rightarrow> health_checks \<Rightarrow> health_checks \<times> bool" where
  "arm_timer fault h =
     (case ProbeSchedule_next_due (hk_schedule h) of
        None \<Rightarrow> (h, False)
      | Some due \<Rightarrow>
          if fault = Fault_expires_at then (h, True)
          else if fault = Fault_async_wait then (timer_cancel h, True)
          else ((timer_cancel h)\<lparr>hk_armed := True\<rparr>, False))"

definition pump ::
  "beast \<Rightarrow> pump_input list \<Rightarrow> timer_fault \<Rightarrow> health_checks \<Rightarrow> health_checks option" where
  "pump B inputs fault h =
     (if hk_stopped h \<or> hk_pumping h then Some h
      else case pump_loop B inputs (h\<lparr>hk_pumping := True\<rparr>) of
        None \<Rightarrow> None
      | Some (h, threw) \<Rightarrow>
          (case (if threw then (h, True) else arm_timer fault h) of (h, threw) \<Rightarrow>
             Some ((if threw then HealthChecks_failed h else h)\<lparr>hk_pumping := False\<rparr>)))"

definition completed ::
  "beast \<Rightarrow> pump_input list \<Rightarrow> timer_fault \<Rightarrow> health_checks \<Rightarrow> nat \<Rightarrow> bool \<Rightarrow> string \<Rightarrow>
   health_checks option" where
  "completed B inputs fault h index success reason =
     (case completed_base h index success reason of
        (h, True) \<Rightarrow> pump B inputs fault h
      | (h, False) \<Rightarrow> Some h)"

definition on_timer ::
  "beast \<Rightarrow> pump_input list \<Rightarrow> timer_fault \<Rightarrow> error_code \<Rightarrow> health_checks \<Rightarrow>
   health_checks option" where
  "on_timer B inputs fault error h =
     (if error = None then pump B inputs fault h
      else if error \<noteq> Some Operation_aborted then Some (HealthChecks_failed h)
      else Some h)"

text \<open>
  The events of a checker. The outstanding wait of the timer completes without being cancelled; a
  cancelled one was either already due or completes with \<open>operation_aborted\<close>.
\<close>

datatype health_event =
    Start_checks
  | Stop_checks
  | Posted_pump
  | Timer_fired error_code
  | Stale_timer error_code
  | Probe_handler nat probe_event

fun health_step ::
  "net_lib \<Rightarrow> beast \<Rightarrow> pump_input list \<Rightarrow> timer_fault \<Rightarrow> health_event \<Rightarrow> health_checks \<Rightarrow>
   health_checks option" where
  "health_step N B inputs fault Start_checks h = Some (HealthChecks_start h)"
| "health_step N B inputs fault Stop_checks h = Some (HealthChecks_stop h)"
| "health_step N B inputs fault Posted_pump h =
     (if hk_posted h then pump B inputs fault (h\<lparr>hk_posted := False\<rparr>) else Some h)"
| "health_step N B inputs fault (Timer_fired error) h =
     (if hk_armed h \<and> error \<noteq> Some Operation_aborted
      then on_timer B inputs fault error (h\<lparr>hk_armed := False\<rparr>) else Some h)"
| "health_step N B inputs fault (Stale_timer error) h =
     (if 0 < hk_stale h then on_timer B inputs fault error (h\<lparr>hk_stale := hk_stale h - 1\<rparr>)
      else Some h)"
| "health_step N B inputs fault (Probe_handler k e) h =
     (if k < length (hk_store h) then
        case Probe_event N e (hk_store h ! k) of (p, out) \<Rightarrow>
          let h = h\<lparr>hk_store := (hk_store h)[k := p]\<rparr> in
          case out of
            None \<Rightarrow> Some h
          | Some (success, reason) \<Rightarrow> completed B inputs fault h (pb_slot p) success reason
      else Some h)"

type_synonym health_input = "pump_input list \<times> timer_fault \<times> health_event"

fun health_run ::
  "net_lib \<Rightarrow> beast \<Rightarrow> health_input list \<Rightarrow> health_checks \<Rightarrow> health_checks option" where
  "health_run N B [] h = Some h"
| "health_run N B ((inputs, fault, e) # es) h =
     (case health_step N B inputs fault e h of
        None \<Rightarrow> None | Some h' \<Rightarrow> health_run N B es h')"

section \<open>Single probes\<close>

text \<open>
  A finished probe has closed its socket and given its completion away; a running one has its
  completion, its deadline and one operation outstanding.
\<close>

definition probe_ok :: "probe \<Rightarrow> bool" where
  "probe_ok p \<longleftrightarrow>
     (if pb_done p then \<not> pb_open p \<and> \<not> pb_completion p
      else pb_completion p \<and> pb_deadline p \<and> pb_op p \<noteq> None)"

lemmas probe_defs = Probe_finish_def Probe_close_def Probe_guarded_def ends_def begins_def
  Probe_write_def Probe_read_header_def completes_def Probe_on_deadline_def Probe_on_resolve_def
  Probe_connected_def Probe_on_handshake_def Probe_on_write_def Probe_on_read_def Let_def

lemma probe_event_ok:
  assumes "probe_ok p"
  shows "probe_ok (fst (Probe_event N e p))" "pb_slot (fst (Probe_event N e p)) = pb_slot p"
    "pb_done p \<Longrightarrow> pb_done (fst (Probe_event N e p))"
    "snd (Probe_event N e p) = None \<longleftrightarrow> (pb_done (fst (Probe_event N e p)) \<longrightarrow> pb_done p)"
  using assms
  by (cases e; auto simp: probe_defs probe_ok_def split: prod.split)+

lemma probe_cancel_ok:
  "probe_ok p \<Longrightarrow> probe_ok (Probe_cancel p)" "pb_done (Probe_cancel p)"
  "pb_slot (Probe_cancel p) = pb_slot p" "Probe_cancel (Probe_cancel p) = Probe_cancel p"
  by (auto simp: Probe_cancel_def Probe_close_def probe_ok_def)

lemma probe_start_ok:
  assumes "Probe_new B target context slot = Inr p" and "Probe_start fault p = (p', out)"
  shows "\<not> pb_done p" "pb_slot p = slot" "probe_ok p'" "pb_slot p' = slot"
    "out = None \<longleftrightarrow> \<not> pb_done p'"
  using assms
  by (auto simp: Probe_new_def Probe_start_def probe_defs probe_ok_def split: if_splits)

section \<open>The invariant of the checker\<close>

text \<open>The references of the slots and the running probes of the store match one to one.\<close>

definition hc_refs :: "health_checks \<Rightarrow> bool" where
  "hc_refs h \<longleftrightarrow>
     length (hk_probes h) = length (hk_targets h) \<and>
     (\<forall>i < length (hk_probes h). \<forall>k. hk_probes h ! i = Some k \<longrightarrow>
        k < length (hk_store h) \<and> \<not> pb_done (hk_store h ! k) \<and> pb_slot (hk_store h ! k) = i) \<and>
     (\<forall>k < length (hk_store h). \<not> pb_done (hk_store h ! k) \<longrightarrow>
        pb_slot (hk_store h ! k) < length (hk_probes h) \<and>
        hk_probes h ! pb_slot (hk_store h ! k) = Some k)"

lemma hc_refs_frame [simp]:
  "hc_refs (h\<lparr>hk_schedule := s\<rparr>) = hc_refs h" "hc_refs (h\<lparr>hk_pumping := b\<rparr>) = hc_refs h"
  "hc_refs (h\<lparr>hk_armed := b\<rparr>) = hc_refs h" "hc_refs (h\<lparr>hk_stale := n\<rparr>) = hc_refs h"
  "hc_refs (h\<lparr>hk_posted := b\<rparr>) = hc_refs h" "hc_refs (h\<lparr>hk_started := b\<rparr>) = hc_refs h"
  by (simp_all add: hc_refs_def)

lemma hc_refsD:
  assumes "hc_refs h"
  shows "j < length (hk_probes h) \<Longrightarrow> hk_probes h ! j = Some m \<Longrightarrow>
      m < length (hk_store h) \<and> \<not> pb_done (hk_store h ! m) \<and> pb_slot (hk_store h ! m) = j"
    "m < length (hk_store h) \<Longrightarrow> \<not> pb_done (hk_store h ! m) \<Longrightarrow>
      pb_slot (hk_store h ! m) < length (hk_probes h) \<and>
      hk_probes h ! pb_slot (hk_store h ! m) = Some m"
  using assms unfolding hc_refs_def by blast+

definition hc_sync :: "health_checks \<Rightarrow> bool" where
  "hc_sync h \<longleftrightarrow>
     (\<forall>i < length (hk_probes h).
        if hk_stopped h then hk_probes h ! i = None
        else pr_in_flight (sc_slots (hk_schedule h) ! i) \<longleftrightarrow> hk_probes h ! i \<noteq> None)"

definition interval_ok :: "probe_slot \<Rightarrow> bool" where
  "interval_ok slot \<longleftrightarrow> 100 \<le> sint (pr_interval slot) \<and> sint (pr_interval slot) \<le> 60000"

definition hc_frame :: "route_config list \<Rightarrow> health_checks \<Rightarrow> bool" where
  "hc_frame routes h \<longleftrightarrow>
     length (sc_slots (hk_schedule h)) = length (hk_targets h) \<and> schedule_ok (hk_schedule h) \<and>
     list_all interval_ok (sc_slots (hk_schedule h)) \<and>
     sc_stopped (hk_schedule h) = hk_stopped h \<and> hk_targets h = targets_from 0 routes \<and>
     health_shape routes (hk_health h) \<and> list_all probe_ok (hk_store h) \<and>
     hk_failure_calls h \<le> (if hk_stopped h then 1 else 0) \<and>
     (hk_started h \<longrightarrow> targets_from 0 routes \<noteq> [])"

text \<open>Something is outstanding that makes the checker go on.\<close>

definition hc_live :: "health_checks \<Rightarrow> bool" where
  "hc_live h \<longleftrightarrow>
     (hk_started h \<and> \<not> hk_stopped h \<longrightarrow>
        hk_posted h \<or> hk_armed h \<or> (\<exists>p \<in> set (hk_store h). \<not> pb_done p))"

definition hc_ok :: "route_config list \<Rightarrow> health_checks \<Rightarrow> bool" where
  "hc_ok routes h \<longleftrightarrow> hc_refs h \<and> hc_sync h \<and> hc_frame routes h"

lemma targets_from_bounds:
  "t \<in> set (targets_from index routes) \<Longrightarrow>
   \<exists>j < length routes. pt_route t = index + j \<and>
     pt_upstream t < length (route_upstreams (routes ! j)) \<and>
     pt_backend t = route_upstreams (routes ! j) ! pt_upstream t \<and>
     route_health_check (routes ! j) = Some (pt_health t)"
proof (induction index routes rule: targets_from.induct)
  case (2 index entry routes)
  then consider "t \<in> set (targets_from (index + 1) routes)"
    | settings u where "route_health_check entry = Some settings" "u < length (route_upstreams entry)"
      "t = \<lparr>pt_route = index, pt_upstream = u, pt_backend = route_upstreams entry ! u,
            pt_health = settings\<rparr>"
    by (cases "route_health_check entry") auto
  then show ?case
  proof cases
    case 1
    then obtain j where "j < length routes" "pt_route t = index + 1 + j"
      "pt_upstream t < length (route_upstreams (routes ! j))"
      "pt_backend t = route_upstreams (routes ! j) ! pt_upstream t"
      "route_health_check (routes ! j) = Some (pt_health t)"
      using "2.IH" by auto
    then show ?thesis by (intro exI [of _ "Suc j"]) simp
  qed (auto intro!: exI [of _ 0])
qed simp

lemma health_record_total:
  assumes "health_shape routes hs" "i < length routes" "j < length (route_upstreams (routes ! i))"
  shows "\<exists>t hs'. UpstreamHealthState_record hs i j success = Inr (t, hs')"
  using assms health_shape_nth [OF assms(1,2)]
  by (simp add: UpstreamHealthState_record_def vec_at_def split: option.split prod.split)

lemma target_record_total:
  assumes "hc_frame routes h" and "i < length (hk_targets h)"
  shows "\<exists>t hs'. UpstreamHealthState_record (hk_health h) (pt_route (hk_targets h ! i))
    (pt_upstream (hk_targets h ! i)) success = Inr (t, hs')"
proof -
  have "hk_targets h ! i \<in> set (targets_from 0 routes)"
    using assms by (metis hc_frame_def nth_mem)
  then show ?thesis
    using targets_from_bounds health_record_total assms(1)
    unfolding hc_frame_def by (metis add_0)
qed

section \<open>Stopping\<close>

lemma cancel_probes_nth:
  "length (cancel_probes probes store) = length store \<and>
   (\<forall>k < length store. cancel_probes probes store ! k =
      (if Some k \<in> set probes then Probe_cancel (store ! k) else store ! k))"
proof (induction probes arbitrary: store)
  case Nil
  then show ?case by (simp add: cancel_probes_def)
next
  case (Cons probe probes)
  let ?store = "case probe of None \<Rightarrow> store | Some k \<Rightarrow> store[k := Probe_cancel (store ! k)]"
  have "cancel_probes (probe # probes) store = cancel_probes probes ?store"
    by (simp add: cancel_probes_def)
  then show ?case
    using Cons.IH [of ?store]
    by (cases probe) (auto simp: nth_update_if probe_cancel_ok(4))
qed

lemma timer_cancel_simps [simp]:
  "hk_context (timer_cancel h) = hk_context h" "hk_targets (timer_cancel h) = hk_targets h"
  "hk_probes (timer_cancel h) = hk_probes h" "hk_store (timer_cancel h) = hk_store h"
  "hk_schedule (timer_cancel h) = hk_schedule h" "hk_health (timer_cancel h) = hk_health h"
  "hk_started (timer_cancel h) = hk_started h" "hk_stopped (timer_cancel h) = hk_stopped h"
  "hk_pumping (timer_cancel h) = hk_pumping h" "hk_posted (timer_cancel h) = hk_posted h"
  "hk_failure_calls (timer_cancel h) = hk_failure_calls h"
  by (simp_all add: timer_cancel_def)

text \<open>Stopping also repairs a slot that was taken and has no probe yet.\<close>

lemma stop_hc_ok:
  assumes "hc_refs h" and "hc_frame routes h" and "\<not> hk_stopped h"
  shows "hc_ok routes (HealthChecks_stop h)" "hk_stopped (HealthChecks_stop h)"
    "hk_failure_calls (HealthChecks_stop h) = hk_failure_calls h"
    "\<forall>p \<in> set (hk_store (HealthChecks_stop h)). pb_done p"
proof -
  let ?h = "HealthChecks_stop h" and ?store = "cancel_probes (hk_probes h) (hk_store h)"
  have fields: "hk_store ?h = ?store" "hk_probes ?h = map (\<lambda>_. None) (hk_probes h)"
    "hk_schedule ?h = ProbeSchedule_stop (hk_schedule h)" "hk_targets ?h = hk_targets h"
    "hk_health ?h = hk_health h" "hk_stopped ?h" "hk_failure_calls ?h = hk_failure_calls h"
    "hk_started ?h = hk_started h"
    using assms(3) by (simp_all add: HealthChecks_stop_def Let_def)
  have nth: "length ?store = length (hk_store h)"
    "\<And>k. k < length (hk_store h) \<Longrightarrow> ?store ! k =
       (if Some k \<in> set (hk_probes h) then Probe_cancel (hk_store h ! k) else hk_store h ! k)"
    using cancel_probes_nth by auto
  have "pb_done (?store ! k)" if "k < length (hk_store h)" for k
    using that assms(1) nth(2) probe_cancel_ok(2) by (metis hc_refs_def nth_mem)
  then show all_done: "\<forall>p \<in> set (hk_store ?h). pb_done p"
    by (auto simp: fields(1) in_set_conv_nth nth(1))
  then have "hc_refs ?h"
    using assms(1) by (simp add: hc_refs_def fields)
  moreover have "hc_sync ?h"
    by (simp add: hc_sync_def fields)
  moreover have "hc_frame routes ?h"
    using assms(2,3) nth probe_cancel_ok(1)
    by (auto simp: hc_frame_def fields stop_ok ProbeSchedule_stop_def list_all_length interval_ok_def
        intro: stop_ok [unfolded ProbeSchedule_stop_def])
  ultimately show "hc_ok routes ?h"
    by (simp add: hc_ok_def)
  show "hk_stopped ?h" "hk_failure_calls ?h = hk_failure_calls h"
    by (rule fields)+
qed

lemma failed_hc_ok:
  assumes "hc_refs h" and "hc_frame routes h" and "\<not> hk_stopped h"
  shows "hc_ok routes (HealthChecks_failed h)" "hk_stopped (HealthChecks_failed h)"
proof -
  have "HealthChecks_failed h =
      (HealthChecks_stop h)\<lparr>hk_failure_calls := hk_failure_calls (HealthChecks_stop h) + 1\<rparr>"
    using assms(3) by (simp add: HealthChecks_failed_def Let_def)
  moreover have "hk_failure_calls h = 0"
    using assms(2,3) by (simp add: hc_frame_def)
  ultimately show "hc_ok routes (HealthChecks_failed h)" "hk_stopped (HealthChecks_failed h)"
    using stop_hc_ok(1-3) [OF assms]
    by (auto simp: hc_ok_def hc_refs_def hc_sync_def hc_frame_def)
qed

section \<open>Completing and starting probes\<close>

lemma complete_in_flight:
  assumes "i < length (sc_slots s)" "pr_in_flight (sc_slots s ! i)"
  shows "ProbeSchedule_complete s i = Inr (s\<lparr>sc_slots := (sc_slots s)[i :=
    (sc_slots s ! i)\<lparr>pr_in_flight := False\<rparr>], sc_active := sc_active s - 1\<rparr>)"
  using assms by (simp add: ProbeSchedule_complete_def vec_at_def)

lemma list_all_update: "list_all P xs \<Longrightarrow> P x \<Longrightarrow> list_all P (xs[i := x])"
  using set_update_subset_insert [of xs i x] by (auto simp: list_all_iff)

text \<open>
  The probe \<open>k\<close> of slot \<open>i\<close> has just finished: \<open>h\<close> is \<open>h\<^sub>0\<close> with that probe replaced. Then
  \<open>completed\<close> throws nothing and restores the invariant.
\<close>

lemma completed_base_ok:
  assumes refs: "hc_refs h0" "hc_sync h0" and frame: "hc_frame routes h"
    and h: "h = h0\<lparr>hk_store := (hk_store h0)[k := p']\<rparr>" and run: "\<not> hk_stopped h0"
    and k: "k < length (hk_store h0)" "\<not> pb_done (hk_store h0 ! k)" "pb_done p'"
    and i: "i = pb_slot (hk_store h0 ! k)"
  obtains health marked where
    "completed_base h i success reason =
      (h\<lparr>hk_schedule := hk_schedule h\<lparr>sc_slots := (sc_slots (hk_schedule h))[i :=
           (sc_slots (hk_schedule h) ! i)\<lparr>pr_in_flight := False\<rparr>],
           sc_active := sc_active (hk_schedule h) - 1\<rparr>,
         hk_probes := (hk_probes h)[i := None], hk_health := health, hk_marked := marked\<rparr>, True)"
    "hc_ok routes (fst (completed_base h i success reason))"
proof -
  have slot: "i < length (hk_probes h0)" "hk_probes h0 ! i = Some k"
    using refs(1) k i by (auto simp: hc_refs_def)
  have len: "length (hk_probes h0) = length (hk_targets h0)"
    "length (sc_slots (hk_schedule h)) = length (hk_targets h)"
    using refs(1) frame by (simp_all add: hc_refs_def hc_frame_def)
  have i_less: "i < length (sc_slots (hk_schedule h))" "i < length (hk_targets h)"
    using slot(1) len by (simp_all add: h)
  have flight: "pr_in_flight (sc_slots (hk_schedule h) ! i)"
    using refs(2) slot run by (simp add: hc_sync_def h)
  have run_h: "\<not> hk_stopped h"
    using run by (simp add: h)
  note complete = complete_in_flight [OF i_less(1) flight]
  let ?s = "hk_schedule h\<lparr>sc_slots := (sc_slots (hk_schedule h))[i :=
      (sc_slots (hk_schedule h) ! i)\<lparr>pr_in_flight := False\<rparr>],
      sc_active := sc_active (hk_schedule h) - 1\<rparr>"
  obtain t health where recorded: "UpstreamHealthState_record (hk_health h)
      (pt_route (hk_targets h ! i)) (pt_upstream (hk_targets h ! i)) success = Inr (t, health)"
    using target_record_total [OF frame i_less(2)] by blast
  let ?marked = "hk_marked h @ (if t \<noteq> Unchanged
      then [(t, pt_route (hk_targets h ! i), pt_upstream (hk_targets h ! i), reason)] else [])"
  let ?h = "h\<lparr>hk_schedule := ?s, hk_probes := (hk_probes h)[i := None], hk_health := health,
      hk_marked := ?marked\<rparr>"
  have eq: "completed_base h i success reason = (?h, True)"
    by (simp add: completed_base_def complete recorded run_h Let_def)
  note refs_D = hc_refsD [OF refs(1)]
  have "hc_refs ?h"
    unfolding hc_refs_def
  proof (intro conjI allI impI)
    show "length (hk_probes ?h) = length (hk_targets ?h)"
      using len by (simp add: h)
  next
    fix j m
    assume "j < length (hk_probes ?h)" "hk_probes ?h ! j = Some m"
    then have j: "j < length (hk_probes h0)" "j \<noteq> i" "hk_probes h0 ! j = Some m"
      using slot(1) by (auto simp: h nth_update_if split: if_splits)
    then have "m \<noteq> k"
      using refs_D(1) i by blast
    then show "m < length (hk_store ?h)" "\<not> pb_done (hk_store ?h ! m)"
      "pb_slot (hk_store ?h ! m) = j"
      using refs_D(1) [OF j(1,3)] by (simp_all add: h)
  next
    fix m
    assume "m < length (hk_store ?h)" "\<not> pb_done (hk_store ?h ! m)"
    then have m: "m < length (hk_store h0)" "m \<noteq> k" "\<not> pb_done (hk_store h0 ! m)"
      using k by (auto simp: h nth_update_if split: if_splits)
    then show "pb_slot (hk_store ?h ! m) < length (hk_probes ?h)"
      "hk_probes ?h ! pb_slot (hk_store ?h ! m) = Some m"
      using refs_D(2) [OF m(1,3)] slot(2) by (auto simp: h nth_update_if)
  qed
  moreover have "hc_sync ?h"
  proof -
    have "pr_in_flight (sc_slots ?s ! j) \<longleftrightarrow> (hk_probes h)[i := None] ! j \<noteq> None"
      if "j < length (hk_probes h)" for j
      using refs(2) that run i_less(1) slot(1) by (cases "j = i") (simp_all add: hc_sync_def h)
    then show ?thesis
      using run_h by (simp add: hc_sync_def)
  qed
  moreover have "hc_frame routes ?h"
  proof -
    have "interval_ok ((sc_slots (hk_schedule h) ! i)\<lparr>pr_in_flight := False\<rparr>)"
      using frame i_less(1) by (simp add: hc_frame_def interval_ok_def list_all_length)
    then show ?thesis
      using frame complete_ok [OF _ complete] health_shape_record [OF _ recorded]
      by (auto simp: hc_frame_def list_all_update)
  qed
  ultimately have "hc_ok routes ?h"
    by (simp add: hc_ok_def)
  with eq show ?thesis
    by (intro that) simp_all
qed

lemma take_due_frame:
  assumes "hc_frame routes h" and "ProbeSchedule_take_due (hk_schedule h) now = (s, r)"
  shows "hc_frame routes (h\<lparr>hk_schedule := s\<rparr>)"
proof (cases r)
  case None
  then have "sc_slots s = sc_slots (hk_schedule h)" "sc_stopped s = sc_stopped (hk_schedule h)"
    using assms take_due_find [of "hk_schedule h" now]
    by (auto simp: hc_frame_def ProbeSchedule_take_due_def split: if_splits option.splits)
  then show ?thesis
    using assms take_due_ok [of "hk_schedule h" now] by (auto simp: hc_frame_def)
next
  case (Some i)
  let ?slots = "sc_slots (hk_schedule h)"
  note take = take_due_Some [OF _ assms(2) [unfolded Some]]
  have ok: "schedule_ok (hk_schedule h)"
    using assms(1) by (simp add: hc_frame_def)
  then have "interval_ok ((?slots ! i)\<lparr>pr_in_flight := True,
      pr_due := deadline_after now (pr_interval (?slots ! i) * 1000000)\<rparr>)"
    using assms(1) take(1) by (simp add: hc_frame_def interval_ok_def list_all_length)
  moreover have "schedule_ok s"
    using take_due_ok [OF ok, of now] assms(2) by simp
  ultimately show ?thesis
    using assms(1) take(5) [OF ok] by (simp add: hc_frame_def list_all_update)
qed

text \<open>Storing a running probe in the slot that \<open>take_due\<close> picked.\<close>

lemma register_refs:
  assumes refs: "hc_refs h" and free: "slot < length (hk_probes h)" "hk_probes h ! slot = None"
    and q: "\<not> pb_done q" "pb_slot q = slot"
  shows "hc_refs (h\<lparr>hk_store := hk_store h @ [q],
    hk_probes := (hk_probes h)[slot := Some (length (hk_store h))]\<rparr>)" (is "hc_refs ?h")
  unfolding hc_refs_def
proof (intro conjI allI impI)
  show "length (hk_probes ?h) = length (hk_targets ?h)"
    using refs by (simp add: hc_refs_def)
next
  fix j m
  assume "j < length (hk_probes ?h)" "hk_probes ?h ! j = Some m"
  then consider "j = slot" "m = length (hk_store h)"
    | "j \<noteq> slot" "j < length (hk_probes h)" "hk_probes h ! j = Some m"
    by (auto simp: nth_update_if split: if_splits)
  then have "m < length (hk_store ?h) \<and> \<not> pb_done (hk_store ?h ! m) \<and> pb_slot (hk_store ?h ! m) = j"
  proof cases
    case 1
    then show ?thesis using q by simp
  next
    case 2
    then show ?thesis using hc_refsD(1) [OF refs 2(2,3)] by (simp add: nth_append)
  qed
  then show "m < length (hk_store ?h)" "\<not> pb_done (hk_store ?h ! m)" "pb_slot (hk_store ?h ! m) = j"
    by blast+
next
  fix m
  assume m: "m < length (hk_store ?h)" "\<not> pb_done (hk_store ?h ! m)"
  then consider "m = length (hk_store h)"
    | "m < length (hk_store h)" "\<not> pb_done (hk_store h ! m)"
    by (auto simp: nth_append less_Suc_eq split: if_splits)
  then have "pb_slot (hk_store ?h ! m) < length (hk_probes ?h) \<and>
    hk_probes ?h ! pb_slot (hk_store ?h ! m) = Some m"
  proof cases
    case 1
    then show ?thesis using q free by simp
  next
    case 2
    then show ?thesis
      using hc_refsD(2) [OF refs 2] free by (auto simp: nth_append nth_update_if)
  qed
  then show "pb_slot (hk_store ?h ! m) < length (hk_probes ?h)"
    "hk_probes ?h ! pb_slot (hk_store ?h ! m) = Some m"
    by blast+
qed

lemma register_sync:
  assumes ok: "hc_ok routes h" and run: "\<not> hk_stopped h"
    and take: "ProbeSchedule_take_due (hk_schedule h) now = (s, Some slot)"
  shows "slot < length (hk_probes h)" "hk_probes h ! slot = None"
    "hc_sync (h\<lparr>hk_schedule := s, hk_store := st, hk_probes := (hk_probes h)[slot := Some k]\<rparr>)"
proof -
  have sched: "schedule_ok (hk_schedule h)"
    and len: "length (sc_slots (hk_schedule h)) = length (hk_probes h)"
    using ok by (simp_all add: hc_ok_def hc_frame_def hc_refs_def)
  note t = take_due_Some [OF sched take]
  show slot: "slot < length (hk_probes h)"
    using t(1) len by simp
  then show "hk_probes h ! slot = None"
    using ok run t(2) by (auto simp: hc_ok_def hc_sync_def slot_due_def)
  have "pr_in_flight (sc_slots s ! j) \<longleftrightarrow> (hk_probes h)[slot := Some k] ! j \<noteq> None"
    if "j < length (hk_probes h)" for j
    using ok that run len by (cases "j = slot") (simp_all add: t(5) hc_ok_def hc_sync_def)
  then show "hc_sync (h\<lparr>hk_schedule := s, hk_store := st, hk_probes := (hk_probes h)[slot := Some k]\<rparr>)"
    using run by (simp add: hc_sync_def)
qed

text \<open>What a pass of the loop leaves alone.\<close>

definition hc_kept :: "health_checks \<Rightarrow> health_checks \<Rightarrow> bool" where
  "hc_kept h h' \<longleftrightarrow>
     hk_started h' = hk_started h \<and> hk_stopped h' = hk_stopped h \<and> hk_pumping h' = hk_pumping h \<and>
     hk_posted h' = hk_posted h \<and> hk_targets h' = hk_targets h \<and> hk_context h' = hk_context h"

lemma hc_kept_trans: "hc_kept a b \<Longrightarrow> hc_kept b c \<Longrightarrow> hc_kept a c"
  by (simp add: hc_kept_def)

lemma start_probe_ok:
  assumes ok: "hc_ok routes h" and run: "\<not> hk_stopped h"
    and take: "ProbeSchedule_take_due (hk_schedule h) now = (s, Some slot)"
    and start: "start_probe B fault slot (h\<lparr>hk_schedule := s\<rparr>) = Inr h'"
  shows "hc_ok routes h' \<and> hc_kept h h' \<and>
    map pr_due (sc_slots (hk_schedule h')) = map pr_due (sc_slots s)"
proof -
  let ?h1 = "h\<lparr>hk_schedule := s\<rparr>" and ?k = "length (hk_store h)"
  obtain p p' out where new: "Probe_new B (hk_targets h ! slot) (hk_context h) slot = Inr p"
    and started: "Probe_start fault p = (p', out)"
    and h': "h' = (let h = ?h1\<lparr>hk_store := hk_store h @ [p'],
          hk_probes := (hk_probes h)[slot := Some ?k]\<rparr> in
        case out of None \<Rightarrow> h
        | Some (success, reason) \<Rightarrow> fst (completed_base h slot success reason))"
    using start unfolding start_probe_def
    by (auto simp: Let_def elim!: bind_result_InrE split: prod.splits if_splits)
  note p = probe_start_ok [OF new started]
  note reg = register_sync [OF ok run take]
  let ?h2 = "\<lambda>q. ?h1\<lparr>hk_store := hk_store h @ [q], hk_probes := (hk_probes h)[slot := Some ?k]\<rparr>"
  have refs: "hc_refs (?h2 q)" if "\<not> pb_done q" "pb_slot q = slot" for q
    using register_refs [of ?h1 slot q] ok reg(1,2) that by (simp add: hc_ok_def)
  have sync: "hc_sync (?h2 q)" for q
    by (rule reg(3))
  have frame: "hc_frame routes (?h2 p')"
    using take_due_frame [OF _ take, of routes] ok p(3) by (simp add: hc_ok_def hc_frame_def)
  show ?thesis
  proof (cases out)
    case None
    then show ?thesis
      using refs [of p'] sync frame p h' by (simp add: hc_ok_def hc_kept_def)
  next
    case (Some sr)
    obtain success reason where sr: "sr = (success, reason)"
      by (cases sr)
    have eq: "?h2 p' = (?h2 p)\<lparr>hk_store := (hk_store (?h2 p))[?k := p']\<rparr>"
      by simp
    have slot_p: "slot = pb_slot (hk_store (?h2 p) ! ?k)"
      by (simp add: p)
    have pre: "\<not> hk_stopped (?h2 p)" "?k < length (hk_store (?h2 p))"
      "\<not> pb_done (hk_store (?h2 p) ! ?k)" "pb_done p'"
      using run p(1,5) Some by simp_all
    obtain health marked where
      done_eq: "completed_base (?h2 p') slot success reason =
        ((?h2 p')\<lparr>hk_schedule := hk_schedule (?h2 p')\<lparr>sc_slots := (sc_slots (hk_schedule (?h2 p')))[slot :=
           (sc_slots (hk_schedule (?h2 p')) ! slot)\<lparr>pr_in_flight := False\<rparr>],
           sc_active := sc_active (hk_schedule (?h2 p')) - 1\<rparr>,
         hk_probes := (hk_probes (?h2 p'))[slot := None], hk_health := health, hk_marked := marked\<rparr>, True)"
      and done_ok: "hc_ok routes (fst (completed_base (?h2 p') slot success reason))"
      by (rule completed_base_ok [OF refs [OF p(1,2)] sync frame eq pre slot_p]) (rule that)
    have h'': "h' = fst (completed_base (?h2 p') slot success reason)"
      using h' Some sr by simp
    show ?thesis
      using done_ok by (simp add: h'' done_eq hc_kept_def map_update_same)
  qed
qed

section \<open>The pump\<close>

lemma pump_loop_ok:
  "hc_ok routes h \<Longrightarrow> \<not> hk_stopped h \<Longrightarrow> pump_loop B xs h = Some (h', threw) \<Longrightarrow>
   hc_refs h' \<and> hc_frame routes h' \<and> hc_kept h h' \<and> (\<not> threw \<longrightarrow> hc_ok routes h')"
proof (induction xs arbitrary: h)
  case Nil
  then show ?case by simp
next
  case (Cons x xs)
  obtain s r where take: "ProbeSchedule_take_due (hk_schedule h) (in_now x) = (s, r)"
    by (cases "ProbeSchedule_take_due (hk_schedule h) (in_now x)")
  have refs: "hc_refs (h\<lparr>hk_schedule := s\<rparr>)" and frame: "hc_frame routes (h\<lparr>hk_schedule := s\<rparr>)"
    using Cons.prems(1) take_due_frame [OF _ take] by (simp_all add: hc_ok_def)
  show ?case
  proof (cases r)
    case None
    have "sc_slots s = sc_slots (hk_schedule h)"
      using take None Cons.prems(1) take_due_find [of "hk_schedule h" "in_now x"]
      by (auto simp: hc_ok_def hc_frame_def ProbeSchedule_take_due_def split: if_splits option.splits)
    then have "hc_sync (h\<lparr>hk_schedule := s\<rparr>)"
      using Cons.prems(1) by (simp add: hc_ok_def hc_sync_def)
    then show ?thesis
      using Cons.prems(3) take None refs frame by (auto simp: hc_ok_def hc_kept_def)
  next
    case (Some slot)
    show ?thesis
    proof (cases "start_probe B (in_fault x) slot (h\<lparr>hk_schedule := s\<rparr>)")
      case (Inl e)
      then show ?thesis
        using Cons.prems(3) take Some refs frame by (auto simp: hc_kept_def)
    next
      case (Inr h1)
      have h1: "hc_ok routes h1" "hc_kept h h1"
        using start_probe_ok [OF Cons.prems(1,2) take [unfolded Some] Inr] by simp_all
      moreover have "pump_loop B xs h1 = Some (h', threw)"
        using Cons.prems(3) take Some Inr by simp
      ultimately show ?thesis
        using Cons.IH [of h1] Cons.prems(2) hc_kept_trans [OF h1(2)] by (simp add: hc_kept_def)
    qed
  qed
qed

lemma hc_ok_frame [simp]:
  "hc_ok routes (h\<lparr>hk_pumping := b\<rparr>) = hc_ok routes h"
  "hc_ok routes (h\<lparr>hk_armed := b\<rparr>) = hc_ok routes h"
  "hc_ok routes (h\<lparr>hk_stale := n\<rparr>) = hc_ok routes h"
  "hc_ok routes (h\<lparr>hk_posted := b\<rparr>) = hc_ok routes h"
  by (simp_all add: hc_ok_def hc_sync_def hc_frame_def)

lemma hc_ok_timer_cancel [simp]: "hc_ok routes (timer_cancel h) = hc_ok routes h"
  by (simp add: timer_cancel_def)

lemma hc_frame_timer_cancel [simp]:
  "hc_refs (timer_cancel h) = hc_refs h" "hc_frame routes (timer_cancel h) = hc_frame routes h"
  by (simp_all add: timer_cancel_def hc_frame_def)

lemma next_due_None:
  assumes "schedule_ok s" "\<not> sc_stopped s" "sc_slots s \<noteq> []" "ProbeSchedule_next_due s = None"
  shows "\<exists>i < length (sc_slots s). pr_in_flight (sc_slots s ! i)"
proof (cases "sc_active s = max_in_flight")
  case True
  then have "filter pr_in_flight (sc_slots s) \<noteq> []"
    using active_full [OF assms(1)] by (auto simp: in_flight_count_def)
  then show ?thesis
    by (auto simp: filter_empty_conv in_set_conv_nth)
next
  case False
  then have "\<forall>slot \<in> set (sc_slots s). pr_in_flight slot"
    using assms(2,4) next_due_fold [of None "sc_slots s"] by (simp add: ProbeSchedule_next_due_def)
  then show ?thesis
    using assms(3) by (metis length_greater_0_conv nth_mem)
qed

lemma hc_live_next_due_None:
  assumes "hc_ok routes h" "ProbeSchedule_next_due (hk_schedule h) = None"
  shows "hc_live h"
  unfolding hc_live_def
proof (intro impI disjI2)
  assume on: "hk_started h \<and> \<not> hk_stopped h"
  have h: "hc_refs h" "hc_sync h" "hc_frame routes h"
    using assms(1) by (simp_all add: hc_ok_def)
  have "sc_slots (hk_schedule h) \<noteq> []"
    using h(3) on by (auto simp: hc_frame_def)
  then obtain i where i: "i < length (sc_slots (hk_schedule h))"
    "pr_in_flight (sc_slots (hk_schedule h) ! i)"
    using next_due_None [of "hk_schedule h"] h(3) on assms(2) by (auto simp: hc_frame_def)
  then have "i < length (hk_probes h)"
    using h(1,3) by (simp add: hc_refs_def hc_frame_def)
  then obtain k where "hk_probes h ! i = Some k"
    using h(2) on i(2) by (auto simp: hc_sync_def)
  then show "\<exists>p \<in> set (hk_store h). \<not> pb_done p"
    using hc_refsD(1) [OF h(1) \<open>i < length (hk_probes h)\<close>] by (auto intro: nth_mem)
qed

lemma failed_pumping [simp]: "hk_pumping (HealthChecks_failed h) = hk_pumping h"
  "hk_pumping (HealthChecks_stop h) = hk_pumping h"
  by (simp_all add: HealthChecks_failed_def HealthChecks_stop_def Let_def)

definition health_ok :: "route_config list \<Rightarrow> health_checks \<Rightarrow> bool" where
  "health_ok routes h \<longleftrightarrow> hc_ok routes h \<and> \<not> hk_pumping h \<and> hc_live h"

lemma health_ok_failed:
  "hc_refs h \<Longrightarrow> hc_frame routes h \<Longrightarrow> \<not> hk_stopped h \<Longrightarrow> \<not> hk_pumping h \<Longrightarrow>
   health_ok routes (HealthChecks_failed h)"
  using failed_hc_ok [of h routes] by (simp add: health_ok_def hc_live_def)

lemma arm_timer_threw:
  "snd (arm_timer fault h) \<Longrightarrow> fst (arm_timer fault h) = h \<or> fst (arm_timer fault h) = timer_cancel h"
  by (cases "ProbeSchedule_next_due (hk_schedule h)"; cases fault) (simp_all add: arm_timer_def)

lemma pump_ok:
  assumes ok: "hc_ok routes h" and idle: "\<not> hk_pumping h" and p: "pump B inputs fault h = Some h'"
  shows "health_ok routes h'"
proof (cases "hk_stopped h")
  case True
  then show ?thesis
    using assms by (simp add: pump_def health_ok_def hc_live_def)
next
  case False
  obtain h1 threw where loop: "pump_loop B inputs (h\<lparr>hk_pumping := True\<rparr>) = Some (h1, threw)"
    using p False idle by (auto simp: pump_def split: option.splits)
  have h1: "hc_refs h1" "hc_frame routes h1" "\<not> hk_stopped h1" "\<not> threw \<Longrightarrow> hc_ok routes h1"
    using pump_loop_ok [OF _ _ loop, of routes] ok False by (simp_all add: hc_kept_def)
  have fail: "health_ok routes ((HealthChecks_failed h2)\<lparr>hk_pumping := False\<rparr>)"
    if "hc_refs h2" "hc_frame routes h2" "\<not> hk_stopped h2" for h2
    using failed_hc_ok [OF that] by (simp add: health_ok_def hc_live_def)
  show ?thesis
  proof (cases "threw \<or> snd (arm_timer fault h1)")
    case True
    let ?h2 = "if threw then h1 else fst (arm_timer fault h1)"
    have h': "h' = (HealthChecks_failed ?h2)\<lparr>hk_pumping := False\<rparr>"
      using p loop False idle True by (auto simp: pump_def split: prod.splits)
    have "hc_refs x \<and> hc_frame routes x \<and> \<not> hk_stopped x" if "x = h1 \<or> x = timer_cancel h1" for x
      using that h1(1-3) by auto
    moreover have "?h2 = h1 \<or> ?h2 = timer_cancel h1"
      using True arm_timer_threw [of fault h1] by (cases threw) simp_all
    ultimately show ?thesis
      unfolding h' by (intro fail) blast+
  next
    case no: False
    have h': "h' = (fst (arm_timer fault h1))\<lparr>hk_pumping := False\<rparr>"
      using p loop False idle no by (auto simp: pump_def split: prod.splits)
    show ?thesis
    proof (cases "ProbeSchedule_next_due (hk_schedule h1)")
      case None
      have "hc_live h1"
        using hc_live_next_due_None [OF _ None, of routes] h1(4) no by simp
      then show ?thesis
        using h1(4) no None by (simp add: h' arm_timer_def health_ok_def hc_live_def)
    next
      case (Some due)
      then show ?thesis
        using h1(4) no by (auto simp: h' arm_timer_def health_ok_def hc_live_def split: if_splits)
    qed
  qed
qed

section \<open>Steps and runs\<close>

lemma schedule_new_slots:
  assumes "ProbeSchedule_new intervals now = Inr s" and "x \<in> set (sc_slots s)"
  shows "100 \<le> sint (pr_interval x) \<and> sint (pr_interval x) \<le> 60000 \<and> \<not> pr_in_flight x \<and>
    \<not> sc_stopped s \<and> pr_due x = now"
proof -
  obtain i where i: "i < length (sc_slots s)" "x = sc_slots s ! i"
    using assms(2) by (auto simp: in_set_conv_nth)
  obtain slots where slots: "map_result (\<lambda>interval.
        if sint interval < 100 \<or> 60000 < sint interval
        then Inl (Invalid_argument ''probe interval must be positive'')
        else Inr \<lparr>pr_interval = interval, pr_due = now, pr_in_flight = False\<rparr>) intervals = Inr slots"
    and s: "s = \<lparr>sc_slots = slots, sc_cursor = 0, sc_active = 0, sc_stopped = False\<rparr>"
    using assms(1) by (auto simp: ProbeSchedule_new_def elim: bind_result_InrE)
  have "(if sint (intervals ! i) < 100 \<or> 60000 < sint (intervals ! i)
        then Inl (Invalid_argument ''probe interval must be positive'')
        else Inr \<lparr>pr_interval = intervals ! i, pr_due = now, pr_in_flight = False\<rparr>) = Inr x"
    using map_result_nth [OF slots, of i] map_result_length [OF slots] i by (simp add: s)
  then have "100 \<le> sint (intervals ! i)" "sint (intervals ! i) \<le> 60000"
    "x = \<lparr>pr_interval = intervals ! i, pr_due = now, pr_in_flight = False\<rparr>"
    by (auto split: if_splits)
  then show ?thesis
    by (simp add: s)
qed

lemma probe_handler_base:
  assumes ok: "health_ok routes h" and k: "k < length (hk_store h)"
    and e: "Probe_event N e (hk_store h ! k) = (p, out)" and out: "out = Some (success, reason)"
  defines "r \<equiv> completed_base (h\<lparr>hk_store := (hk_store h)[k := p]\<rparr>) (pb_slot p) success reason"
  shows "snd r" "hc_ok routes (fst r)" "\<not> hk_pumping (fst r)" "hk_targets (fst r) = hk_targets h"
proof -
  let ?p0 = "hk_store h ! k" and ?h = "h\<lparr>hk_store := (hk_store h)[k := p]\<rparr>"
  have h: "hc_refs h" "hc_sync h" "hc_frame routes h" "\<not> hk_pumping h"
    using ok by (simp_all add: health_ok_def hc_ok_def)
  have "probe_ok ?p0"
    using h(3) k by (simp add: hc_frame_def list_all_length)
  note p = probe_event_ok [OF this, of N e, unfolded e fst_conv snd_conv]
  have frame: "hc_frame routes ?h"
    using h(3) p(1) by (simp add: hc_frame_def list_all_update)
  have fresh: "\<not> pb_done ?p0" "pb_done p"
    using p(3,4) out by auto
  have slot: "pb_slot ?p0 < length (hk_probes h)" "hk_probes h ! pb_slot ?p0 = Some k"
    using hc_refsD(2) [OF h(1) k fresh(1)] by simp_all
  then have live: "\<not> hk_stopped h"
    using h(2) by (auto simp: hc_sync_def)
  have slot_p: "pb_slot p = pb_slot (hk_store h ! k)"
    by (rule p(2))
  obtain health marked where
    "completed_base ?h (pb_slot p) success reason =
      (?h\<lparr>hk_schedule := hk_schedule ?h\<lparr>sc_slots := (sc_slots (hk_schedule ?h))[pb_slot p :=
         (sc_slots (hk_schedule ?h) ! pb_slot p)\<lparr>pr_in_flight := False\<rparr>],
         sc_active := sc_active (hk_schedule ?h) - 1\<rparr>,
       hk_probes := (hk_probes ?h)[pb_slot p := None], hk_health := health,
       hk_marked := marked\<rparr>, True)"
    and "hc_ok routes (fst (completed_base ?h (pb_slot p) success reason))"
    by (rule completed_base_ok [OF h(1,2) frame refl live k fresh slot_p]) (rule that)
  then show "snd r" "hc_ok routes (fst r)" "\<not> hk_pumping (fst r)" "hk_targets (fst r) = hk_targets h"
    using h(4) by (simp_all add: r_def)
qed

lemma probe_handler_ok:
  assumes ok: "health_ok routes h" and k: "k < length (hk_store h)"
    and e: "Probe_event N e (hk_store h ! k) = (p, out)"
  shows "out = None \<Longrightarrow> health_ok routes (h\<lparr>hk_store := (hk_store h)[k := p]\<rparr>)"
    "out = Some (success, reason) \<Longrightarrow>
      completed B inputs fault (h\<lparr>hk_store := (hk_store h)[k := p]\<rparr>) (pb_slot p) success reason =
        Some h' \<Longrightarrow> health_ok routes h'"
proof -
  let ?p0 = "hk_store h ! k" and ?h = "h\<lparr>hk_store := (hk_store h)[k := p]\<rparr>"
  have h: "hc_refs h" "hc_sync h" "hc_frame routes h" "\<not> hk_pumping h" "hc_live h"
    using ok by (simp_all add: health_ok_def hc_ok_def)
  have "probe_ok ?p0"
    using h(3) k by (simp add: hc_frame_def list_all_length)
  note p = probe_event_ok [OF this, of N e, unfolded e fst_conv snd_conv]
  have frame: "hc_frame routes ?h"
    using h(3) p(1) by (simp add: hc_frame_def list_all_update)
  {
    assume "out = None"
    then have same: "pb_done p = pb_done ?p0" "pb_slot p = pb_slot ?p0"
      using p by blast+
    have nth: "pb_done ((hk_store h)[k := p] ! m) = pb_done (hk_store h ! m)"
      "pb_slot ((hk_store h)[k := p] ! m) = pb_slot (hk_store h ! m)" for m
      using same k by (cases "m = k"; simp)+
    have "hc_refs ?h"
      using h(1) by (auto simp: hc_refs_def nth)
    moreover have "hc_live ?h"
    proof -
      have "(\<exists>q \<in> set ((hk_store h)[k := p]). \<not> pb_done q) \<longleftrightarrow> (\<exists>q \<in> set (hk_store h). \<not> pb_done q)"
        by (simp add: Bex_def in_set_conv_nth) (metis nth(1))
      then show ?thesis
        using h(5) by (simp add: hc_live_def)
    qed
    ultimately show "health_ok routes ?h"
      using h(2,4) frame by (simp add: health_ok_def hc_ok_def hc_sync_def)
  }
  {
    assume out: "out = Some (success, reason)"
      and run: "completed B inputs fault ?h (pb_slot p) success reason = Some h'"
    show "health_ok routes h'"
      using run pump_ok probe_handler_base [OF ok k e out]
      by (auto simp: completed_def split: prod.splits bool.splits)
  }
qed

lemma on_timer_ok:
  assumes "hc_ok routes h" "\<not> hk_pumping h" "error = Some Operation_aborted \<Longrightarrow> hc_live h"
    and "on_timer B inputs fault error h = Some h'"
  shows "health_ok routes h'"
proof (cases "hk_stopped h")
  case True
  then show ?thesis
    using assms by (auto simp: on_timer_def HealthChecks_failed_def pump_def health_ok_def hc_live_def
        split: if_splits)
next
  case False
  then show ?thesis
    using assms pump_ok [OF assms(1,2)] health_ok_failed [of h routes]
    by (auto simp: on_timer_def health_ok_def hc_ok_def split: if_splits)
qed

lemma health_step_ok:
  assumes ok: "health_ok routes h" and step: "health_step N B inputs fault e h = Some h'"
  shows "health_ok routes h'"
proof (cases e)
  case Start_checks
  have "health_ok routes (h\<lparr>hk_started := True, hk_posted := True\<rparr>)" if "hk_targets h \<noteq> []"
  proof -
    have "hc_sync (h\<lparr>hk_started := True, hk_posted := True\<rparr>)"
      "hc_frame routes (h\<lparr>hk_started := True, hk_posted := True\<rparr>)"
      using ok that by (simp_all add: health_ok_def hc_ok_def hc_sync_def hc_frame_def)
    then show ?thesis
      using ok by (simp add: health_ok_def hc_ok_def hc_live_def)
  qed
  then show ?thesis
    using assms Start_checks by (simp add: HealthChecks_start_def split: if_splits)
next
  case Stop_checks
  then show ?thesis
    using assms stop_hc_ok [of h routes]
    by (cases "hk_stopped h") (auto simp: health_ok_def hc_ok_def hc_live_def HealthChecks_stop_def [of h])
next
  case Posted_pump
  then show ?thesis
    using assms pump_ok [of routes "h\<lparr>hk_posted := False\<rparr>"]
    by (auto simp: health_ok_def split: if_splits)
next
  case (Timer_fired error)
  then show ?thesis
    using assms on_timer_ok [of routes "h\<lparr>hk_armed := False\<rparr>" error]
    by (auto simp: health_ok_def split: if_splits)
next
  case (Stale_timer error)
  then show ?thesis
    using assms on_timer_ok [of routes "h\<lparr>hk_stale := hk_stale h - 1\<rparr>" error]
    by (auto simp: health_ok_def hc_live_def split: if_splits)
next
  case (Probe_handler k pe)
  then show ?thesis
    using step ok probe_handler_ok [OF ok, of k N pe]
    by (auto simp: Let_def split: if_splits prod.splits option.splits)
qed

lemma health_run_ok:
  "health_ok routes h \<Longrightarrow> health_run N B es h = Some h' \<Longrightarrow> health_ok routes h'"
proof (induction es arbitrary: h)
  case (Cons e es)
  obtain inputs fault ev where "e = (inputs, fault, ev)"
    by (cases e)
  then obtain h1 where "health_step N B inputs fault ev h = Some h1" "health_run N B es h1 = Some h'"
    using Cons.prems(2) by (auto split: option.splits)
  then show ?case
    using Cons.IH health_step_ok [OF Cons.prems(1)] by blast
qed simp

lemma health_new_ok:
  assumes "HealthChecks_new config (Some (UpstreamHealthState_new (cfg_routes config))) True now = Inr h"
  shows "health_ok (cfg_routes config) h"
proof -
  obtain s where s: "ProbeSchedule_new (map (\<lambda>t. ucast (hc_interval_ms (pt_health t)))
        (targets_from 0 (cfg_routes config))) now = Inr s"
    and h: "hk_schedule h = s" "hk_targets h = targets_from 0 (cfg_routes config)"
      "hk_probes h = replicate (length (targets_from 0 (cfg_routes config))) None"
      "hk_store h = []" "hk_health h = UpstreamHealthState_new (cfg_routes config)"
      "\<not> hk_started h" "\<not> hk_stopped h" "\<not> hk_pumping h" "hk_failure_calls h = 0"
    using assms by (auto simp: HealthChecks_new_def Let_def elim!: bind_result_InrE)
  have slots: "interval_ok x \<and> \<not> pr_in_flight x \<and> \<not> sc_stopped s" if "x \<in> set (sc_slots s)" for x
    using schedule_new_slots [OF s that] by (simp add: interval_ok_def)
  have "\<not> sc_stopped s"
    using s by (auto simp: ProbeSchedule_new_def elim!: bind_result_InrE)
  then show ?thesis
    using schedule_new_ok [OF s] slots health_shape_new
    by (auto simp: health_ok_def hc_ok_def hc_refs_def hc_sync_def hc_frame_def hc_live_def h
        list_all_iff in_set_conv_nth)
qed

section \<open>The pump ends\<close>

lemma sint_in_range:
  "- (2 ^ 63) \<le> k \<Longrightarrow> k < 2 ^ 63 \<Longrightarrow> signed_take_bit 63 k = (k :: int)"
  by (rule signed_take_bit_int_eq_self) simp_all

lemma deadline_after_later:
  fixes i now :: "64 word"
  assumes "100 \<le> sint i" "sint i \<le> 60000" "lo \<le> sint now" "hi < lo + 100000000"
    and "hi < 9223372036854775807"
  shows "hi < sint (deadline_after now (i * 1000000))"
proof -
  have d: "sint (i * 1000000) = sint i * 1000000"
    using assms(1,2) by (simp add: sint_word_ariths sint_in_range)
  have diff: "sint (time_max - i * 1000000) = 9223372036854775807 - sint i * 1000000"
    using assms(1,2) d by (simp add: time_max_def sint_word_ariths(2) sint_in_range)
  show ?thesis
  proof (cases "sint (time_max - i * 1000000) < sint now")
    case True
    then show ?thesis
      using assms(5) by (simp add: deadline_after_def time_max_def)
  next
    case False
    have "- (2 ^ 63) \<le> sint now"
      using sint_greater_eq [of now] by simp
    then have "sint (now + i * 1000000) = sint now + sint i * 1000000"
      using False diff d assms(1,2) by (simp add: sint_word_ariths(1) sint_in_range)
    then show ?thesis
      using False assms by (simp add: deadline_after_def)
  qed
qed

definition due_by :: "int \<Rightarrow> probe_schedule \<Rightarrow> nat" where
  "due_by hi s = length (filter (\<lambda>t. sint t \<le> hi) (map pr_due (sc_slots s)))"

lemma take_due_due_by:
  assumes "schedule_ok s" "list_all interval_ok (sc_slots s)"
    and "ProbeSchedule_take_due s now = (s', Some i)"
    and "lo \<le> sint now" "sint now \<le> hi" "hi < lo + 100000000" "hi < 9223372036854775807"
  shows "Suc (due_by hi s') = due_by hi s"
proof -
  note t = take_due_Some [OF assms(1,3)]
  let ?x = "sc_slots s ! i"
  have "hi < sint (deadline_after now (pr_interval ?x * 1000000))"
    using assms t(1) by (intro deadline_after_later) (auto simp: list_all_length interval_ok_def)
  moreover have "sint (pr_due ?x) \<le> hi"
    using t(2) assms(5) by (simp add: slot_due_def)
  ultimately show ?thesis
    using t(1) count_update [of i "map pr_due (sc_slots s)" "\<lambda>t. sint t \<le> hi"
        "deadline_after now (pr_interval ?x * 1000000)"]
    by (simp add: t(5) due_by_def map_update)
qed

text \<open>
  Clock readings \<open>within\<close> a window shorter than the smallest probe interval: a slot that was taken
  is not due again during the loop, so the loop takes every slot at most once.
\<close>

definition within :: "int \<Rightarrow> int \<Rightarrow> pump_input list \<Rightarrow> bool" where
  "within lo hi xs \<longleftrightarrow>
     hi < lo + 100000000 \<and> hi < 9223372036854775807 \<and>
     list_all (\<lambda>x. lo \<le> sint (in_now x) \<and> sint (in_now x) \<le> hi) xs"

lemma pump_loop_total:
  "hc_ok routes h \<Longrightarrow> \<not> hk_stopped h \<Longrightarrow> within lo hi xs \<Longrightarrow>
   due_by hi (hk_schedule h) < length xs \<Longrightarrow> pump_loop B xs h \<noteq> None"
proof (induction xs arbitrary: h)
  case (Cons x xs)
  obtain s r where take: "ProbeSchedule_take_due (hk_schedule h) (in_now x) = (s, r)"
    by (cases "ProbeSchedule_take_due (hk_schedule h) (in_now x)")
  show ?case
  proof (cases r)
    case (Some slot)
    show ?thesis
    proof (cases "start_probe B (in_fault x) slot (h\<lparr>hk_schedule := s\<rparr>)")
      case (Inr h1)
      have h1: "hc_ok routes h1" "hc_kept h h1"
        "map pr_due (sc_slots (hk_schedule h1)) = map pr_due (sc_slots s)"
        using start_probe_ok [OF Cons.prems(1,2) take [unfolded Some] Inr] by simp_all
      have "Suc (due_by hi s) = due_by hi (hk_schedule h)"
        using Cons.prems take_due_due_by [OF _ _ take [unfolded Some], of lo hi]
        by (simp add: hc_ok_def hc_frame_def within_def)
      then have "pump_loop B xs h1 \<noteq> None"
        using Cons.IH [OF h1(1)] Cons.prems h1(2,3)
        by (simp add: hc_kept_def within_def due_by_def)
      then show ?thesis
        using take Some Inr by simp
    qed (use take Some in simp)
  qed (use take in simp)
qed simp

lemma due_by_le: "due_by hi s \<le> length (sc_slots s)"
  by (simp add: due_by_def le_trans [OF length_filter_le])

lemma pump_total:
  assumes "hc_ok routes h" "within lo hi inputs" "length (hk_targets h) < length inputs"
  shows "pump B inputs fault h \<noteq> None"
proof (cases "hk_stopped h \<or> hk_pumping h")
  case False
  have "due_by hi (hk_schedule h) < length inputs"
    using due_by_le [of hi "hk_schedule h"] assms(1,3) by (simp add: hc_ok_def hc_frame_def)
  then have "pump_loop B inputs (h\<lparr>hk_pumping := True\<rparr>) \<noteq> None"
    using pump_loop_total [of routes "h\<lparr>hk_pumping := True\<rparr>" lo hi inputs B] assms False by simp
  then show ?thesis
    using False by (auto simp: pump_def split: prod.split)
qed (simp add: pump_def)

lemma health_step_total:
  assumes ok: "health_ok routes h" and w: "within lo hi inputs"
    and len: "length (hk_targets h) < length inputs"
  shows "health_step N B inputs fault e h \<noteq> None"
proof (cases e)
  case Posted_pump
  then show ?thesis
    using pump_total [of routes "h\<lparr>hk_posted := False\<rparr>"] assms by (simp add: health_ok_def)
next
  case (Timer_fired error)
  then show ?thesis
    using pump_total [of routes "h\<lparr>hk_armed := False\<rparr>"] assms
    by (simp add: health_ok_def on_timer_def)
next
  case (Stale_timer error)
  then show ?thesis
    using pump_total [of routes "h\<lparr>hk_stale := hk_stale h - 1\<rparr>"] assms
    by (simp add: health_ok_def on_timer_def)
next
  case (Probe_handler k pe)
  obtain p out where e: "Probe_event N pe (hk_store h ! k) = (p, out)"
    by (cases "Probe_event N pe (hk_store h ! k)")
  show ?thesis
  proof (cases "k < length (hk_store h) \<and> out \<noteq> None")
    case True
    then obtain success reason where out: "out = Some (success, reason)"
      by auto
    let ?h = "h\<lparr>hk_store := (hk_store h)[k := p]\<rparr>"
    show ?thesis
      using probe_handler_base [OF ok _ e out] True Probe_handler e out w len
        pump_total [of routes "fst (completed_base ?h (pb_slot p) success reason)" lo hi inputs B fault]
      by (auto simp: completed_def Let_def split: prod.splits bool.splits)
  next
    case False
    then show ?thesis
      using Probe_handler e by (cases out) (auto simp: Let_def)
  qed
qed simp_all

section \<open>Theorems\<close>

lemma live_slots_in_flight:
  assumes "hc_ok routes h" "\<not> hk_stopped h"
  shows "set (map pb_slot (filter (\<lambda>p. \<not> pb_done p) (hk_store h))) \<subseteq>
    {i. i < length (sc_slots (hk_schedule h)) \<and> pr_in_flight (sc_slots (hk_schedule h) ! i)}"
proof -
  have "pb_slot (hk_store h ! k) < length (hk_probes h) \<and>
      pr_in_flight (sc_slots (hk_schedule h) ! pb_slot (hk_store h ! k))"
    if "k < length (hk_store h)" "\<not> pb_done (hk_store h ! k)" for k
    using assms hc_refsD(2) [of h k] that by (auto simp: hc_ok_def hc_sync_def)
  moreover have "length (hk_probes h) = length (sc_slots (hk_schedule h))"
    using assms(1) by (simp add: hc_ok_def hc_refs_def hc_frame_def)
  ultimately show ?thesis
    by (auto simp: in_set_conv_nth)
qed

lemma filter_nth: "filter P xs = map ((!) xs) (filter (\<lambda>k. P (xs ! k)) [0..<length xs])"
proof -
  have "filter P xs = filter P (map ((!) xs) [0..<length xs])"
    by (simp only: map_nth)
  also have "\<dots> = map ((!) xs) (filter (\<lambda>k. P (xs ! k)) [0..<length xs])"
    by (simp only: filter_map o_def)
  finally show ?thesis .
qed

lemma live_slots_distinct:
  assumes "hc_refs h"
  shows "distinct (map pb_slot (filter (\<lambda>p. \<not> pb_done p) (hk_store h)))"
proof -
  have inj: "inj_on (\<lambda>k. pb_slot (hk_store h ! k))
      (set (filter (\<lambda>k. \<not> pb_done (hk_store h ! k)) [0..<length (hk_store h)]))"
  proof (rule inj_onI)
    fix k m
    assume "k \<in> set (filter (\<lambda>k. \<not> pb_done (hk_store h ! k)) [0..<length (hk_store h)])"
      "m \<in> set (filter (\<lambda>k. \<not> pb_done (hk_store h ! k)) [0..<length (hk_store h)])"
      and same: "pb_slot (hk_store h ! k) = pb_slot (hk_store h ! m)"
    then have "k < length (hk_store h)" "\<not> pb_done (hk_store h ! k)"
      "m < length (hk_store h)" "\<not> pb_done (hk_store h ! m)"
      by simp_all
    then show "k = m"
      using hc_refsD(2) [OF assms] same by (metis option.inject)
  qed
  have eq: "map pb_slot (filter (\<lambda>p. \<not> pb_done p) (hk_store h)) =
      map (\<lambda>k. pb_slot (hk_store h ! k))
        (filter (\<lambda>k. \<not> pb_done (hk_store h ! k)) [0..<length (hk_store h)])"
    by (subst filter_nth) (simp only: map_map o_def)
  show ?thesis
    unfolding eq distinct_map by (rule conjI [OF _ inj]) (rule distinct_filter [OF distinct_upt])
qed

lemma card_in_flight:
  "card {i. i < length xs \<and> P (xs ! i)} = length (filter P xs)"
  by (simp add: length_filter_conv_card)

text \<open>
  C39. Probes are exclusive and bounded. After any sequence of starts, stops, timer completions and
  probe handlers, with any exceptions thrown on the way, at most four probes are running, no two of
  them probe the same slot, none is running once the checker is stopped, a finished probe has
  closed its socket, and the failure callback was called at most once.
\<close>

theorem health_probes_exclusive:
  assumes "HealthChecks_new config (Some (UpstreamHealthState_new (cfg_routes config))) True now = Inr h0"
    and "health_run N B es h0 = Some h"
  shows "length (filter (\<lambda>p. \<not> pb_done p) (hk_store h)) \<le> 4 \<and>
    distinct (map pb_slot (filter (\<lambda>p. \<not> pb_done p) (hk_store h))) \<and>
    (hk_stopped h \<longrightarrow> list_all pb_done (hk_store h)) \<and>
    list_all (\<lambda>p. pb_done p \<longrightarrow> \<not> pb_open p) (hk_store h) \<and> hk_failure_calls h \<le> 1"
proof -
  have ok: "hc_ok (cfg_routes config) h"
    using health_run_ok [OF health_new_ok [OF assms(1)] assms(2)] by (simp add: health_ok_def)
  then have refs: "hc_refs h" and sync: "hc_sync h" and frame: "hc_frame (cfg_routes config) h"
    by (simp_all add: hc_ok_def)
  have stopped: "pb_done p" if "hk_stopped h" "p \<in> set (hk_store h)" for p
    using that refs sync hc_refsD(2) [OF refs] unfolding hc_sync_def in_set_conv_nth
    by (metis option.distinct(1))
  have "length (filter (\<lambda>p. \<not> pb_done p) (hk_store h)) \<le> 4"
  proof (cases "hk_stopped h")
    case True
    then show ?thesis using stopped by (simp add: filter_empty_conv [THEN iffD2])
  next
    case False
    have "length (filter (\<lambda>p. \<not> pb_done p) (hk_store h)) =
        card (set (map pb_slot (filter (\<lambda>p. \<not> pb_done p) (hk_store h))))"
      using distinct_card [OF live_slots_distinct [OF refs]] by simp
    also have "\<dots> \<le> in_flight_count (hk_schedule h)"
      unfolding in_flight_count_def card_in_flight [symmetric]
      by (rule card_mono [OF _ live_slots_in_flight [OF ok False]]) simp
    also have "\<dots> \<le> 4"
      using frame by (simp add: hc_frame_def schedule_ok_def)
    finally show ?thesis .
  qed
  moreover have "hk_failure_calls h \<le> 1"
    using frame by (auto simp: hc_frame_def split: if_splits)
  ultimately show ?thesis
    using live_slots_distinct [OF refs] stopped frame
    by (auto simp: list_all_iff hc_frame_def probe_ok_def)
qed

text \<open>
  C40. The checker never stalls. In every state that a run reaches, a started checker that is not
  stopped has its first \<open>pump\<close> posted, its timer armed, or a running probe with a deadline that will
  end it and a completion that goes on. And every step returns, whatever throws: the loop of
  \<open>pump\<close> ends when the clock advances by less than the smallest probe interval during it.
\<close>

theorem health_checks_never_stall:
  assumes "HealthChecks_new config (Some (UpstreamHealthState_new (cfg_routes config))) True now = Inr h0"
    and "health_run N B es h0 = Some h"
  shows "(hk_started h \<and> \<not> hk_stopped h \<longrightarrow>
      hk_posted h \<or> hk_armed h \<or>
      (\<exists>p \<in> set (hk_store h). \<not> pb_done p \<and> pb_deadline p \<and> pb_completion p)) \<and>
    (within lo hi inputs \<and> length (hk_targets h) < length inputs \<longrightarrow>
      (\<exists>h'. health_step N B inputs fault e h = Some h'))"
proof -
  have ok: "health_ok (cfg_routes config) h"
    using health_run_ok [OF health_new_ok [OF assms(1)] assms(2)] .
  have "pb_deadline p \<and> pb_completion p" if "p \<in> set (hk_store h)" "\<not> pb_done p" for p
    using ok that by (auto simp: health_ok_def hc_ok_def hc_frame_def list_all_iff probe_ok_def)
  then show ?thesis
    using ok health_step_total [OF ok] unfolding health_ok_def hc_live_def by blast
qed

text \<open>
  A concrete checker: one health-checked route, started and pumped. Its first probe resolves,
  connects and is refused by the peer; the timer is armed for the next one.
\<close>

definition checked_config :: app_config where
  "checked_config =
     AppConfig_default\<lparr>cfg_routes := [(sample_route ''/'')\<lparr>route_health_check :=
       Some \<lparr>hc_path = ''/h'', hc_interval_ms = 100, hc_timeout_ms = 50,
              hc_unhealthy_threshold = 2, hc_healthy_threshold = 1\<rparr>\<rparr>]\<rparr>"

definition sample_inputs :: "time_point \<Rightarrow> pump_input list" where
  "sample_inputs t = [\<lparr>in_now = t, in_fault = Probe_ok\<rparr>, \<lparr>in_now = t, in_fault = Probe_ok\<rparr>]"

definition sample_health_events :: "health_input list" where
  "sample_health_events =
     [([], Timer_ok, Start_checks), (sample_inputs 1, Timer_ok, Posted_pump),
      ([], Timer_ok, Probe_handler 0 (On_resolve None False)),
      (sample_inputs 2, Timer_ok, Probe_handler 0 (On_connect (Some (Other_error 111)) False))]"

definition sample_checker :: "health_checks result" where
  "sample_checker = HealthChecks_new checked_config
     (Some (UpstreamHealthState_new (cfg_routes checked_config))) True 0"

lemma sample_health_run:
  "case sample_checker of Inl e \<Rightarrow> False | Inr h0 \<Rightarrow>
     (case health_run sample_net sample_beast sample_health_events h0 of None \<Rightarrow> False
      | Some h \<Rightarrow> map pb_done (hk_store h) = [True] \<and> hk_started h \<and> \<not> hk_stopped h \<and> hk_armed h \<and>
          hs_failures (hr_slots (hk_health h ! 0) ! 0) = 1 \<and> length (hk_targets h) = 1)"
  by (simp add: sample_checker_def HealthChecks_new_def checked_config_def ProbeSchedule_new_def
      HealthChecks_start_def sample_route_def sample_health_events_def sample_inputs_def
      pump_def ProbeSchedule_take_due_def max_in_flight_def slot_due_def start_probe_def
      Probe_new_def Let_def Probe_start_def Probe_guarded_def begins_def arm_timer_def
      timer_cancel_def completes_def Probe_on_resolve_def Probe_connected_def ends_def
      Probe_finish_def Probe_close_def completed_def completed_base_def
      ProbeSchedule_complete_def vec_at_def UpstreamHealthState_record_def
      UpstreamHealthState_new_def record_slot_def record_failure_def Slot_default_def
      ProbeSchedule_next_due_def deadline_after_def time_max_def)

theorem health_probes_exclusive_witness:
  "\<exists>h0 h. sample_checker = Inr h0 \<and>
     health_run sample_net sample_beast sample_health_events h0 = Some h \<and>
     length (filter (\<lambda>p. \<not> pb_done p) (hk_store h)) \<le> 4 \<and> length (hk_store h) = 1"
proof -
  obtain h0 h where h: "sample_checker = Inr h0"
    "health_run sample_net sample_beast sample_health_events h0 = Some h"
    "map pb_done (hk_store h) = [True]"
    using sample_health_run by (auto split: sum.splits option.splits)
  have "length (hk_store h) = 1"
    using arg_cong [OF h(3), of length] by simp
  then show ?thesis
    using health_probes_exclusive [OF h(1) [unfolded sample_checker_def] h(2)] h(1,2) by blast
qed

theorem health_checks_never_stall_witness:
  "\<exists>h0 h h'. sample_checker = Inr h0 \<and>
     health_run sample_net sample_beast sample_health_events h0 = Some h \<and>
     (hk_posted h \<or> hk_armed h \<or>
      (\<exists>p \<in> set (hk_store h). \<not> pb_done p \<and> pb_deadline p \<and> pb_completion p)) \<and>
     health_step sample_net sample_beast (sample_inputs 3) Timer_ok (Timer_fired None) h = Some h'"
proof -
  obtain h0 h where h: "sample_checker = Inr h0"
    "health_run sample_net sample_beast sample_health_events h0 = Some h"
    "hk_started h" "\<not> hk_stopped h" "length (hk_targets h) = 1"
    using sample_health_run by (auto split: sum.splits option.splits)
  have "within 3 3 (sample_inputs 3)" "length (hk_targets h) < length (sample_inputs 3)"
    by (simp_all add: within_def sample_inputs_def h(5))
  then show ?thesis
    using health_checks_never_stall [OF h(1) [unfolded sample_checker_def] h(2),
        of 3 3 "sample_inputs 3" Timer_ok "Timer_fired None"] h(1-4)
    by blast
qed

end
