(* ===== verification/Server.thy ===== *)
theory Server
  imports Session HealthChecks UpstreamPool
begin

text \<open>
  The server, \<open>HttpServer::Impl\<close> of \<open>src/http_server.cpp\<close>: it accepts connections, owns the
  sessions and drains and stops them. Sessions are the sessions of the theory of sessions, in a store,
  with the set of the open ones; the objects that sessions share are fields of the server, lent to a
  session while it runs. The health checker is the one of the theory of health checks. Functions
  that run the loop of \<open>stop_all_sessions\<close> return \<open>None\<close> when that loop does not end; the lemmas
  show that it always does. They also show that connections stay within the limit, that the server
  always waits for the next connection while it runs, that a drain is always under a timer, and that
  each of the two callbacks is called at most once.
\<close>

section \<open>State\<close>

text \<open>
  \<open>sv_store\<close> holds every session that was accepted, \<open>sv_sessions\<close> is the set \<open>sessions_\<close> as the
  list of its elements in their order. \<open>sv_accepting\<close>, \<open>sv_retry_wait\<close> and \<open>sv_drain_wait\<close> say
  which operations are outstanding. \<open>sv_drain_calls\<close> and \<open>sv_failure_calls\<close> count the calls of the
  two callbacks, \<open>sv_stop_calls\<close> the calls of \<open>HttpServer::stop\<close>.
\<close>

record 'd server =
  sv_config :: app_config
  sv_open :: bool
  sv_capacity :: accept_capacity_state
  sv_drain :: drain_state
  sv_admission :: route_proxy_admission
  sv_budget :: budget_control
  sv_metrics :: "'d metrics option"
  sv_pool :: "upstream_pool option"
  sv_health :: health_checks
  sv_failure :: runtime_failure_state
  sv_store :: "'d session list"
  sv_sessions :: "nat list"
  sv_bound_port :: u16
  sv_started :: bool
  sv_listener_stop_logged :: bool
  sv_drain_completion_enabled :: bool
  sv_drain_callback_claimed :: bool
  sv_drain_forced :: bool
  sv_accepting :: bool
  sv_retry_wait :: bool
  sv_drain_wait :: bool
  sv_drain_calls :: nat
  sv_failure_calls :: nat
  sv_stop_calls :: nat

text \<open>The calls that may throw.\<close>

datatype server_fault =
    Fault_address | Fault_bind | Fault_log | Fault_accept | Fault_retry_expiry | Fault_retry_wait
  | Fault_session | Fault_snapshot | Fault_drain_timer | Fault_drain_callback

text \<open>\<open>vi_position\<close> is where a new session falls in the order of the set, which is by address.\<close>

record server_input =
  vi_session :: session_input
  vi_faults :: "server_fault list"
  vi_position :: nat
  vi_port :: u16

definition faulty :: "server_input \<Rightarrow> server_fault \<Rightarrow> bool" where
  "faulty x f \<longleftrightarrow> f \<in> set (vi_faults x)"

type_synonym 'd continue = "'d server \<Rightarrow> 'd server option"

definition HttpServer_new ::
  "'d double_ops \<Rightarrow> app_config \<Rightarrow> bool \<Rightarrow> bool \<Rightarrow> time_point \<Rightarrow> time_point \<Rightarrow> 'd server result" where
  "HttpServer_new D config on_runtime_failure on_drain_complete now now' =
     bind_result (RouteProxyAdmission_new (cfg_routes config)
         (Some (ProxyAdmissionState_new (ucast (cfg_max_concurrent_proxies config)))) now) (\<lambda>admission.
       if \<not> on_runtime_failure
       then Inl (Invalid_argument ''runtime failure callback must not be empty'')
       else if \<not> on_drain_complete
       then Inl (Invalid_argument ''drain completion callback must not be empty'')
       else bind_result (HealthChecks_new config (Some (adm_health admission)) True now') (\<lambda>health.
         Inr \<lparr>sv_config = config, sv_open = False,
           sv_capacity = AcceptCapacityState_new (ucast (cfg_max_connections config)),
           sv_drain = DrainState_new, sv_admission = admission,
           sv_budget = BufferBudgetState_new (cfg_max_in_flight_bytes config),
           sv_metrics = (if cfg_metrics_enabled config then Some (Metrics_new D) else None),
           sv_pool = (if cfg_upstream_keep_alive config then Some UpstreamPool_new else None),
           sv_health = health, sv_failure = RuntimeFailureState_new, sv_store = [],
           sv_sessions = [], sv_bound_port = 0, sv_started = False,
           sv_listener_stop_logged = False, sv_drain_completion_enabled = False,
           sv_drain_callback_claimed = False, sv_drain_forced = False, sv_accepting = False,
           sv_retry_wait = False, sv_drain_wait = False, sv_drain_calls = 0,
           sv_failure_calls = 0, sv_stop_calls = 0\<rparr>))"

section \<open>Accepting and the end of sessions\<close>

text \<open>A throwing call makes the flag true.\<close>

definition drive_accept :: "server_input \<Rightarrow> 'd server \<Rightarrow> bool \<times> 'd server" where
  "drive_accept x s =
     (if drain_phase (sv_drain s) \<noteq> Running then (False, s)
      else case AcceptCapacityState_next_action (sv_capacity s) of (capacity, action) \<Rightarrow>
        let s = s\<lparr>sv_capacity := capacity\<rparr> in
        if action = Action_none \<or> action = Pause then (False, s)
        else if faulty x Fault_accept then (True, s)
        else (False, s\<lparr>sv_accepting := True\<rparr>))"

text \<open>
  In the functions below \<open>fail\<close> is \<open>fail_runtime\<close>, which they call and which calls them; it is
  tied up further down.
\<close>

definition finish_drain :: "'d continue \<Rightarrow> server_input \<Rightarrow> 'd continue" where
  "finish_drain fail x s =
     (if sv_drain_callback_claimed s \<or> \<not> sv_drain_completion_enabled s then Some s
      else let s = s\<lparr>sv_drain_callback_claimed := True, sv_drain_calls := sv_drain_calls s + 1\<rparr> in
        if faulty x Fault_drain_callback then fail s else Some s)"

definition remove_session :: "'d continue \<Rightarrow> server_input \<Rightarrow> nat \<Rightarrow> 'd continue" where
  "remove_session fail x i s =
     (if i \<notin> set (sv_sessions s) then Some s
      else case DrainState_session_finished (sv_drain s) of (drain, drain_completed) \<Rightarrow>
        let s = s\<lparr>sv_sessions := remove1 i (sv_sessions s),
              sv_capacity := AcceptCapacityState_session_finished (sv_capacity s),
              sv_drain := drain\<rparr> in
        if drain_completed then
          if sv_drain_completion_enabled s then finish_drain fail x s else Some s
        else case drive_accept x s of (threw, s) \<Rightarrow> if threw then fail s else Some s)"

text \<open>
  Calling a session: it is lent the shared objects and gives them back. When it closes, it calls
  \<open>remove_session\<close>, as its last action. A session only reads the health state.
\<close>

definition lend :: "'d server \<Rightarrow> nat \<Rightarrow> 'd session" where
  "lend s i = (sv_store s ! i)\<lparr>ss_admission := sv_admission s, ss_budget := sv_budget s,
     ss_metrics := sv_metrics s, ss_connections := Some (sv_capacity s)\<rparr>"

definition give_back :: "nat \<Rightarrow> 'd session \<Rightarrow> 'd server \<Rightarrow> 'd server" where
  "give_back i t s = s\<lparr>sv_store := (sv_store s)[i := t],
     sv_admission := (ss_admission t)\<lparr>adm_health := adm_health (sv_admission s)\<rparr>,
     sv_budget := ss_budget t, sv_metrics := ss_metrics t\<rparr>"

definition closed_by :: "'d continue \<Rightarrow> server_input \<Rightarrow> nat \<Rightarrow> 'd session \<Rightarrow> 'd continue" where
  "closed_by fail x i t s =
     (if ss_closes (sv_store s ! i) < ss_closes t then remove_session fail x i (give_back i t s)
      else Some (give_back i t s))"

definition call_session ::
  "'d continue \<Rightarrow> server_input \<Rightarrow> nat \<Rightarrow> ('d session \<Rightarrow> 'd session) \<Rightarrow> 'd continue" where
  "call_session fail x i f s = closed_by fail x i (f (lend s i)) s"

section \<open>Stopping\<close>

definition stop_accepting :: "'d server \<Rightarrow> 'd server" where
  "stop_accepting s =
     s\<lparr>sv_pool := map_option UpstreamPool_stop (sv_pool s),
       sv_health := HealthChecks_stop (sv_health s),
       sv_capacity := AcceptCapacityState_stop (sv_capacity s), sv_open := False,
       sv_listener_stop_logged := (sv_listener_stop_logged s \<or> sv_started s)\<rparr>"

partial_function (option) stop_all_sessions :: "'d continue \<Rightarrow> server_input \<Rightarrow> 'd continue" where
  [code]: "stop_all_sessions fail x s =
     (case sv_sessions s of
        [] \<Rightarrow> Some s
      | i # rest \<Rightarrow> Option.bind (call_session fail x i session_stop s) (stop_all_sessions fail x))"

definition server_stop :: "'d continue \<Rightarrow> server_input \<Rightarrow> 'd continue" where
  "server_stop fail x s =
     (let s = s\<lparr>sv_drain_completion_enabled := False\<rparr> in
      case DrainState_begin_force_stop (sv_drain s) of (drain, result) \<Rightarrow>
        if result = Drain_unchanged then Some s
        else stop_all_sessions fail x (stop_accepting (s\<lparr>sv_drain := drain\<rparr>)))"

definition fail_runtime_with :: "'d continue \<Rightarrow> server_input \<Rightarrow> 'd continue" where
  "fail_runtime_with fail x s =
     (case RuntimeFailureState_claim (sv_failure s) of
        (False, failure) \<Rightarrow> Some s
      | (True, failure) \<Rightarrow>
          map_option (\<lambda>s. s\<lparr>sv_failure_calls := sv_failure_calls s + 1\<rparr>)
            (server_stop fail x (s\<lparr>sv_failure := failure\<rparr>)))"

text \<open>
  A call of \<open>fail_runtime\<close> from inside \<open>fail_runtime\<close> finds the failure claimed and returns; the
  recursion is two calls deep.
\<close>

definition fail_runtime :: "server_input \<Rightarrow> 'd continue" where
  "fail_runtime x = fail_runtime_with (fail_runtime_with Some x) x"

definition HttpServer_stop :: "server_input \<Rightarrow> 'd continue" where
  "HttpServer_stop x s =
     server_stop (fail_runtime x) x (s\<lparr>sv_stop_calls := sv_stop_calls s + 1\<rparr>)"

definition caught :: "server_input \<Rightarrow> (bool \<times> 'd server) option \<Rightarrow> 'd server option" where
  "caught x r = Option.bind r (\<lambda>(threw, s). if threw then fail_runtime x s else Some s)"

text \<open>What \<open>force_stop_drain\<close> and \<open>force_stop_after_timeout\<close> share.\<close>

definition force_stop :: "server_input \<Rightarrow> 'd continue" where
  "force_stop x s =
     (case DrainState_begin_force_stop (sv_drain s) of (drain, result) \<Rightarrow>
        if result = Drain_unchanged then Some s
        else Option.bind
          (stop_all_sessions (fail_runtime x) x
             (stop_accepting (s\<lparr>sv_drain := drain, sv_drain_forced := True\<rparr>)))
          (\<lambda>s. if result = Drain_completed then finish_drain (fail_runtime x) x s else Some s))"

definition force_stop_drain :: "server_input \<Rightarrow> 'd continue" where
  "force_stop_drain x s =
     (if drain_phase (sv_drain s) \<noteq> Draining then Some s else force_stop x s)"

definition force_stop_after_timeout :: "server_input \<Rightarrow> 'd continue" where
  "force_stop_after_timeout x s = force_stop x s"

section \<open>Draining\<close>

fun drain_sessions :: "server_input \<Rightarrow> nat list \<Rightarrow> 'd continue" where
  "drain_sessions x [] s = Some s"
| "drain_sessions x (i # rest) s =
     Option.bind (call_session (fail_runtime x) x i session_begin_drain s) (drain_sessions x rest)"

definition begin_drain_impl :: "server_input \<Rightarrow> 'd server \<Rightarrow> (bool \<times> 'd server) option" where
  "begin_drain_impl x s =
     (case DrainState_begin_drain (sv_drain s) of (drain, result) \<Rightarrow>
        if result = Drain_unchanged then Some (False, s)
        else
          let s = stop_accepting (s\<lparr>sv_drain_completion_enabled := True, sv_drain := drain\<rparr>) in
          if result = Drain_completed
          then map_option (Pair False) (finish_drain (fail_runtime x) x s)
          else if faulty x Fault_snapshot then Some (True, s)
          else Option.bind (drain_sessions x (sv_sessions s) s) (\<lambda>s.
            if drain_phase (sv_drain s) \<noteq> Draining then Some (False, s)
            else if faulty x Fault_drain_timer then Some (True, s)
            else Some (False, s\<lparr>sv_drain_wait := True\<rparr>)))"

definition server_begin_drain :: "server_input \<Rightarrow> 'd continue" where
  "server_begin_drain x s = caught x (begin_drain_impl x s)"

definition on_drain_timer :: "server_input \<Rightarrow> error_code \<Rightarrow> 'd continue" where
  "on_drain_timer x error s =
     (case classify_drain_timer_completion error (drain_phase (sv_drain s)) of
        Timer_ignored \<Rightarrow> Some s
      | Timer_timed_out \<Rightarrow> force_stop_after_timeout x s
      | Timer_fatal \<Rightarrow> fail_runtime x s)"

section \<open>Starting and accepting\<close>

definition server_start :: "server_input \<Rightarrow> 'd server \<Rightarrow> bool \<times> 'd server" where
  "server_start x s =
     (if sv_started s then (False, s)
      else if faulty x Fault_address then (True, s)
      else let s = s\<lparr>sv_open := True\<rparr> in
        if faulty x Fault_bind then (True, s)
        else let s = s\<lparr>sv_bound_port := vi_port x, sv_started := True\<rparr> in
          if faulty x Fault_log then (True, s)
          else case drive_accept x s of
            (True, s) \<Rightarrow> (True, s)
          | (False, s) \<Rightarrow> (False, s\<lparr>sv_health := HealthChecks_start (sv_health s)\<rparr>))"

definition insert_at :: "nat \<Rightarrow> 'a \<Rightarrow> 'a list \<Rightarrow> 'a list" where
  "insert_at k y ys = take k ys @ y # drop k ys"

definition accept_session :: "server_input \<Rightarrow> 'd server \<Rightarrow> (bool \<times> 'd server) option" where
  "accept_session x s =
     (case HttpSession_new (sv_config s) True (Some (sv_admission s)) (Some (sv_budget s))
          (sv_metrics s) (Some (sv_capacity s)) True (cfg_downstream_tls_context (sv_config s) \<noteq> None) of
        Inl _ \<Rightarrow> Some (True, s)
      | Inr t \<Rightarrow>
          if faulty x Fault_session then Some (True, s)
          else
            let i = length (sv_store s);
                s = s\<lparr>sv_store := sv_store s @ [t], sv_sessions := insert_at (vi_position x) i (sv_sessions s),
                  sv_capacity := AcceptCapacityState_session_started (sv_capacity s),
                  sv_drain := DrainState_session_started (sv_drain s)\<rparr> in
            case session_start (vi_session x) (lend s i) of (threw, t) \<Rightarrow>
              Option.bind (closed_by (fail_runtime x) x i t s) (\<lambda>s.
                if threw then Some (True, s) else Some (drive_accept x s)))"

definition on_accept_body :: "server_input \<Rightarrow> error_code \<Rightarrow> 'd server \<Rightarrow> (bool \<times> 'd server) option"
  where
  "on_accept_body x error s =
     (let s = s\<lparr>sv_capacity := AcceptCapacityState_accept_completed (sv_capacity s)\<rparr> in
      if drain_phase (sv_drain s) \<noteq> Running then Some (False, s)
      else if error \<noteq> None then
        if faulty x Fault_log \<or> faulty x Fault_retry_expiry then Some (True, s)
        else let s = s\<lparr>sv_capacity := AcceptCapacityState_retry_scheduled (sv_capacity s)\<rparr> in
          if faulty x Fault_retry_wait then Some (True, s)
          else Some (False, s\<lparr>sv_retry_wait := True\<rparr>)
      else accept_session x s)"

definition on_accept :: "server_input \<Rightarrow> error_code \<Rightarrow> 'd continue" where
  "on_accept x error s = caught x (on_accept_body x error s)"

definition on_accept_retry_timer :: "server_input \<Rightarrow> error_code \<Rightarrow> 'd continue" where
  "on_accept_retry_timer x error s =
     (let s = s\<lparr>sv_capacity := AcceptCapacityState_retry_completed (sv_capacity s)\<rparr> in
      case classify_accept_retry_completion error (drain_phase (sv_drain s) \<noteq> Running) of
        Retry_retry \<Rightarrow> caught x (Some (drive_accept x s))
      | Retry_stopped \<Rightarrow> Some s
      | Retry_fatal \<Rightarrow> fail_runtime x s)"

section \<open>Steps\<close>

text \<open>
  The events of a server: completions of its operations, events of a session other than the calls
  that the server makes, events of the health checker, and the calls of the application.
\<close>

datatype 'd server_event =
    Sv_accepted error_code
  | Sv_retry_timer error_code
  | Sv_drain_timer error_code
  | Sv_session nat "'d session_event"
  | Sv_health "pump_input list" timer_fault health_event
  | Sv_begin_drain
  | Sv_force_stop
  | Sv_stop

fun server_call :: "'d session_event \<Rightarrow> bool" where
  "server_call Se_begin_drain = True"
| "server_call Se_stop = True"
| "server_call (Se_shared admission budget metrics connections) = True"
| "server_call e = False"

definition health_event_step ::
  "net_lib \<Rightarrow> 'd libs \<Rightarrow> server_input \<Rightarrow> pump_input list \<Rightarrow> timer_fault \<Rightarrow> health_event \<Rightarrow> 'd continue"
  where
  "health_event_step N L x inputs fault e s =
     (if e = Start_checks \<or> e = Stop_checks then Some s
      else case health_step N (lib_beast L) inputs fault e (sv_health s) of
        None \<Rightarrow> None
      | Some h \<Rightarrow>
          let calls = hk_failure_calls (sv_health s);
              s = s\<lparr>sv_health := h, sv_admission := (sv_admission s)\<lparr>adm_health := hk_health h\<rparr>\<rparr> in
          if calls < hk_failure_calls h then fail_runtime x s else Some s)"

fun server_step ::
  "net_lib \<Rightarrow> 'd libs \<Rightarrow> server_input \<times> 'd server_event \<Rightarrow> 'd continue" where
  "server_step N L (x, Sv_accepted error) s =
     (if sv_accepting s then on_accept x error (s\<lparr>sv_accepting := False\<rparr>) else Some s)"
| "server_step N L (x, Sv_retry_timer error) s =
     (if sv_retry_wait s then on_accept_retry_timer x error (s\<lparr>sv_retry_wait := False\<rparr>) else Some s)"
| "server_step N L (x, Sv_drain_timer error) s =
     (if sv_drain_wait s then on_drain_timer x error (s\<lparr>sv_drain_wait := False\<rparr>) else Some s)"
| "server_step N L (x, Sv_session i e) s =
     (if i < length (sv_store s) \<and> \<not> server_call e
      then call_session (fail_runtime x) x i (\<lambda>t. session_step L t (vi_session x, e)) s else Some s)"
| "server_step N L (x, Sv_health inputs fault e) s = health_event_step N L x inputs fault e s"
| "server_step N L (x, Sv_begin_drain) s = server_begin_drain x s"
| "server_step N L (x, Sv_force_stop) s = force_stop_drain x s"
| "server_step N L (x, Sv_stop) s = HttpServer_stop x s"

definition server_run ::
  "net_lib \<Rightarrow> 'd libs \<Rightarrow> (server_input \<times> 'd server_event) list \<Rightarrow> 'd continue" where
  "server_run N L = run_option (server_step N L)"

section \<open>Sessions and counters\<close>

abbreviation phase :: "'d server \<Rightarrow> server_drain_phase" where
  "phase s \<equiv> drain_phase (sv_drain s)"

text \<open>
  The parameter \<open>c\<close> of the invariant is what a call does not change: the configuration, the number of
  calls of \<open>HttpServer::stop\<close>, whether shutting down has begun, whether no drain has begun, and
  whether shutting down is over.
\<close>

record server_frame =
  fr_config :: app_config
  fr_stops :: nat
  fr_down :: bool
  fr_undrained :: bool
  fr_over :: bool

text \<open>The set holds the sessions that are open, and the counters count them.\<close>

definition owned :: "server_frame \<Rightarrow> 'd server \<Rightarrow> bool" where
  "owned c s \<longleftrightarrow>
     sv_config s = fr_config c \<and> sv_stop_calls s = fr_stops c \<and> max_connections (sv_capacity s) = ucast (cfg_max_connections (fr_config c)) \<and>
     distinct (sv_sessions s) \<and> (\<forall>i \<in> set (sv_sessions s). i < length (sv_store s)) \<and>
     (\<forall>i < length (sv_store s). sane (sv_store s ! i) \<and>
        (ss_finished (sv_store s ! i) \<longleftrightarrow> i \<notin> set (sv_sessions s))) \<and>
     unat (active_connections (sv_capacity s)) = length (sv_sessions s) \<and>
     unat (active_sessions (sv_drain s)) = length (sv_sessions s) \<and>
     length (sv_sessions s) \<le> unat (cfg_max_connections (fr_config c))"

lemma unat_ucast_u16 [simp]: "unat (ucast (w :: u16) :: usize) = unat w"
proof -
  have "unat w < 2 ^ LENGTH(16)"
    by (rule unat_lt2p_word)
  then show ?thesis
    by (simp add: unsigned_ucast_eq take_bit_nat_eq_self_iff)
qed

lemma owned_frame [simp]:
  "owned c (s\<lparr>sv_failure := v1\<rparr>) = owned c s"
  "owned c (s\<lparr>sv_failure_calls := v2\<rparr>) = owned c s"
  "owned c (s\<lparr>sv_drain_callback_claimed := v3\<rparr>) = owned c s"
  "owned c (s\<lparr>sv_drain_calls := v4\<rparr>) = owned c s"
  "owned c (s\<lparr>sv_drain_completion_enabled := v5\<rparr>) = owned c s"
  "owned c (s\<lparr>sv_drain_forced := v6\<rparr>) = owned c s"
  "owned c (s\<lparr>sv_accepting := v7\<rparr>) = owned c s"
  "owned c (s\<lparr>sv_retry_wait := v8\<rparr>) = owned c s"
  "owned c (s\<lparr>sv_drain_wait := v9\<rparr>) = owned c s"
  "owned c (s\<lparr>sv_health := v10\<rparr>) = owned c s"
  "owned c (s\<lparr>sv_admission := v11\<rparr>) = owned c s"
  by (simp_all add: owned_def)

text \<open>
  \<open>settled\<close> holds between calls. The number \<open>k\<close> is one inside \<open>fail_runtime\<close>, when the failure is
  claimed and its callback not yet called.
\<close>

definition settled :: "server_frame \<Rightarrow> nat \<Rightarrow> 'd server \<Rightarrow> bool" where
  "settled c k s \<longleftrightarrow>
     owned c s \<and> health_ok (cfg_routes (fr_config c)) (sv_health s) \<and>
     sv_drain_calls s = of_bool (sv_drain_callback_claimed s) \<and>
     (phase s \<noteq> Completed \<longrightarrow> \<not> sv_drain_callback_claimed s) \<and>
     sv_failure_calls s + k = of_bool (rf_claimed (sv_failure s)) \<and>
     (phase s \<noteq> Completed \<and> k = 0 \<longrightarrow> \<not> rf_claimed (sv_failure s)) \<and>
     (phase s \<noteq> Running \<longrightarrow> accept_stopped (sv_capacity s) \<and> hk_stopped (sv_health s)) \<and>
     (phase s = Draining \<or> phase s = Force_stopping \<longrightarrow> sv_sessions s \<noteq> []) \<and>
     (phase s = Completed \<longrightarrow> sv_sessions s = []) \<and>
     (phase s = Draining \<longrightarrow> sv_drain_completion_enabled s) \<and>
     (phase s \<noteq> Running \<and> \<not> sv_drain_completion_enabled s \<longrightarrow>
        rf_claimed (sv_failure s) \<or> sv_stop_calls s \<noteq> 0) \<and>
     (fr_down c \<longrightarrow> phase s \<noteq> Running) \<and> (fr_undrained c \<longrightarrow> \<not> sv_drain_completion_enabled s) \<and>
     (fr_over c \<longrightarrow> phase s = Completed)"

definition basic :: "server_frame \<Rightarrow> nat \<Rightarrow> 'd server \<Rightarrow> bool" where
  "basic c k s \<longleftrightarrow>
     settled c k s \<and>
     (phase s = Completed \<and> sv_drain_completion_enabled s \<longrightarrow> sv_drain_callback_claimed s)"

lemma basicD: "basic c k s \<Longrightarrow> settled c k s \<and> owned c s"
  unfolding basic_def settled_def by blast

lemma settled_completed:
  "settled c k s \<Longrightarrow> sv_sessions s = [] \<Longrightarrow> phase s = Force_stopping \<or> phase s = Completed \<Longrightarrow> phase s = Completed"
  "settled c k s \<Longrightarrow> phase s = Completed \<Longrightarrow> sv_sessions s = []"
  unfolding settled_def by blast+

text \<open>A running server waits for a connection, for its retry timer, or for a session to close.\<close>

definition serving :: "'d server \<Rightarrow> bool" where
  "serving s \<longleftrightarrow>
     \<not> accept_stopped (sv_capacity s) \<and> accept_pending (sv_capacity s) = sv_accepting s \<and>
     retry_pending (sv_capacity s) = sv_retry_wait s \<and>
     (sv_accepting s \<longrightarrow> length (sv_sessions s) < unat (max_connections (sv_capacity s)))"

definition sessions_ok :: "'d server \<Rightarrow> bool" where
  "sessions_ok s \<longleftrightarrow> (\<forall>i < length (sv_store s). session_inv (sv_store s ! i))"

definition server_inv :: "server_frame \<Rightarrow> 'd server \<Rightarrow> bool" where
  "server_inv c s \<longleftrightarrow>
     basic c 0 s \<and> phase s \<noteq> Force_stopping \<and> sessions_ok s \<and>
     (phase s = Running \<longrightarrow> serving s \<and>
        (sv_accepting s \<or> sv_retry_wait s \<or>
         length (sv_sessions s) = unat (max_connections (sv_capacity s)))) \<and>
     (phase s = Draining \<longrightarrow> sv_drain_wait s)"

text \<open>What is needed of \<open>fail_runtime\<close>.\<close>

definition fails_well :: "server_frame \<Rightarrow> 'd continue \<Rightarrow> bool" where
  "fails_well c fail \<longleftrightarrow>
     (\<forall>s. basic c 0 s \<and> phase s \<noteq> Force_stopping \<longrightarrow>
        (\<exists>s'. fail s = Some s' \<and> server_inv c s' \<and> phase s' = Completed \<and>
           (phase s = Completed \<longrightarrow> sv_store s' = sv_store s)))"

lemma fails_wellD:
  assumes "fails_well c fail" "basic c 0 s" "phase s \<noteq> Force_stopping"
  obtains s' where "fail s = Some s'" "server_inv c s'" "phase s' = Completed"
    "phase s = Completed \<Longrightarrow> sv_store s' = sv_store s"
  using assms unfolding fails_well_def by blast

lemma completed_inv:
  assumes "basic c 0 s" "phase s = Completed"
  shows "server_inv c s"
proof -
  have "owned c s" "sv_sessions s = []"
    using assms by (simp_all add: basic_def settled_def)
  then have "sessions_ok s"
    by (simp add: owned_def sessions_ok_def session_inv_closed)
  then show ?thesis
    using assms by (simp add: server_inv_def)
qed

lemma finish_drain_inv:
  assumes s: "settled c 0 s" "phase s = Completed" and f: "fails_well c fail"
  obtains s' where "finish_drain fail x s = Some s'" "server_inv c s'" "phase s' = Completed"
    "sv_store s' = sv_store s"
proof (cases "sv_drain_callback_claimed s \<or> \<not> sv_drain_completion_enabled s")
  case True
  then show ?thesis
    using that [of s] s by (auto simp: finish_drain_def basic_def completed_inv)
next
  case False
  let ?s = "s\<lparr>sv_drain_callback_claimed := True, sv_drain_calls := sv_drain_calls s + 1\<rparr>"
  have b: "basic c 0 ?s" "phase ?s = Completed"
    using s False by (simp_all add: basic_def settled_def)
  show ?thesis
  proof (cases "faulty x Fault_drain_callback")
    case True
    obtain s' where "fail ?s = Some s'" "server_inv c s'" "phase s' = Completed" "sv_store s' = sv_store s"
      using fails_wellD [OF f b(1)] b(2) by auto
    then show ?thesis
      using that False True by (simp add: finish_drain_def)
  next
    case no_throw: False
    then show ?thesis
      using that [of ?s] b completed_inv [OF b] False by (simp add: finish_drain_def)
  qed
qed

lemma next_action_cases:
  assumes "AcceptCapacityState_next_action a = (a', action)" and "\<not> accept_stopped a"
  shows "max_connections a' = max_connections a \<and> active_connections a' = active_connections a \<and>
    \<not> accept_stopped a' \<and> retry_pending a' = retry_pending a"
    "action = Action_none \<or> action = Pause \<Longrightarrow> accept_pending a' = accept_pending a \<and>
      (accept_pending a \<or> retry_pending a \<or> unat (max_connections a) \<le> unat (active_connections a))"
    "\<not> (action = Action_none \<or> action = Pause) \<Longrightarrow> accept_pending a' \<and> \<not> accept_pending a \<and>
      unat (active_connections a) < unat (max_connections a)"
  using assms
  by (auto simp: AcceptCapacityState_next_action_def Let_def word_le_nat_alt split: if_splits)

lemma drive_accept_inv:
  assumes s: "basic c 0 s" "phase s = Running" "serving s" and ok: "sessions_ok s"
    and d: "drive_accept x s = (threw, s')"
  shows "basic c 0 s'" "phase s' = Running" "\<not> threw \<Longrightarrow> server_inv c s'"
proof -
  obtain a action where n: "AcceptCapacityState_next_action (sv_capacity s) = (a, action)"
    by (cases "AcceptCapacityState_next_action (sv_capacity s)")
  have live: "\<not> accept_stopped (sv_capacity s)"
    using s(3) by (simp add: serving_def)
  note na = next_action_cases [OF n live]
  have own: "owned c s"
    using s(1) by (simp add: basic_def settled_def)
  let ?s = "s\<lparr>sv_capacity := a\<rparr>"
  have b: "basic c 0 (?s\<lparr>sv_accepting := b\<rparr>)" "basic c 0 ?s" for b
    using s(1,2) na(1) by (auto simp: basic_def settled_def owned_def)
  have "length (sv_sessions s) \<le> unat (max_connections (sv_capacity s))"
    "unat (active_connections (sv_capacity s)) = length (sv_sessions s)"
    using own by (auto simp: owned_def)
  then show "basic c 0 s'" "phase s' = Running" "\<not> threw \<Longrightarrow> server_inv c s'"
    using d s(2,3) n na b ok
    by (auto simp: drive_accept_def Let_def server_inv_def serving_def sessions_ok_def split: if_splits)
qed

text \<open>The state after a session has been taken out of the set.\<close>

definition erased :: "nat \<Rightarrow> 'd session \<Rightarrow> 'd server \<Rightarrow> 'd server" where
  "erased i t s = (give_back i t s)\<lparr>sv_sessions := remove1 i (sv_sessions s),
     sv_capacity := AcceptCapacityState_session_finished (sv_capacity s),
     sv_drain := fst (DrainState_session_finished (sv_drain s))\<rparr>"

lemma unat_pred:
  assumes "unat (w :: usize) = n" "n \<noteq> 0"
  shows "w \<noteq> 0 \<and> unat (w - 1) = n - 1"
proof -
  have "w \<noteq> 0"
    using assms by auto
  then show ?thesis
    using unat_minus_one [of w] assms(1) by simp
qed

lemma session_finished_cases:
  assumes "unat (active_sessions d) = n" "n \<noteq> 0"
  shows "unat (active_sessions (fst (DrainState_session_finished d))) = n - 1"
    "snd (DrainState_session_finished d) \<longleftrightarrow>
       n = 1 \<and> (drain_phase d = Draining \<or> drain_phase d = Force_stopping)"
    "drain_phase (fst (DrainState_session_finished d)) =
       (if snd (DrainState_session_finished d) then Completed else drain_phase d)"
  using unat_pred [OF assms] assms
  by (auto simp: DrainState_session_finished_def Let_def unat_eq_0)

lemma owned_session:
  assumes "owned c s" "i < length (sv_store s)"
  shows "sane (sv_store s ! i)" "ss_finished (sv_store s ! i) \<longleftrightarrow> i \<notin> set (sv_sessions s)"
  using assms by (simp_all add: owned_def)

lemma erased_owned:
  assumes own: "owned c s" and i: "i \<in> set (sv_sessions s)" and t: "sane t" "ss_finished t"
  shows "owned c (erased i t s)" "length (sv_sessions (erased i t s)) = length (sv_sessions s) - 1"
proof -
  have len: "length (remove1 i (sv_sessions s)) = length (sv_sessions s) - 1"
    using i by (simp add: length_remove1)
  have pos: "length (sv_sessions s) \<noteq> 0"
    using i by auto
  have n: "unat (active_connections (sv_capacity s)) = length (sv_sessions s)"
    "unat (active_sessions (sv_drain s)) = length (sv_sessions s)"
    "distinct (sv_sessions s)"
    using own by (simp_all add: owned_def)
  have c: "AcceptCapacityState_session_finished (sv_capacity s) =
      (sv_capacity s)\<lparr>active_connections := active_connections (sv_capacity s) - 1\<rparr>"
    using unat_pred [OF n(1) pos] by (simp add: AcceptCapacityState_session_finished_def word_neq_0_conv)
  show "owned c (erased i t s)"
    using own len t n c unat_pred [OF n(1) pos] session_finished_cases(1) [OF n(2) pos]
    by (auto simp: owned_def erased_def give_back_def nth_update_if set_remove1_eq)
  show "length (sv_sessions (erased i t s)) = length (sv_sessions s) - 1"
    by (simp add: erased_def len)
qed

lemma erased_settled:
  assumes s: "settled c k s" and i: "i \<in> set (sv_sessions s)" and t: "sane t" "ss_finished t"
  shows "settled c k (erased i t s)"
    "phase (erased i t s) = (if snd (DrainState_session_finished (sv_drain s)) then Completed else phase s)"
    "snd (DrainState_session_finished (sv_drain s)) \<longleftrightarrow>
       sv_sessions (erased i t s) = [] \<and> (phase s = Draining \<or> phase s = Force_stopping)"
proof -
  have own: "owned c s"
    using s by (simp add: settled_def)
  have n: "unat (active_sessions (sv_drain s)) = length (sv_sessions s)" "length (sv_sessions s) \<noteq> 0"
    using own i by (auto simp: owned_def)
  note fin = session_finished_cases [OF n] and e = erased_owned [OF own i t]
  show p: "phase (erased i t s) = (if snd (DrainState_session_finished (sv_drain s)) then Completed else phase s)"
    using fin(3) by (simp add: erased_def)
  have "sv_sessions (erased i t s) = [] \<longleftrightarrow> length (sv_sessions s) = 1"
    unfolding length_0_conv [symmetric] using e(2) n(2) by arith
  then show q: "snd (DrainState_session_finished (sv_drain s)) \<longleftrightarrow>
       sv_sessions (erased i t s) = [] \<and> (phase s = Draining \<or> phase s = Force_stopping)"
    using fin(2) by auto
  have rest: "sv_health (erased i t s) = sv_health s" "sv_drain_calls (erased i t s) = sv_drain_calls s"
    "sv_drain_callback_claimed (erased i t s) = sv_drain_callback_claimed s"
    "sv_failure_calls (erased i t s) = sv_failure_calls s" "sv_failure (erased i t s) = sv_failure s"
    "sv_stop_calls (erased i t s) = sv_stop_calls s"
    "sv_drain_completion_enabled (erased i t s) = sv_drain_completion_enabled s"
    "accept_stopped (sv_capacity (erased i t s)) = accept_stopped (sv_capacity s)"
    by (simp_all add: erased_def give_back_def AcceptCapacityState_session_finished_def)
  show "settled c k (erased i t s)"
    using s e(1) q n(2) unfolding settled_def rest p by (auto split: if_splits)
qed

section \<open>Calling a session\<close>

lemma closes_iff:
  assumes "sane t" "sane u"
  shows "ss_closes u < ss_closes t \<longleftrightarrow> ss_finished t \<and> \<not> ss_finished u"
  using assms by (auto simp: sane_def)

lemma give_back_owned:
  assumes "owned c s" "sane t" "ss_finished t \<longleftrightarrow> ss_finished (sv_store s ! i)"
  shows "owned c (give_back i t s)"
  using assms by (auto simp: owned_def give_back_def nth_update_if)

lemma give_back_fields [simp]:
  "sv_sessions (give_back i t s) = sv_sessions s" "sv_drain (give_back i t s) = sv_drain s"
  "sv_capacity (give_back i t s) = sv_capacity s" "sv_accepting (give_back i t s) = sv_accepting s"
  "sv_retry_wait (give_back i t s) = sv_retry_wait s" "sv_drain_wait (give_back i t s) = sv_drain_wait s"
  "sv_drain_completion_enabled (give_back i t s) = sv_drain_completion_enabled s"
  "length (sv_store (give_back i t s)) = length (sv_store s)"
  "sv_health (give_back i t s) = sv_health s" "sv_drain_calls (give_back i t s) = sv_drain_calls s"
  "sv_drain_callback_claimed (give_back i t s) = sv_drain_callback_claimed s"
  "sv_failure_calls (give_back i t s) = sv_failure_calls s" "sv_failure (give_back i t s) = sv_failure s"
  "sv_stop_calls (give_back i t s) = sv_stop_calls s"
  by (simp_all add: give_back_def)

lemma give_back_basic:
  assumes "basic c k s" and "owned c (give_back i t s)"
  shows "basic c k (give_back i t s)"
  using assms unfolding basic_def settled_def give_back_fields by blast

lemma give_back_sessions:
  assumes "sessions_ok s" "session_inv t"
  shows "sessions_ok (give_back i t s)" "sessions_ok (erased i t s)"
  using assms by (auto simp: sessions_ok_def give_back_def erased_def nth_update_if)

lemma give_back_inv:
  assumes "server_inv c s" and "owned c (give_back i t s)" and "session_inv t"
  shows "server_inv c (give_back i t s)"
  using assms give_back_basic [of c 0 s i t] give_back_sessions(1) [of s t i]
  by (simp add: server_inv_def serving_def)

lemma erased_fields [simp]:
  "sv_drain_completion_enabled (erased i t s) = sv_drain_completion_enabled s"
  "sv_drain_wait (erased i t s) = sv_drain_wait s" "sv_accepting (erased i t s) = sv_accepting s"
  "sv_retry_wait (erased i t s) = sv_retry_wait s"
  "sv_drain_callback_claimed (erased i t s) = sv_drain_callback_claimed s"
  "length (sv_store (erased i t s)) = length (sv_store s)"
  by (simp_all add: erased_def give_back_def)

lemma remove_session_erased:
  assumes "i \<in> set (sv_sessions s)"
  shows "remove_session fail x i (give_back i t s) =
    (if snd (DrainState_session_finished (sv_drain s)) then
       if sv_drain_completion_enabled s then finish_drain fail x (erased i t s) else Some (erased i t s)
     else case drive_accept x (erased i t s) of (threw, s) \<Rightarrow> if threw then fail s else Some s)"
  using assms
  by (simp add: remove_session_def erased_def Let_def split: prod.split)

lemma serving_erased:
  assumes "serving s" "length (sv_sessions (erased i t s)) = length (sv_sessions s) - 1"
  shows "serving (erased i t s)"
  using assms
  by (auto simp: serving_def erased_def give_back_def AcceptCapacityState_session_finished_def)

text \<open>A session that closes, while the server is running, and while it is not.\<close>

lemma close_running:
  assumes s: "server_inv c s" "phase s = Running" and i: "i \<in> set (sv_sessions s)"
    and t: "sane t" "ss_finished t" and f: "fails_well c fail"
  obtains s' where "remove_session fail x i (give_back i t s) = Some s'" "server_inv c s'"
proof -
  have b: "settled c 0 s" "serving s"
    using s by (simp_all add: server_inv_def basic_def)
  have ok: "sessions_ok (erased i t s)"
    using s(1) session_inv_closed [OF t] by (simp add: server_inv_def give_back_sessions)
  have e: "settled c 0 (erased i t s)" "phase (erased i t s) = Running"
    "\<not> snd (DrainState_session_finished (sv_drain s))"
    using erased_settled [OF b(1) i t] s(2) by auto
  have "owned c s"
    using b(1) by (simp add: settled_def)
  then have srv: "serving (erased i t s)"
    using serving_erased [OF b(2)] erased_owned(2) i t by blast
  obtain threw u where d: "drive_accept x (erased i t s) = (threw, u)"
    by (cases "drive_accept x (erased i t s)")
  have "basic c 0 (erased i t s)"
    using e by (simp add: basic_def)
  note u = drive_accept_inv [OF this e(2) srv ok d]
  show ?thesis
  proof (cases threw)
    case True
    obtain s' where "fail u = Some s'" "server_inv c s'"
      using fails_wellD [OF f u(1)] u(2) by auto
    then show ?thesis
      using that i e(3) d True by (simp add: remove_session_erased)
  next
    case False
    then show ?thesis
      using that [of u] i e(3) d u(3) by (simp add: remove_session_erased)
  qed
qed

lemma close_stopping:
  assumes s: "basic c k s" "phase s \<noteq> Running" and i: "i \<in> set (sv_sessions s)"
    and t: "sane t" "ss_finished t"
    and f: "sv_drain_completion_enabled s \<Longrightarrow> k = 0 \<and> fails_well c fail"
  obtains s' where "remove_session fail x i (give_back i t s) = Some s'" "basic c k s'"
    "s' = erased i t s \<and> phase s' = phase s \<or> phase s' = Completed"
    "length (sv_store s') = length (sv_store s)"
proof -
  have b: "settled c k s"
    using s(1) by (simp add: basic_def)
  note e = erased_settled [OF b i t]
  have nc: "phase s \<noteq> Completed"
    using b i by (auto simp: settled_def)
  show ?thesis
  proof (cases "snd (DrainState_session_finished (sv_drain s))")
    case False
    have "drive_accept x (erased i t s) = (False, erased i t s)"
      using s(2) e(2) False by (simp add: drive_accept_def)
    then show ?thesis
      using that [of "erased i t s"] i False e(1,2) nc by (simp add: remove_session_erased basic_def)
  next
    case True
    show ?thesis
    proof (cases "sv_drain_completion_enabled s")
      case on: True
      obtain s' where "finish_drain fail x (erased i t s) = Some s'" "server_inv c s'"
        "phase s' = Completed" "sv_store s' = sv_store (erased i t s)"
        using finish_drain_inv [of c "erased i t s" fail x] e(1,2) True f [OF on] by auto
      then show ?thesis
        using that i True on f [OF on] by (simp add: remove_session_erased server_inv_def)
    next
      case off: False
      then show ?thesis
        using that [of "erased i t s"] i True e(1,2) by (simp add: remove_session_erased basic_def)
    qed
  qed
qed

lemma lend_inv:
  assumes "owned c s" "i < length (sv_store s)"
  shows "sane (lend s i)" "ss_finished (lend s i) = ss_finished (sv_store s ! i)"
  using assms by (simp_all add: owned_def lend_def)

text \<open>Any call after which the session is sane and that does not reopen it.\<close>

lemma call_session_cases:
  assumes own: "owned c s" and i: "i < length (sv_store s)"
    and f: "sane (f (lend s i))" "ss_finished (lend s i) \<longrightarrow> ss_finished (f (lend s i))"
  obtains (stays) "call_session fail x i f s = Some (give_back i (f (lend s i)) s)"
      "owned c (give_back i (f (lend s i)) s)" "ss_finished (f (lend s i)) \<longleftrightarrow> ss_finished (sv_store s ! i)"
    | (closes) "call_session fail x i f s = remove_session fail x i (give_back i (f (lend s i)) s)"
      "i \<in> set (sv_sessions s)" "ss_finished (f (lend s i))"
proof -
  let ?t = "f (lend s i)"
  have t: "ss_finished (sv_store s ! i) \<Longrightarrow> ss_finished ?t"
    using f(2) lend_inv [OF own i] by auto
  note o = owned_session [OF own i]
  show ?thesis
  proof (cases "ss_finished ?t \<and> \<not> ss_finished (sv_store s ! i)")
    case True
    then show ?thesis
      using closes o closes_iff [OF f(1) o(1)] by (simp add: call_session_def closed_by_def)
  next
    case False
    then have same: "ss_finished ?t \<longleftrightarrow> ss_finished (sv_store s ! i)"
      using t by auto
    show ?thesis
      using stays same False closes_iff [OF f(1) o(1)] give_back_owned [OF own f(1) same]
      by (simp add: call_session_def closed_by_def)
  qed
qed

section \<open>Stopping ends\<close>

text \<open>When the completion callback is disabled, \<open>fail\<close> is not called.\<close>

lemma remove_session_quiet:
  assumes "phase s \<noteq> Running" "\<not> sv_drain_completion_enabled s"
  shows "remove_session fail x i s = remove_session fail' x i s"
proof -
  have "drain_phase (fst (DrainState_session_finished (sv_drain s))) \<noteq> Running"
    using assms(1) by (simp add: DrainState_session_finished_def Let_def)
  then show ?thesis
    using assms by (auto simp: remove_session_def drive_accept_def Let_def split: prod.split)
qed

lemma stop_all_sessions_inv:
  assumes "basic c k s" "phase s = Force_stopping \<or> phase s = Completed"
    and "sv_drain_completion_enabled s \<Longrightarrow> k = 0 \<and> fails_well c fail"
  shows "\<exists>s'. (\<forall>fail'. fail' = fail \<or> \<not> sv_drain_completion_enabled s \<longrightarrow>
      stop_all_sessions fail' x s = Some s') \<and> basic c k s' \<and> phase s' = Completed"
  using assms
proof (induction "length (sv_sessions s)" arbitrary: s rule: less_induct)
  case less
  note b = less.prems(1) and p = less.prems(2) and f = less.prems(3)
  have st: "settled c k s" and own: "owned c s"
    using basicD [OF b] by blast+
  show ?case
  proof (cases "sv_sessions s")
    case Nil
    then have "phase s = Completed"
      using p st settled_completed(1) by blast
    then show ?thesis
      using Nil b by (intro exI [of _ s]) (simp add: stop_all_sessions.simps)
  next
    case (Cons i rest)
    have i: "i \<in> set (sv_sessions s)" "i < length (sv_store s)"
      using Cons own by (auto simp: owned_def)
    have t: "sane (session_stop (lend s i))" "ss_finished (session_stop (lend s i))"
      using lend_inv [OF own i(2)] session_stop_inv [of "lend s i"] by (auto simp: session_inv_def)
    have "\<not> ss_finished (sv_store s ! i)"
      using owned_session [OF own i(2)] i(1) by simp
    then have call: "call_session fail' x i session_stop s =
        remove_session fail' x i (give_back i (session_stop (lend s i)) s)" for fail'
      using call_session_cases [where f = session_stop, OF own i(2) t(1) impI [OF t(2)], of fail' x] t(2) by metis
    have run: "phase s \<noteq> Running"
      using p by auto
    from close_stopping [OF b run i(1) t f] obtain u where u: "remove_session fail x i (give_back i (session_stop (lend s i)) s) = Some u"
      "basic c k u" "u = erased i (session_stop (lend s i)) s \<and> phase u = phase s \<or> phase u = Completed"
      by metis
    have loop: "stop_all_sessions fail' x s = stop_all_sessions fail' x u"
      if "fail' = fail \<or> \<not> sv_drain_completion_enabled s" for fail'
    proof -
      have "remove_session fail' x i (give_back i (session_stop (lend s i)) s) = Some u"
        using that u(1) remove_session_quiet [of "give_back i (session_stop (lend s i)) s" fail' x i fail] run
        by auto
      then show ?thesis
        using Cons call by (simp add: stop_all_sessions.simps [of fail' x s])
    qed
    show ?thesis
    proof (cases "phase u = Completed")
      case True
      then have "sv_sessions u = []"
        using basicD [OF u(2)] settled_completed(2) by blast
      then show ?thesis
        using loop u(2) True by (intro exI [of _ u]) (simp add: stop_all_sessions.simps)
    next
      case False
      then have e: "u = erased i (session_stop (lend s i)) s" "phase u = phase s"
        using u(3) by auto
      have "length (sv_sessions u) < length (sv_sessions s)"
        using erased_owned(2) [OF own i(1) t] e(1) Cons by simp
      then show ?thesis
        using less.hyps [OF _ u(2)] e p f loop erased_fields(1) by metis
    qed
  qed
qed

lemma stop_accepting_fields [simp]:
  "sv_sessions (stop_accepting s) = sv_sessions s" "sv_drain (stop_accepting s) = sv_drain s"
  "sv_store (stop_accepting s) = sv_store s" "sv_config (stop_accepting s) = sv_config s"
  "sv_drain_calls (stop_accepting s) = sv_drain_calls s"
  "sv_drain_callback_claimed (stop_accepting s) = sv_drain_callback_claimed s"
  "sv_failure_calls (stop_accepting s) = sv_failure_calls s"
  "sv_failure (stop_accepting s) = sv_failure s" "sv_stop_calls (stop_accepting s) = sv_stop_calls s"
  "sv_drain_completion_enabled (stop_accepting s) = sv_drain_completion_enabled s"
  "sv_capacity (stop_accepting s) = AcceptCapacityState_stop (sv_capacity s)"
  "sv_health (stop_accepting s) = HealthChecks_stop (sv_health s)"
  by (simp_all add: stop_accepting_def)

lemma health_stop_ok:
  assumes "health_ok routes h"
  shows "health_ok routes (HealthChecks_stop h)" "hk_stopped (HealthChecks_stop h)"
proof -
  show "health_ok routes (HealthChecks_stop h)"
    by (rule health_step_ok [OF assms, where e = Stop_checks]) simp
  show "hk_stopped (HealthChecks_stop h)"
    by (simp add: HealthChecks_stop_def timer_cancel_def Let_def)
qed

text \<open>Leaving the running phase. The three ways differ in the phase and two flags.\<close>

lemma leave_running:
  fixes f :: bool
  assumes s: "settled c k s" "phase s \<noteq> Completed" and m: "mode = Force_stopping \<or> mode = Draining \<and> b"
    and k: "rf_claimed (sv_failure s) \<Longrightarrow> k \<noteq> 0" and b: "b \<or> rf_claimed (sv_failure s) \<or> sv_stop_calls s \<noteq> 0" "fr_undrained c \<Longrightarrow> \<not> b"
    and t: "DrainState_transition_to (sv_drain s) mode = (d, result)"
  defines "u \<equiv> stop_accepting (s\<lparr>sv_drain_completion_enabled := b, sv_drain := d, sv_drain_forced := f\<rparr>)"
  shows "settled c k u" "phase u = (if sv_sessions s = [] then Completed else mode)"
    "sv_drain_completion_enabled u = b" "\<not> sv_drain_callback_claimed u"
    "result = (if sv_sessions s = [] then Drain_completed else Drain_started)"
proof -
  have own: "owned c s"
    using s(1) by (simp add: settled_def)
  then have n: "active_sessions (sv_drain s) = 0 \<longleftrightarrow> sv_sessions s = []"
    by (auto simp: owned_def unat_eq_0)
  have d: "active_sessions d = active_sessions (sv_drain s)"
    "drain_phase d = (if sv_sessions s = [] then Completed else mode)"
    and r: "result = (if sv_sessions s = [] then Drain_completed else Drain_started)"
    using t n by (auto simp: DrainState_transition_to_def split: if_splits)
  show "result = (if sv_sessions s = [] then Drain_completed else Drain_started)"
    by (rule r)
  show p: "phase u = (if sv_sessions s = [] then Completed else mode)"
    "sv_drain_completion_enabled u = b" "\<not> sv_drain_callback_claimed u"
    using d s by (simp_all add: u_def settled_def)
  have "owned c u"
    using own d(1) by (auto simp: owned_def u_def AcceptCapacityState_stop_def)
  moreover have "health_ok (cfg_routes (fr_config c)) (sv_health u)" "hk_stopped (sv_health u)"
    "accept_stopped (sv_capacity u)"
    using s(1) health_stop_ok by (auto simp: u_def settled_def AcceptCapacityState_stop_def)
  moreover have "sv_sessions u = sv_sessions s" "sv_drain_calls u = sv_drain_calls s"
    "sv_failure u = sv_failure s" "sv_failure_calls u = sv_failure_calls s"
    "sv_drain_callback_claimed u = sv_drain_callback_claimed s" "sv_stop_calls u = sv_stop_calls s"
    by (simp_all add: u_def)
  ultimately show "settled c k u"
    using s k m b unfolding settled_def p by auto
qed

lemma server_stop_inv:
  assumes s: "basic c k s" "phase s \<noteq> Force_stopping" and k: "rf_claimed (sv_failure s) \<and> phase s \<noteq> Completed \<Longrightarrow> k \<noteq> 0"
    and why: "rf_claimed (sv_failure s) \<or> sv_stop_calls s \<noteq> 0"
  shows "\<exists>s'. (\<forall>fail. server_stop fail x s = Some s') \<and> basic c k s' \<and> phase s' = Completed \<and>
    (phase s = Completed \<longrightarrow> sv_store s' = sv_store s)"
proof (cases "phase s = Completed")
  case True
  then have "\<forall>fail. server_stop fail x s = Some (s\<lparr>sv_drain_completion_enabled := False\<rparr>)"
    by (simp add: server_stop_def DrainState_begin_force_stop_def)
  moreover have "basic c k (s\<lparr>sv_drain_completion_enabled := False\<rparr>)"
    using s(1) True why by (simp add: basic_def settled_def)
  ultimately show ?thesis
    using True by simp
next
  case False
  obtain d result where t: "DrainState_transition_to (sv_drain s) Force_stopping = (d, result)"
    by (cases "DrainState_transition_to (sv_drain s) Force_stopping")
  have st: "settled c k s"
    using s(1) by (simp add: basic_def)
  let ?u = "stop_accepting (s\<lparr>sv_drain_completion_enabled := False, sv_drain := d,
    sv_drain_forced := sv_drain_forced s\<rparr>)"
  note u = leave_running(1-4) [where b = False and f = "sv_drain_forced s", OF st False disjI1 [OF refl] _ _ _ t]
  have r: "result = (if sv_sessions s = [] then Drain_completed else Drain_started)"
    using leave_running(5) [OF st False disjI1 [OF refl] _ _ _ t] k why False by blast
  have "\<exists>s'. (\<forall>fail'. fail' = Some \<or> \<not> sv_drain_completion_enabled ?u \<longrightarrow>
      stop_all_sessions fail' x ?u = Some s') \<and> basic c k s' \<and> phase s' = Completed"
    using u k why False by (intro stop_all_sessions_inv) (auto simp: basic_def split: if_splits)
  moreover have "server_stop fail x s = stop_all_sessions fail x ?u" for fail
    using False s(2) t r
    by (simp add: server_stop_def DrainState_begin_force_stop_def split: if_splits)
  ultimately show ?thesis
    using u(3) k why False by auto
qed

lemma fail_runtime_with_inv:
  assumes s: "basic c 0 s" "phase s \<noteq> Force_stopping"
  shows "\<exists>s'. (\<forall>fail. fail_runtime_with fail x s = Some s') \<and> server_inv c s' \<and> phase s' = Completed \<and>
    (phase s = Completed \<longrightarrow> sv_store s' = sv_store s)"
proof (cases "rf_claimed (sv_failure s)")
  case True
  then have "phase s = Completed"
    using s(1) by (simp add: basic_def settled_def)
  then show ?thesis
    using True s(1) by (simp add: fail_runtime_with_def RuntimeFailureState_claim_def completed_inv)
next
  case False
  let ?s = "s\<lparr>sv_failure := (sv_failure s)\<lparr>rf_claimed := True\<rparr>\<rparr>"
  have "settled c 1 ?s"
    using s(1) False by (simp add: basic_def settled_def)
  then have "basic c 1 ?s"
    using s(1) by (simp add: basic_def)
  then obtain u where u: "\<And>fail. server_stop fail x ?s = Some u" "basic c 1 u" "phase u = Completed"
      "phase s = Completed \<longrightarrow> sv_store u = sv_store s"
    using server_stop_inv [of c 1 ?s x] s(2) by auto
  let ?u = "u\<lparr>sv_failure_calls := sv_failure_calls u + 1\<rparr>"
  have "basic c 0 ?u"
    using u(2,3) by (simp add: basic_def settled_def)
  then show ?thesis
    using False u(1,3,4) by (simp add: fail_runtime_with_def RuntimeFailureState_claim_def completed_inv)
qed

lemma fail_runtime_ok: "fails_well c (fail_runtime x)"
  unfolding fails_well_def fail_runtime_def using fail_runtime_with_inv by blast

lemma fail_runtime_inv:
  assumes "basic c 0 s" "phase s \<noteq> Force_stopping"
  shows "\<exists>s'. fail_runtime x s = Some s' \<and> server_inv c s'"
  using fails_wellD [OF fail_runtime_ok assms] by metis

text \<open>So \<open>fail_runtime\<close> is what it is in the code, a solution of its own recursion.\<close>

lemma fail_runtime_unfold:
  assumes "basic c 0 s" "phase s \<noteq> Force_stopping"
  shows "fail_runtime x s = fail_runtime_with (fail_runtime x) x s"
proof -
  obtain s' where "\<And>fail. fail_runtime_with fail x s = Some s'"
    using fail_runtime_with_inv [OF assms, of x] by auto
  then show ?thesis
    by (simp add: fail_runtime_def)
qed

section \<open>Every step keeps the invariant\<close>

lemma lend_session:
  "sessions_ok s \<Longrightarrow> i < length (sv_store s) \<Longrightarrow> session_inv (lend s i)"
  by (simp add: sessions_ok_def lend_def)

text \<open>A function on sessions that keeps their invariant and does not reopen them.\<close>

definition keeps :: "('d session \<Rightarrow> 'd session) \<Rightarrow> bool" where
  "keeps f \<longleftrightarrow> (\<forall>t. session_inv t \<longrightarrow> session_inv (f t) \<and> (ss_finished t \<longrightarrow> ss_finished (f t)))"

lemma keepsD:
  assumes "keeps f" "session_inv t"
  shows "session_inv (f t)" "sane (f t)" "ss_finished t \<longrightarrow> ss_finished (f t)"
  using assms by (auto simp: keeps_def session_inv_def)

lemma call_session_inv:
  assumes s: "server_inv c s" and i: "i < length (sv_store s)" and f: "keeps f"
  shows "\<exists>s'. call_session (fail_runtime x) x i f s = Some s' \<and> server_inv c s'"
proof -
  have b: "basic c 0 s" and own: "owned c s" and ok: "sessions_ok s"
    using s basicD [of c 0 s] by (auto simp: server_inv_def)
  note t = keepsD [OF f lend_session [OF ok i]]
  show ?thesis
  proof (cases rule: call_session_cases [where f = f, OF own i t(2,3), of "fail_runtime x" x])
    case 1
    then show ?thesis
      using give_back_inv [OF s _ t(1)] by simp
  next
    case 2
    show ?thesis
    proof (cases "phase s = Running")
      case True
      then show ?thesis
        using close_running [OF s True 2(2) t(2) 2(3) fail_runtime_ok] 2(1) by metis
    next
      case False
      obtain s' where "remove_session (fail_runtime x) x i (give_back i (f (lend s i)) s) = Some s'"
        "basic c 0 s'" "s' = erased i (f (lend s i)) s \<and> phase s' = phase s \<or> phase s' = Completed"
        using close_stopping [OF b False 2(2) t(2) 2(3)] fail_runtime_ok by metis
      moreover from this have "server_inv c s'"
        using s False completed_inv [of c s'] give_back_sessions(2) [OF ok t(1)] by (auto simp: server_inv_def)
      ultimately show ?thesis
        using 2(1) by simp
    qed
  qed
qed

lemma begin_drain_keeps: "keeps session_begin_drain"
proof -
  have "session_inv (session_begin_drain t) \<and> (ss_finished t \<longrightarrow> ss_finished (session_begin_drain t))"
    if t: "session_inv t" for t
  proof -
    have "sane (t\<lparr>ss_draining := True\<rparr>)"
      using t by (simp add: session_inv_def)
    then show ?thesis
      using t session_stop_inv [of "t\<lparr>ss_draining := True\<rparr>"]
      by (auto simp: session_begin_drain_def Let_def)
  qed
  then show ?thesis
    by (auto simp: keeps_def)
qed

lemma drain_sessions_inv:
  assumes "basic c 0 s" "sessions_ok s" "phase s = Draining \<or> phase s = Completed"
    and "\<forall>i \<in> set is. i < length (sv_store s)"
  shows "\<exists>s'. drain_sessions x is s = Some s' \<and> basic c 0 s' \<and> sessions_ok s' \<and>
    (phase s' = Draining \<or> phase s' = Completed)"
  using assms
proof (induction "is" arbitrary: s)
  case (Cons i rest)
  note b = Cons.prems(1) and ok = Cons.prems(2) and p = Cons.prems(3)
  have own: "owned c s" and i: "i < length (sv_store s)" and run: "phase s \<noteq> Running"
    using Cons.prems basicD [of c 0 s] by auto
  note t = keepsD [OF begin_drain_keeps lend_session [OF ok i]]
  have "\<exists>s'. call_session (fail_runtime x) x i session_begin_drain s = Some s' \<and> basic c 0 s' \<and>
      sessions_ok s' \<and> (phase s' = Draining \<or> phase s' = Completed) \<and>
      length (sv_store s') = length (sv_store s)"
  proof (cases rule: call_session_cases [where f = session_begin_drain, OF own i t(2,3), of "fail_runtime x" x])
    case 1
    then show ?thesis
      using give_back_basic [OF b] give_back_sessions(1) [OF ok t(1)] p by simp
  next
    case 2
    obtain s' where "remove_session (fail_runtime x) x i (give_back i (session_begin_drain (lend s i)) s) = Some s'"
      "basic c 0 s'" "s' = erased i (session_begin_drain (lend s i)) s \<and> phase s' = phase s \<or> phase s' = Completed"
      "length (sv_store s') = length (sv_store s)"
      using close_stopping [OF b run 2(2) t(2) 2(3)] fail_runtime_ok by metis
    moreover from this have "sessions_ok s'"
      using completed_inv [of c s'] give_back_sessions(2) [OF ok t(1)] by (auto simp: server_inv_def)
    ultimately show ?thesis
      using 2(1) p by auto
  qed
  then show ?case
    using Cons.IH Cons.prems(4) by fastforce
qed simp

text \<open>The result of a part of a handler: it threw, or the invariant holds.\<close>

definition well :: "server_frame \<Rightarrow> (bool \<times> 'd server) option \<Rightarrow> bool" where
  "well c r \<longleftrightarrow>
     (\<exists>threw s. r = Some (threw, s) \<and>
        (if threw then basic c 0 s \<and> phase s \<noteq> Force_stopping else server_inv c s))"

lemma caught_inv:
  assumes "well c r"
  shows "\<exists>s'. caught x r = Some s' \<and> server_inv c s'"
proof -
  obtain threw s where r: "r = Some (threw, s)"
    and w: "if threw then basic c 0 s \<and> phase s \<noteq> Force_stopping else server_inv c s"
    using assms by (auto simp: well_def)
  show ?thesis
  proof (cases threw)
    case True
    then show ?thesis
      using r w fail_runtime_inv [of c s x] by (simp add: caught_def)
  next
    case False
    then show ?thesis
      using r w by (simp add: caught_def)
  qed
qed

lemma server_inv_frame:
  assumes "fr_config c = fr_config c'" "fr_stops c = fr_stops c'"
    and "fr_down c' \<longrightarrow> phase s \<noteq> Running" "fr_undrained c' \<longrightarrow> \<not> sv_drain_completion_enabled s"
      "fr_over c' \<longrightarrow> phase s = Completed"
    and "server_inv c s"
  shows "server_inv c' s"
proof -
  have "owned c s = owned c' s"
    using assms(1,2) by (simp add: owned_def)
  then show ?thesis
    using assms unfolding server_inv_def basic_def settled_def by simp
qed

lemma settled_down:
  "settled c k s \<Longrightarrow> phase s \<noteq> Running \<Longrightarrow> settled (c\<lparr>fr_down := True\<rparr>) k s"
  unfolding settled_def owned_def by auto

text \<open>A drain ends the running phase.\<close>

lemma begin_drain_impl_well:
  assumes s: "server_inv c s" and new: "\<not> fr_undrained c"
  defines "c' \<equiv> c\<lparr>fr_down := True\<rparr>"
  shows "well c' (begin_drain_impl x s)"
proof (cases "phase s = Running")
  case False
  then have "server_inv c' s"
    using s new by (intro server_inv_frame [OF _ _ _ _ _ s]) (auto simp: c'_def server_inv_def basic_def settled_def)
  then show ?thesis
    using False by (auto simp: begin_drain_impl_def DrainState_begin_drain_def well_def)
next
  case True
  obtain d result where t: "DrainState_transition_to (sv_drain s) Draining = (d, result)"
    by (cases "DrainState_transition_to (sv_drain s) Draining")
  define u where "u = stop_accepting (s\<lparr>sv_drain_completion_enabled := True, sv_drain := d,
      sv_drain_forced := sv_drain_forced s\<rparr>)"
  have st: "settled c 0 s" "phase s \<noteq> Completed" "\<not> rf_claimed (sv_failure s)"
    using s True by (simp_all add: server_inv_def basic_def settled_def)
  note u = leave_running(1-4) [where b = True and f = "sv_drain_forced s", OF st(1,2) _ _ _ _ t, folded u_def]
  have r: "result = (if sv_sessions s = [] then Drain_completed else Drain_started)"
    using leave_running(5) [OF st(1,2) _ _ _ _ t, of True] st(3) new by blast
  have eq: "begin_drain_impl x s =
     (if sv_sessions s = [] then map_option (Pair False) (finish_drain (fail_runtime x) x u)
      else if faulty x Fault_snapshot then Some (True, u)
      else Option.bind (drain_sessions x (sv_sessions u) u) (\<lambda>s.
        if drain_phase (sv_drain s) \<noteq> Draining then Some (False, s)
        else if faulty x Fault_drain_timer then Some (True, s)
        else Some (False, s\<lparr>sv_drain_wait := True\<rparr>)))"
    using True t r by (simp add: begin_drain_impl_def DrainState_begin_drain_def u_def Let_def)
  show ?thesis
  proof (cases "sv_sessions s = []")
    case True
    then have "settled c' 0 u" "phase u = Completed"
      using u st(3) new settled_down [of c 0 u] by (simp_all add: c'_def)
    then obtain s' where "finish_drain (fail_runtime x) x u = Some s'" "server_inv c' s'"
      using finish_drain_inv [OF _ _ fail_runtime_ok [of c' x], of u x] by metis
    then show ?thesis
      using eq True by (auto simp: well_def)
  next
    case False
    have b: "basic c' 0 u" "phase u = Draining"
      using u st(3) new False settled_down [of c 0 u] by (simp_all add: basic_def c'_def)
    have "\<forall>i \<in> set (sv_sessions u). i < length (sv_store u)"
      using basicD [OF b(1)] by (simp add: owned_def)
    moreover have "sessions_ok u"
      using s by (simp add: server_inv_def sessions_ok_def u_def)
    ultimately obtain s' where s': "drain_sessions x (sv_sessions u) u = Some s'" "basic c' 0 s'"
      "sessions_ok s'" "phase s' = Draining \<or> phase s' = Completed"
      using drain_sessions_inv [OF b(1)] b(2) by blast
    have "server_inv c' (s'\<lparr>sv_drain_wait := True\<rparr>)" if "phase s' = Draining"
      using s'(2,3) that new by (simp add: c'_def server_inv_def basic_def settled_def sessions_ok_def)
    then show ?thesis
      using eq False s' b completed_inv [of c' s'] by (auto simp: well_def)
  qed
qed

lemma force_stop_inv:
  assumes s: "basic c 0 s" "phase s = Draining"
  shows "\<exists>s'. force_stop x s = Some s' \<and> server_inv c s' \<and> phase s' = Completed"
proof -
  obtain d result where t: "DrainState_transition_to (sv_drain s) Force_stopping = (d, result)"
    by (cases "DrainState_transition_to (sv_drain s) Force_stopping")
  define u where "u = stop_accepting (s\<lparr>sv_drain_completion_enabled := sv_drain_completion_enabled s,
      sv_drain := d, sv_drain_forced := True\<rparr>)"
  have st: "settled c 0 s" "phase s \<noteq> Completed" "\<not> rf_claimed (sv_failure s)" "sv_sessions s \<noteq> []"
    "sv_drain_completion_enabled s" "\<not> fr_undrained c"
    using s by (auto simp: basic_def settled_def)
  note u = leave_running(1-4) [where b = "sv_drain_completion_enabled s" and f = True,
      OF st(1,2) disjI1 [OF refl] _ disjI1 _ t, folded u_def]
  have r: "result = Drain_started"
    using leave_running(5) [OF st(1,2) disjI1 [OF refl] _ disjI1 _ t, of "sv_drain_completion_enabled s"] st(3-6) by simp
  have "basic c 0 u" "phase u = Force_stopping"
    using u st(3-6) by (simp_all add: basic_def)
  then obtain s' where "stop_all_sessions (fail_runtime x) x u = Some s'" "basic c 0 s'" "phase s' = Completed"
    using stop_all_sessions_inv [of c 0 u "fail_runtime x" x] fail_runtime_ok [of c x] by auto
  then show ?thesis
    using s(2) t r completed_inv [of c s'] by (simp add: force_stop_def DrainState_begin_force_stop_def u_def)
qed

lemma on_drain_timer_inv:
  assumes "server_inv c s"
  shows "\<exists>s'. on_drain_timer x error (s\<lparr>sv_drain_wait := False\<rparr>) = Some s' \<and> server_inv c s'"
proof -
  let ?s = "s\<lparr>sv_drain_wait := False\<rparr>"
  have b: "basic c 0 ?s" "phase ?s \<noteq> Force_stopping"
    using assms by (simp_all add: server_inv_def basic_def settled_def)
  have "server_inv c ?s" if "phase s \<noteq> Draining"
    using assms that b by (simp add: server_inv_def serving_def sessions_ok_def)
  moreover have "\<exists>s'. fail_runtime x ?s = Some s' \<and> server_inv c s'"
    by (rule fail_runtime_inv [OF b])
  ultimately show ?thesis
    using force_stop_inv [OF b(1), of x]
    by (auto simp: on_drain_timer_def classify_drain_timer_completion_def force_stop_after_timeout_def)
qed

text \<open>Accepting a connection.\<close>

lemma start_session:
  assumes "HttpSession_new config proxies admission budget metrics connections on_close tls = Inr t"
    and "t' = t\<lparr>ss_admission := a, ss_budget := b, ss_metrics := m, ss_connections := n\<rparr>"
    and "session_start x t' = (threw, u)"
  shows "sane u" "\<not> ss_finished u" "\<not> threw \<Longrightarrow> session_inv u"
proof -
  have t: "quiet t'" "within_limit t'" "\<not> ss_draining t'" "\<not> ss_stopping t'"
    using new_session_quiet [OF assms(1)] assms(1,2)
    by (auto simp: HttpSession_new_def split: if_splits option.splits)
  then have "sane u \<and> \<not> ss_finished u"
    using assms(3) by (auto simp: session_start_def read_request_def begin_op_def quiet_def split: if_splits)
  then show "sane u" "\<not> ss_finished u"
    by simp_all
  show "\<not> threw \<Longrightarrow> session_inv u"
    using session_start_inv [OF t(1,2), of x u] assms(3) by simp
qed

lemma set_insert_at: "set (insert_at k y ys) = insert y (set ys)"
  by (metis insert_at_def append_take_drop_id Un_insert_right list.simps(15) set_append)

lemma length_insert_at: "length (insert_at k y ys) = Suc (length ys)"
  by (simp add: insert_at_def)

lemma distinct_insert_at: "distinct (insert_at k y ys) \<longleftrightarrow> y \<notin> set ys \<and> distinct ys"
proof -
  have "mset (insert_at k y ys) = mset (y # ys)"
    by (simp add: insert_at_def flip: union_code) (metis append_take_drop_id mset_append)
  then show ?thesis
    by (metis distinct.simps(2) mset_eq_imp_distinct_iff)
qed

lemma unat_suc: "unat (w :: usize) = n \<Longrightarrow> n < unat (m :: u16) \<Longrightarrow> unat (w + 1) = Suc n"
proof -
  assume w: "unat w = n" and "n < unat m"
  moreover have "unat m < 2 ^ LENGTH(16)"
    by (rule unat_lt2p_word)
  ultimately have "unat w + unat (1 :: usize) < 2 ^ LENGTH(64)"
    by simp
  then have "unat (w + 1) = unat w + unat (1 :: usize)"
    by (rule unat_add_bound)
  then show "unat (w + 1) = Suc n"
    using w by simp
qed

lemma new_session_owned:
  assumes s: "owned c s" "length (sv_sessions s) < unat (cfg_max_connections (fr_config c))" "phase s = Running"
    and t: "sane t" "\<not> ss_finished t"
  shows "owned c (s\<lparr>sv_store := sv_store s @ [t],
      sv_sessions := insert_at k (length (sv_store s)) (sv_sessions s),
      sv_capacity := AcceptCapacityState_session_started (sv_capacity s),
      sv_drain := DrainState_session_started (sv_drain s)\<rparr>)"
proof -
  have "unat (active_connections (sv_capacity s)) = length (sv_sessions s)"
    "unat (active_sessions (sv_drain s)) = length (sv_sessions s)"
    using s(1) by (simp_all add: owned_def)
  note suc = this [THEN unat_suc, OF s(2)]
  have new: "length (sv_store s) \<notin> set (sv_sessions s)"
    using s(1) by (auto simp: owned_def)
  show ?thesis
    using s suc new t
    by (auto simp: owned_def set_insert_at length_insert_at distinct_insert_at nth_append less_Suc_eq
        AcceptCapacityState_session_started_def DrainState_session_started_def)
qed

lemma accept_session_well:
  assumes s: "basic c 0 s" "phase s = Running" "serving s" "sessions_ok s"
    and room: "length (sv_sessions s) < unat (cfg_max_connections (fr_config c))" "\<not> sv_accepting s"
  shows "well c (accept_session x s)"
proof -
  have own: "owned c s"
    using s(1) basicD by blast
  obtain t where t: "HttpSession_new (sv_config s) True (Some (sv_admission s)) (Some (sv_budget s))
      (sv_metrics s) (Some (sv_capacity s)) True (cfg_downstream_tls_context (sv_config s) \<noteq> None) = Inr t"
    by (simp add: HttpSession_new_def)
  have new: "sane t" "\<not> ss_finished t"
    using new_session_quiet [OF t] by (simp_all add: quiet_def)
  define i where "i = length (sv_store s)"
  define u where "u = s\<lparr>sv_store := sv_store s @ [t],
      sv_sessions := insert_at (vi_position x) i (sv_sessions s),
      sv_capacity := AcceptCapacityState_session_started (sv_capacity s),
      sv_drain := DrainState_session_started (sv_drain s)\<rparr>"
  have u: "owned c u" "sv_store u ! i = t" "phase u = Running"
    using new_session_owned [OF own room(1) s(2) new] s(2)
    by (simp_all add: u_def i_def DrainState_session_started_def)
  obtain threw t' where start: "session_start (vi_session x) (lend u i) = (threw, t')"
    by (cases "session_start (vi_session x) (lend u i)")
  note t' = start_session [OF t _ start, unfolded lend_def u(2), OF refl]
  have "closed_by (fail_runtime x) x i t' u = Some (give_back i t' u)"
    using closes_iff [OF t'(1) new(1)] t'(2) by (simp add: closed_by_def u(2))
  then have eq: "accept_session x s =
      (if faulty x Fault_session then Some (True, s)
       else if threw then Some (True, give_back i t' u) else Some (drive_accept x (give_back i t' u)))"
    using t start by (simp add: accept_session_def Let_def i_def [symmetric] u_def [symmetric])
  have "owned c (give_back i t' u)"
    using give_back_owned [OF u(1) t'(1)] t'(2) new(2) u(2) by simp
  then have b: "basic c 0 (give_back i t' u)"
    using s(1,2) u(3)
    by (simp add: basic_def settled_def) (simp add: u_def)
  have srv: "serving (give_back i t' u)"
    using s(3) room(2) by (simp add: serving_def u_def AcceptCapacityState_session_started_def)
  have ok: "sessions_ok (give_back i t' u)" if "\<not> threw"
    using s(4) t'(3) [OF that]
    by (auto simp: sessions_ok_def give_back_def u_def i_def nth_append nth_list_update)
  show ?thesis
  proof (cases "faulty x Fault_session \<or> threw")
    case True
    then show ?thesis
      using eq s(1,2) b u(3) by (auto simp: well_def)
  next
    case False
    obtain threw' v where d: "drive_accept x (give_back i t' u) = (threw', v)"
      by (cases "drive_accept x (give_back i t' u)")
    have "phase (give_back i t' u) = Running"
      using u(3) by simp
    note v = drive_accept_inv [OF b this srv ok d]
    show ?thesis
      using eq False d v by (simp add: well_def)
  qed
qed

text \<open>The capacity changes in its two flags only.\<close>

lemma capacity_flags:
  assumes "basic c 0 s" and "max_connections a = max_connections (sv_capacity s)"
    "active_connections a = active_connections (sv_capacity s)"
    "accept_stopped a = accept_stopped (sv_capacity s)"
  shows "basic c 0 (s\<lparr>sv_capacity := a\<rparr>)"
  using assms unfolding basic_def settled_def owned_def by auto

lemma basic_frame [simp]:
  "basic c k (s\<lparr>sv_accepting := v1\<rparr>) = basic c k s"
  "basic c k (s\<lparr>sv_retry_wait := v2\<rparr>) = basic c k s"
  "basic c k (s\<lparr>sv_drain_wait := v3\<rparr>) = basic c k s"
  unfolding basic_def settled_def by simp_all

lemma sessions_ok_frame [simp]:
  "sessions_ok (s\<lparr>sv_accepting := v1\<rparr>) = sessions_ok s"
  "sessions_ok (s\<lparr>sv_retry_wait := v2\<rparr>) = sessions_ok s"
  "sessions_ok (s\<lparr>sv_capacity := v3\<rparr>) = sessions_ok s"
  "sessions_ok (s\<lparr>sv_health := v4\<rparr>) = sessions_ok s"
  "sessions_ok (s\<lparr>sv_admission := v5\<rparr>) = sessions_ok s"
  by (simp_all add: sessions_ok_def)

lemma on_accept_inv:
  assumes s: "server_inv c s" "sv_accepting s"
  shows "\<exists>s'. on_accept x error (s\<lparr>sv_accepting := False\<rparr>) = Some s' \<and> server_inv c s'"
proof -
  let ?s = "s\<lparr>sv_accepting := False,
      sv_capacity := AcceptCapacityState_accept_completed (sv_capacity s)\<rparr>"
  have b: "basic c 0 ?s" "phase ?s \<noteq> Force_stopping" "sessions_ok ?s"
    using s(1) capacity_flags [of c "s\<lparr>sv_accepting := False\<rparr>" "AcceptCapacityState_accept_completed (sv_capacity s)"]
    by (simp_all add: server_inv_def AcceptCapacityState_accept_completed_def)
  have "well c (on_accept_body x error (s\<lparr>sv_accepting := False\<rparr>))"
  proof (cases "phase s = Running")
    case False
    then have "server_inv c ?s"
      using s(1) b by (simp add: server_inv_def)
    then show ?thesis
      using False by (auto simp: on_accept_body_def well_def)
  next
    case True
    have "max_connections (sv_capacity s) = ucast (cfg_max_connections (fr_config c))"
      using s(1) basicD [of c 0 s] by (auto simp: server_inv_def owned_def)
    then have srv: "serving ?s" and room: "length (sv_sessions ?s) < unat (cfg_max_connections (fr_config c))"
      using s True by (simp_all add: server_inv_def serving_def AcceptCapacityState_accept_completed_def)
    show ?thesis
    proof (cases "error = None")
      case True
      then show ?thesis
        using accept_session_well [OF b(1) _ srv b(3) room] \<open>phase s = Running\<close>
        by (simp add: on_accept_body_def)
    next
      case False
      let ?r = "?s\<lparr>sv_capacity := AcceptCapacityState_retry_scheduled (sv_capacity ?s)\<rparr>"
      have r: "basic c 0 ?r"
        using capacity_flags [OF b(1), of "AcceptCapacityState_retry_scheduled (sv_capacity ?s)"]
        by (simp add: AcceptCapacityState_retry_scheduled_def)
      have "server_inv c (?r\<lparr>sv_retry_wait := True\<rparr>)"
        using r b(3) srv True by (simp add: server_inv_def serving_def AcceptCapacityState_retry_scheduled_def)
      then show ?thesis
        using False True b r by (auto simp: on_accept_body_def well_def Let_def)
    qed
  qed
  then show ?thesis
    by (simp add: on_accept_def caught_inv)
qed

lemma on_accept_retry_timer_inv:
  assumes s: "server_inv c s" "sv_retry_wait s"
  shows "\<exists>s'. on_accept_retry_timer x error (s\<lparr>sv_retry_wait := False\<rparr>) = Some s' \<and> server_inv c s'"
proof -
  let ?s = "s\<lparr>sv_retry_wait := False,
      sv_capacity := AcceptCapacityState_retry_completed (sv_capacity s)\<rparr>"
  have b: "basic c 0 ?s" "phase ?s \<noteq> Force_stopping" "sessions_ok ?s"
    using s(1) capacity_flags [of c "s\<lparr>sv_retry_wait := False\<rparr>" "AcceptCapacityState_retry_completed (sv_capacity s)"]
    by (simp_all add: server_inv_def AcceptCapacityState_retry_completed_def)
  obtain threw u where d: "drive_accept x ?s = (threw, u)"
    by (cases "drive_accept x ?s")
  have "\<exists>s'. caught x (Some (drive_accept x ?s)) = Some s' \<and> server_inv c s'" if "phase s = Running"
  proof (rule caught_inv)
    have "serving ?s"
      using s that by (simp add: server_inv_def serving_def AcceptCapacityState_retry_completed_def)
    then show "well c (Some (drive_accept x ?s))"
      using drive_accept_inv [OF b(1) _ _ b(3) d] that d by (simp add: well_def)
  qed
  moreover have "server_inv c ?s" if "phase s \<noteq> Running"
    using s(1) b that by (simp add: server_inv_def)
  moreover have "\<exists>s'. fail_runtime x ?s = Some s' \<and> server_inv c s'"
    by (rule fail_runtime_inv [OF b(1,2)])
  ultimately show ?thesis
    by (auto simp: on_accept_retry_timer_def classify_accept_retry_completion_def Let_def)
qed

text \<open>
  What is asked of the inputs of a run: starting a write does not throw while a request is answered,
  and the clock advances by less than the smallest probe interval while probes are started.
\<close>

fun server_input_ok :: "app_config \<Rightarrow> server_input \<times> 'd server_event \<Rightarrow> bool" where
  "server_input_ok c (x, Sv_session i e) = writes_start (vi_session x, e)"
| "server_input_ok c (x, Sv_health inputs fault e) =
     ((\<exists>lo hi. within lo hi inputs) \<and> length (targets_from 0 (cfg_routes c)) < length inputs)"
| "server_input_ok c (x, e) = True"

lemma health_step_stopped:
  assumes "hk_stopped h" and "health_step N B inputs fault e h = Some h'"
  shows "hk_stopped h'"
  using assms
  by (cases e) (auto simp: HealthChecks_start_def HealthChecks_stop_def HealthChecks_failed_def pump_def on_timer_def completed_def
      completed_base_def Let_def split: if_splits prod.splits option.splits)

lemma basic_health:
  assumes "basic c k s" and "health_ok (cfg_routes (fr_config c)) h" and "hk_stopped (sv_health s) \<longrightarrow> hk_stopped h"
  shows "basic c k (s\<lparr>sv_health := h, sv_admission := a\<rparr>)"
  using assms unfolding basic_def settled_def by auto

lemma health_event_inv:
  assumes s: "server_inv c s" and ok: "server_input_ok (fr_config c) (x, Sv_health inputs fault e)"
  shows "\<exists>s'. health_event_step N L x inputs fault e s = Some s' \<and> server_inv c s'"
proof (cases "e = Start_checks \<or> e = Stop_checks")
  case True
  then show ?thesis
    using s by (simp add: health_event_step_def)
next
  case False
  have h: "health_ok (cfg_routes (fr_config c)) (sv_health s)"
    using s by (simp add: server_inv_def basic_def settled_def)
  then have "hk_targets (sv_health s) = targets_from 0 (cfg_routes (fr_config c))"
    by (simp add: health_ok_def hc_ok_def hc_frame_def)
  then obtain h' where step: "health_step N (lib_beast L) inputs fault e (sv_health s) = Some h'"
    using health_step_total [OF h, of _ _ inputs N "lib_beast L" fault e] ok by auto
  have h': "health_ok (cfg_routes (fr_config c)) h'"
    using health_step_ok [OF h step] .
  let ?s = "s\<lparr>sv_health := h', sv_admission := (sv_admission s)\<lparr>adm_health := hk_health h'\<rparr>\<rparr>"
  have b: "basic c 0 ?s"
    using s health_step_stopped [OF _ step] by (intro basic_health [OF _ h']) (auto simp: server_inv_def)
  then have "server_inv c ?s"
    using s by (simp add: server_inv_def serving_def)
  moreover have "phase ?s \<noteq> Force_stopping"
    using s by (simp add: server_inv_def)
  then have "\<exists>s'. fail_runtime x ?s = Some s' \<and> server_inv c s'"
    by (rule fail_runtime_inv [OF b])
  ultimately show ?thesis
    using False step by (simp add: health_event_step_def Let_def)
qed

lemma session_event_keeps:
  assumes "beast_closes (lib_beast L)" "writes_start (x, e)"
  shows "keeps (\<lambda>t. session_step L t (x, e))"
proof -
  have "ss_finished (session_step L t (x, e))" if "session_inv t" "ss_finished t" for t
    using session_step_finished [of t L x e] that by (simp add: session_inv_def)
  then show ?thesis
    using session_step_inv [OF _ assms] by (auto simp: keeps_def)
qed

lemma server_begin_drain_inv:
  assumes s: "server_inv c s" "\<not> fr_undrained c"
  shows "\<exists>s'. server_begin_drain x s = Some s' \<and> server_inv c s' \<and> phase s' \<noteq> Running"
proof -
  obtain s' where s': "server_begin_drain x s = Some s'" "server_inv (c\<lparr>fr_down := True\<rparr>) s'"
    using caught_inv [OF begin_drain_impl_well [OF s]] by (auto simp: server_begin_drain_def)
  have "server_inv c s'"
    using s s'(2) by (intro server_inv_frame [OF _ _ _ _ _ s'(2)])
      (auto simp: server_inv_def basic_def settled_def)
  then show ?thesis
    using s' by (auto simp: server_inv_def basic_def settled_def)
qed

lemma HttpServer_stop_inv:
  assumes s: "server_inv c s"
  defines "c' \<equiv> c\<lparr>fr_stops := Suc (fr_stops c)\<rparr>"
  shows "\<exists>s'. HttpServer_stop x s = Some s' \<and> server_inv c' s' \<and> phase s' = Completed"
proof -
  let ?s = "s\<lparr>sv_stop_calls := sv_stop_calls s + 1\<rparr>"
  have "owned c' ?s" if "owned c s"
    using that by (simp add: owned_def c'_def)
  then have b: "basic c' 0 ?s" "phase ?s \<noteq> Force_stopping"
    "rf_claimed (sv_failure ?s) \<and> phase ?s \<noteq> Completed \<Longrightarrow> (0 :: nat) \<noteq> 0"
    "rf_claimed (sv_failure ?s) \<or> sv_stop_calls ?s \<noteq> 0"
    using s by (auto simp: server_inv_def basic_def settled_def c'_def)
  obtain s' where "server_stop (fail_runtime x) x ?s = Some s'" "basic c' 0 s'" "phase s' = Completed"
    using server_stop_inv [OF b] by blast
  then show ?thesis
    using completed_inv [of c' s'] by (auto simp: HttpServer_stop_def)
qed

lemma server_step_inv:
  assumes s: "server_inv c s" and B: "beast_closes (lib_beast L)" and ok: "server_input_ok (fr_config c) (x, e)"
    and e: "e \<noteq> Sv_stop" "e = Sv_begin_drain \<Longrightarrow> \<not> fr_undrained c"
  shows "\<exists>s'. server_step N L (x, e) s = Some s' \<and> server_inv c s'"
proof (cases e)
  case (Sv_accepted error)
  then show ?thesis
    using on_accept_inv [OF s] s by simp
next
  case (Sv_retry_timer error)
  then show ?thesis
    using on_accept_retry_timer_inv [OF s] s by simp
next
  case (Sv_drain_timer error)
  then show ?thesis
    using on_drain_timer_inv [OF s] s by simp
next
  case (Sv_session i ev)
  then show ?thesis
    using call_session_inv [OF s _ session_event_keeps [OF B, of "vi_session x" ev]] s ok by simp
next
  case (Sv_health inputs fault ev)
  then show ?thesis
    using health_event_inv [OF s, of x inputs fault ev N L] ok by simp
next
  case Sv_begin_drain
  then show ?thesis
    using server_begin_drain_inv [OF s, of x] e by auto
next
  case Sv_force_stop
  then show ?thesis
    using s force_stop_inv [of c s x] by (auto simp: force_stop_drain_def server_inv_def)
qed (use e in simp)

text \<open>The frame that says least.\<close>

definition open_frame :: "app_config \<Rightarrow> nat \<Rightarrow> server_frame" where
  "open_frame config n = \<lparr>fr_config = config, fr_stops = n, fr_down = False, fr_undrained = False,
     fr_over = False\<rparr>"

lemma open_frame_simps [simp]:
  "fr_config (open_frame config n) = config" "fr_stops (open_frame config n) = n"
  "\<not> fr_undrained (open_frame config n)" "\<not> fr_down (open_frame config n)"
  "\<not> fr_over (open_frame config n)"
  by (simp_all add: open_frame_def)

interpretation servers: total_steps "server_step N L" "server_input_ok c"
  "\<lambda>s. beast_closes (lib_beast L) \<and> (\<exists>n. server_inv (open_frame c n) s)" for N L c
proof
  fix s :: "'a server" and e :: "server_input \<times> 'a server_event"
  assume s: "beast_closes (lib_beast L) \<and> (\<exists>n. server_inv (open_frame c n) s)" and e: "server_input_ok c e"
  then obtain n where n: "server_inv (open_frame c n) s"
    by blast
  have suc: "(open_frame c n)\<lparr>fr_stops := Suc n\<rparr> = open_frame c (Suc n)"
    by (simp add: open_frame_def)
  show "\<exists>s'. server_step N L e s = Some s' \<and> beast_closes (lib_beast L) \<and>
      (\<exists>n. server_inv (open_frame c n) s')"
  proof (cases "snd e = Sv_stop")
    case True
    then show ?thesis
      using s HttpServer_stop_inv [OF n, of "fst e"] suc by (cases e) auto
  next
    case False
    then show ?thesis
      using s e server_step_inv [OF n, of L "fst e" "snd e" N] by (cases e) auto
  qed
qed

text \<open>A new server.\<close>

lemma new_server:
  assumes "HttpServer_new D config f g now now' = Inr s"
  shows "basic ((open_frame config 0)\<lparr>fr_undrained := True\<rparr>) 0 s" "phase s = Running" "serving s" "sessions_ok s" "\<not> sv_started s"
proof -
  obtain a h where a: "RouteProxyAdmission_new (cfg_routes config)
        (Some (ProxyAdmissionState_new (ucast (cfg_max_concurrent_proxies config)))) now = Inr a"
    and h: "HealthChecks_new config (Some (adm_health a)) True now' = Inr h"
    and s: "sv_health s = h" "sv_config s = config" "sv_drain s = DrainState_new"
      "sv_capacity s = AcceptCapacityState_new (ucast (cfg_max_connections config))"
      "sv_failure s = RuntimeFailureState_new" "sv_store s = []" "sv_sessions s = []"
      "\<not> sv_started s" "\<not> sv_drain_completion_enabled s" "\<not> sv_drain_callback_claimed s"
      "sv_drain_calls s = 0" "sv_failure_calls s = 0" "sv_stop_calls s = 0" "\<not> sv_accepting s" "\<not> sv_retry_wait s"
    using assms by (auto simp: HttpServer_new_def elim!: bind_result_InrE split: if_splits)
  have "adm_health a = UpstreamHealthState_new (cfg_routes config)"
    using a by (auto simp: RouteProxyAdmission_new_def elim!: bind_result_InrE)
  then have "health_ok (cfg_routes config) h"
    using h health_new_ok by simp
  then show "basic ((open_frame config 0)\<lparr>fr_undrained := True\<rparr>) 0 s"
    by (simp add: basic_def settled_def owned_def s DrainState_new_def AcceptCapacityState_new_def
        RuntimeFailureState_new_def)
  show "phase s = Running" "serving s" "sessions_ok s" "\<not> sv_started s"
    by (simp_all add: s serving_def sessions_ok_def DrainState_new_def AcceptCapacityState_new_def)
qed

lemma basic_listener [simp]:
  "basic c k (s\<lparr>sv_open := v1, sv_bound_port := v2, sv_started := v3\<rparr>) = basic c k s"
  unfolding basic_def settled_def owned_def by simp

lemma server_start_inv:
  assumes s: "basic c 0 s" "phase s = Running" "serving s" "sessions_ok s" "\<not> sv_started s"
    and start: "server_start x s = (False, s')"
  shows "server_inv c s'"
proof -
  let ?s = "s\<lparr>sv_open := True, sv_bound_port := vi_port x, sv_started := True\<rparr>"
  obtain u where d: "drive_accept x ?s = (False, u)" and s': "s' = u\<lparr>sv_health := HealthChecks_start (sv_health u)\<rparr>"
    using s(5) start by (auto simp: server_start_def Let_def split: if_splits prod.splits bool.splits)
  have "serving ?s" "sessions_ok ?s"
    using s(3,4) by (simp_all add: serving_def sessions_ok_def)
  then have u: "server_inv c u"
    using drive_accept_inv(3) [OF _ _ _ _ d, of c] s(1,2) by simp
  have "health_ok (cfg_routes (fr_config c)) (HealthChecks_start (sv_health u))"
    using u health_step_ok [of "cfg_routes (fr_config c)" "sv_health u" _ _ _ _ Start_checks] basicD [of c 0 u]
    by (auto simp: server_inv_def settled_def)
  moreover have "hk_stopped (HealthChecks_start (sv_health u)) = hk_stopped (sv_health u)"
    by (simp add: HealthChecks_start_def)
  ultimately have "basic c 0 (u\<lparr>sv_health := HealthChecks_start (sv_health u), sv_admission := sv_admission u\<rparr>)"
    using u by (intro basic_health) (auto simp: server_inv_def)
  then show ?thesis
    using u by (simp add: s' server_inv_def serving_def)
qed

section \<open>Theorems\<close>


text \<open>A server that accepts a connection, answers a request on it and is drained.\<close>

definition sample_server_input :: server_input where
  "sample_server_input =
     \<lparr>vi_session = sample_session_input, vi_faults = [], vi_position = 0, vi_port = 8080\<rparr>"

definition sample_server_events :: "(server_input \<times> int server_event) list" where
  "sample_server_events =
     [(sample_server_input, Sv_accepted None),
      (sample_server_input, Sv_session 0 (Se_read_header None
        \<lparr>rv_request = sample_request Get ''/healthz'', rv_content_length = None, rv_done = True\<rparr>)),
      (sample_server_input, Sv_session 0 (Se_write None)),
      (sample_server_input, Sv_accepted (Some Operation_aborted)),
      (sample_server_input, Sv_begin_drain)]"

definition sample_server :: "int server result" where
  "sample_server = HttpServer_new sample_double checked_config True True 0 0"

definition sample_started :: "bool \<times> int server" where
  "sample_started = server_start sample_server_input (projr sample_server)"

definition sample_server_report :: "int server \<Rightarrow> server_drain_phase \<times> nat list list" where
  "sample_server_report s = (drain_phase (sv_drain s), map (map res_status \<circ> ss_sent) (sv_store s))"

lemma sample_server_starts: "isl sample_server = False" "fst sample_started = False"
  by code_simp+

lemma sample_server_runs:
  "map_option sample_server_report
     (server_run sample_net sample_libs sample_server_events (snd sample_started)) =
   Some (Completed, [[status_ok]])"
  by code_simp


end
