(* ===== verification/Logging.thy ===== *)
theory Logging
  imports Config "HOL-Library.List_Lexorder" "HOL-Library.Char_ord"
begin

text \<open>
  The structured log, \<open>src/logging.cpp\<close>, and the report of a checked configuration,
  \<open>src/main.cpp\<close>. A JSON object is kept in the order of its keys, as the library does. A logger is
  its level and the strings it adds to every record; the records that reach the output are the
  result of a call. The lemmas show that every record is an object in key order that carries the
  three reserved fields, whatever fields the caller passes.
\<close>

section \<open>Objects\<close>

text \<open>\<open>object[key] = value\<close>.\<close>

fun object_set :: "(string \<times> json) list \<Rightarrow> string \<Rightarrow> json \<Rightarrow> (string \<times> json) list" where
  "object_set [] k v = [(k, v)]"
| "object_set ((k', v') # kvs) k v =
     (if k = k' then (k, v) # kvs
      else if k < k' then (k, v) # (k', v') # kvs
      else (k', v') # object_set kvs k v)"

definition object_of :: "(string \<times> json) list \<Rightarrow> (string \<times> json) list" where
  "object_of kvs = foldl (\<lambda>obj (k, v). object_set obj k v) [] kvs"

definition object_ok :: "(string \<times> json) list \<Rightarrow> bool" where
  "object_ok kvs \<longleftrightarrow> sorted_wrt (<) (map fst kvs)"

section \<open>The logger\<close>

datatype spdlog_level = Spd_trace | Spd_debug | Spd_info | Spd_warn | Spd_err | Spd_critical

fun to_spdlog_level :: "log_level \<Rightarrow> spdlog_level" where
  "to_spdlog_level Trace = Spd_trace"
| "to_spdlog_level Debug = Spd_debug"
| "to_spdlog_level Info = Spd_info"
| "to_spdlog_level Warn = Spd_warn"
| "to_spdlog_level Error = Spd_err"
| "to_spdlog_level Critical = Spd_critical"

text \<open>The value of the enumerator, which the library compares.\<close>

fun level_value :: "spdlog_level \<Rightarrow> nat" where
  "level_value Spd_trace = 0"
| "level_value Spd_debug = 1"
| "level_value Spd_info = 2"
| "level_value Spd_warn = 3"
| "level_value Spd_err = 4"
| "level_value Spd_critical = 5"

record structured_logger =
  lg_service_name :: string
  lg_environment :: string
  lg_level :: spdlog_level
  lg_flush_on :: spdlog_level

text \<open>A record on the output, and whether the output is flushed after it.\<close>

record log_record =
  lr_level :: spdlog_level
  lr_payload :: string
  lr_flushed :: bool

definition StructuredLogger_new :: "app_config \<Rightarrow> structured_logger" where
  "StructuredLogger_new config =
     \<lparr>lg_service_name = cfg_service_name config, lg_environment = cfg_environment config,
      lg_level = to_spdlog_level (cfg_log_level config), lg_flush_on = Spd_warn\<rparr>"

definition make_payload :: "structured_logger \<Rightarrow> string \<Rightarrow> json \<Rightarrow> json result" where
  "make_payload lg event members =
     (if event = [] then Inl (Invalid_argument ''log event must not be empty'')
      else case members of
        JNull \<Rightarrow> Inr (JObject (object_set (object_set (object_set []
          ''service'' (JString (lg_service_name lg))) ''environment'' (JString (lg_environment lg)))
          ''event'' (JString event)))
      | JObject kvs \<Rightarrow> Inr (JObject (object_set (object_set (object_set kvs
          ''service'' (JString (lg_service_name lg))) ''environment'' (JString (lg_environment lg)))
          ''event'' (JString event)))
      | _ \<Rightarrow> Inl (Invalid_argument ''log fields must be a JSON object''))"

definition log_at ::
  "beast \<Rightarrow> structured_logger \<Rightarrow> spdlog_level \<Rightarrow> string \<Rightarrow> json \<Rightarrow> log_record list result" where
  "log_at B lg level event members =
     bind_result (make_payload lg event members) (\<lambda>payload.
     bind_result (json_dump B payload) (\<lambda>text. Inr
       (if level_value (lg_level lg) \<le> level_value level
        then [\<lparr>lr_level = level, lr_payload = text,
               lr_flushed = (level_value (lg_flush_on lg) \<le> level_value level)\<rparr>]
        else [])))"

definition log_info :: "beast \<Rightarrow> structured_logger \<Rightarrow> string \<Rightarrow> json \<Rightarrow> log_record list result" where
  "log_info B lg = log_at B lg Spd_info"

definition log_warn :: "beast \<Rightarrow> structured_logger \<Rightarrow> string \<Rightarrow> json \<Rightarrow> log_record list result" where
  "log_warn B lg = log_at B lg Spd_warn"

definition log_error :: "beast \<Rightarrow> structured_logger \<Rightarrow> string \<Rightarrow> json \<Rightarrow> log_record list result" where
  "log_error B lg = log_at B lg Spd_err"

definition log_critical :: "beast \<Rightarrow> structured_logger \<Rightarrow> string \<Rightarrow> json \<Rightarrow> log_record list result" where
  "log_critical B lg = log_at B lg Spd_critical"

text \<open>The clone logs at \<open>info\<close> whatever the level of the service; the output is flushed.\<close>

definition write_configuration_valid ::
  "beast \<Rightarrow> structured_logger \<Rightarrow> json \<Rightarrow> log_record list result" where
  "write_configuration_valid B lg members =
     bind_result (log_info B (lg\<lparr>lg_level := Spd_info\<rparr>) ''configuration_valid'' members) (\<lambda>records.
       Inr (map (\<lambda>r. r\<lparr>lr_flushed := True\<rparr>) records))"

section \<open>The report of a checked configuration\<close>

definition config_fields :: "app_config \<Rightarrow> json" where
  "config_fields config =
     (let members = object_of
        [(''log_level'', JString (LogLevel_to_string (cfg_log_level config))),
         (''listen_address'', JString (cfg_listen_address config)),
         (''listen_port'', JNumber (uint (cfg_listen_port config))),
         (''max_connections'', JNumber (uint (cfg_max_connections config))),
         (''max_concurrent_proxies'', JNumber (uint (cfg_max_concurrent_proxies config))),
         (''max_in_flight_bytes'', JNumber (uint (cfg_max_in_flight_bytes config))),
         (''shutdown_grace_ms'', JNumber (uint (cfg_shutdown_grace_ms config))),
         (''metrics_enabled'', JBool (cfg_metrics_enabled config)),
         (''upstream_keep_alive'', JBool (cfg_upstream_keep_alive config)),
         (''tls_enabled'', JBool (cfg_downstream_tls_context config \<noteq> None)),
         (''authenticated_route_count'',
          JNumber (int (length (filter (\<lambda>route. route_auth route \<noteq> None) (cfg_routes config))))),
         (''proxy_enabled'', JBool (cfg_upstream config \<noteq> None \<or> cfg_routes config \<noteq> []))];
          members = (if cfg_routes config \<noteq> []
            then object_set members ''route_count'' (JNumber (int (length (cfg_routes config))))
            else members);
          members = (case cfg_upstream config of None \<Rightarrow> members
            | Some upstream \<Rightarrow>
                object_set members ''upstream_timeout_ms'' (JNumber (uint (up_timeout_ms upstream)))) in
      JObject members)"

section \<open>Lemmas\<close>

lemma object_set_lookup:
  "map_of (object_set kvs k v) k' = (if k' = k then Some v else map_of kvs k')"
  if "object_ok kvs"
  using that
proof (induction kvs)
  case (Cons kv kvs)
  have "map_of kvs k = None" if "k < fst kv"
    using that Cons.prems by (auto simp: object_ok_def map_of_eq_None_iff)
  then show ?case
    using Cons by (cases kv) (auto simp: object_ok_def)
qed (simp add: object_ok_def)

lemma object_set_keys: "fst ` set (object_set kvs k v) = insert k (fst ` set kvs)"
proof (induction kvs)
  case (Cons kv kvs)
  then show ?case
    by (cases kv) (simp add: insert_commute)
qed simp

lemma object_set_ok:
  assumes "object_ok kvs"
  shows "object_ok (object_set kvs k v)"
  using assms
proof (induction kvs)
  case (Cons kv kvs)
  have "\<forall>k' \<in> fst ` set (object_set kvs k v). fst kv < k'" if "fst kv < k"
    using that Cons.prems by (auto simp: object_set_keys object_ok_def)
  then show ?case
    using Cons by (cases kv) (auto simp: object_ok_def)
qed (simp add: object_ok_def)

text \<open>Every record names its service, environment and event; other fields are those of the caller.\<close>

lemma payload_members:
  assumes "make_payload lg event members = Inr payload" and "\<And>kvs. members = JObject kvs \<Longrightarrow> object_ok kvs"
  obtains kvs where "payload = JObject kvs" "object_ok kvs"
    "map_of kvs ''service'' = Some (JString (lg_service_name lg))"
    "map_of kvs ''environment'' = Some (JString (lg_environment lg))"
    "map_of kvs ''event'' = Some (JString event)"
    "\<And>k old. k \<notin> {''service'', ''environment'', ''event''} \<Longrightarrow> members = JObject old \<Longrightarrow> map_of kvs k = map_of old k"
proof -
  define old where "old = (case members of JObject kvs \<Rightarrow> kvs | _ \<Rightarrow> [])"
  have old: "object_ok old" "\<And>kvs. members = JObject kvs \<Longrightarrow> old = kvs"
    using assms(2) by (auto simp: old_def object_ok_def split: json.split)
  let ?kvs = "object_set (object_set (object_set old
      ''service'' (JString (lg_service_name lg))) ''environment'' (JString (lg_environment lg)))
      ''event'' (JString event)"
  have "payload = JObject ?kvs"
    using assms(1) by (auto simp: make_payload_def old_def split: if_splits json.splits)
  then show thesis
    by (rule that) (auto simp: object_set_ok object_set_lookup old assms(2))
qed

end
