(* ===== verification/Application.thy ===== *)
theory Application
  imports Server Logging
begin

text \<open>
  The process: \<open>Application::Impl\<close> of \<open>src/application.cpp\<close>, which waits for signals and drains,
  forces or stops the server, and \<open>main\<close> of \<open>src/main.cpp\<close>, which reads the command line and the
  configuration. The \<open>io_context\<close> is whether it was stopped; the handlers it runs are the events of
  a run, and none runs once it is stopped. The two callbacks that the server calls are handled after
  the call of the server in which they happen; they are the last thing that call does. The lemmas
  show that the process can always be shut down and what its exit code says.
\<close>

section \<open>State\<close>

definition exit_success :: int where
  "exit_success = 0"

definition exit_failure :: int where
  "exit_failure = 1"

record 'd application =
  ap_server :: "'d server"
  ap_signals :: shutdown_signal_state
  ap_exit_code :: int
  ap_signal_wait :: bool
  ap_stopped :: bool

record application_input =
  ai_server :: server_input
  ai_system_error :: bool
  ai_wait_throws :: bool
  ai_cancel_throws :: bool

definition Application_new ::
  "'d double_ops \<Rightarrow> app_config \<Rightarrow> time_point \<Rightarrow> time_point \<Rightarrow> 'd application result" where
  "Application_new D config now now' =
     bind_result (HttpServer_new D config True True now now') (\<lambda>server.
       Inr \<lparr>ap_server = server, ap_signals = ShutdownSignalState_new, ap_exit_code = exit_success,
            ap_signal_wait = False, ap_stopped = False\<rparr>)"

section \<open>Signals and callbacks\<close>

type_synonym 'd app_action = "'d application \<Rightarrow> 'd application option"

definition fail_signal_wait :: "application_input \<Rightarrow> 'd app_action" where
  "fail_signal_wait x a =
     map_option (\<lambda>server. a\<lparr>ap_signals := ShutdownSignalState_mark_completed (ap_signals a),
         ap_exit_code := exit_failure, ap_server := server, ap_stopped := True\<rparr>)
       (HttpServer_stop (ai_server x) (ap_server a))"

definition on_runtime_failure :: "'d application \<Rightarrow> 'd application" where
  "on_runtime_failure a =
     a\<lparr>ap_signals := ShutdownSignalState_mark_completed (ap_signals a),
       ap_exit_code := exit_failure, ap_stopped := True\<rparr>"

text \<open>Cancelling the wait for signals leaves its completion outstanding.\<close>

definition on_drain_complete :: "application_input \<Rightarrow> 'd app_action" where
  "on_drain_complete x a =
     (let a = a\<lparr>ap_signals := ShutdownSignalState_mark_completed (ap_signals a)\<rparr> in
      if ai_cancel_throws x then fail_signal_wait x a else Some a)"

definition arm_signal_wait :: "application_input \<Rightarrow> 'd application \<Rightarrow> (bool \<times> 'd application) option"
  where
  "arm_signal_wait x a =
     (if ai_wait_throws x then map_option (Pair False) (fail_signal_wait x a)
      else Some (True, a\<lparr>ap_signal_wait := True\<rparr>))"

text \<open>After a call of the server, with the callbacks it made.\<close>

definition called_back :: "application_input \<Rightarrow> 'd server \<Rightarrow> 'd app_action" where
  "called_back x server a =
     Option.bind
       (if sv_drain_calls (ap_server a) < sv_drain_calls server
        then on_drain_complete x (a\<lparr>ap_server := server\<rparr>) else Some (a\<lparr>ap_server := server\<rparr>))
       (\<lambda>b. Some (if sv_failure_calls (ap_server a) < sv_failure_calls server
          then on_runtime_failure b else b))"

definition call_server :: "application_input \<Rightarrow> 'd continue \<Rightarrow> 'd app_action" where
  "call_server x f a = Option.bind (f (ap_server a)) (\<lambda>server. called_back x server a)"

definition on_signal :: "application_input \<Rightarrow> error_code \<Rightarrow> 'd app_action" where
  "on_signal x error a =
     (case ShutdownSignalState_on_wait_completion (ap_signals a) error of (signals, disposition) \<Rightarrow>
        let a = a\<lparr>ap_signals := signals\<rparr> in
        case disposition of
          Signal_begin_drain \<Rightarrow>
            Option.bind (arm_signal_wait x a) (\<lambda>(armed, a).
              if armed then call_server x (server_begin_drain (ai_server x)) a else Some a)
        | Signal_force_stop \<Rightarrow> call_server x (force_stop_drain (ai_server x)) a
        | Signal_ignored \<Rightarrow> Some a
        | Signal_fatal \<Rightarrow> fail_signal_wait x a)"

section \<open>Running\<close>

text \<open>\<open>run\<close> up to \<open>io_context_.run()\<close>: it returns, an exception leaves it, or it goes on.\<close>

datatype 'd run_outcome = Run_returns int | Run_throws | Run_serves "'d application"

definition Application_run :: "application_input \<Rightarrow> 'd application \<Rightarrow> 'd run_outcome option" where
  "Application_run x a =
     (case server_start (ai_server x) (ap_server a) of
        (True, server) \<Rightarrow>
          Some (if ai_system_error x then Run_returns exit_failure else Run_throws)
      | (False, server) \<Rightarrow>
          map_option (\<lambda>(armed, a). if armed then Run_serves a else Run_returns (ap_exit_code a))
            (arm_signal_wait x (a\<lparr>ap_server := server\<rparr>)))"

datatype 'd application_event = Ap_signal error_code | Ap_server "'d server_event"

fun application_call :: "'d server_event \<Rightarrow> bool" where
  "application_call Sv_begin_drain = True"
| "application_call Sv_force_stop = True"
| "application_call Sv_stop = True"
| "application_call e = False"

fun application_step ::
  "net_lib \<Rightarrow> 'd libs \<Rightarrow> application_input \<times> 'd application_event \<Rightarrow> 'd app_action" where
  "application_step N L (x, Ap_signal error) a =
     (if ap_stopped a \<or> \<not> ap_signal_wait a then Some a
      else on_signal x error (a\<lparr>ap_signal_wait := False\<rparr>))"
| "application_step N L (x, Ap_server e) a =
     (if ap_stopped a \<or> application_call e then Some a
      else call_server x (server_step N L (ai_server x, e)) a)"

definition application_run ::
  "net_lib \<Rightarrow> 'd libs \<Rightarrow> (application_input \<times> 'd application_event) list \<Rightarrow> 'd app_action" where
  "application_run N L = run_option (application_step N L)"

section \<open>The command line\<close>

datatype command = Command_run | Check_config | Help | Version

text \<open>The arguments with the name of the program first.\<close>

definition parse_command_line :: "string list \<Rightarrow> command result" where
  "parse_command_line argv =
     (case argv of
        [_] \<Rightarrow> Inr Command_run
      | [_, argument] \<Rightarrow>
          if argument = ''--check-config'' then Inr Check_config
          else if argument = ''--help'' \<or> argument = ''-h'' then Inr Help
          else if argument = ''--version'' then Inr Version
          else Inl (Invalid_argument ''unsupported command-line option'')
      | _ \<Rightarrow> Inl (Invalid_argument ''expected zero or one command-line option''))"

text \<open>The category under which \<open>main\<close> reports an exception.\<close>

fun error_category :: "exn \<Rightarrow> string" where
  "error_category (Config_error message) = ''configuration''"
| "error_category (Invalid_argument message) = ''arguments''"
| "error_category _ = ''runtime''"

text \<open>
  What the process does: it exits with a code and the category of the reported error, or it serves.
  \<open>None\<close> in place of the category means that nothing is reported.
\<close>

datatype 'd process =
    Exits int "string option" "log_record list"
  | Serves 'd

text \<open>
  \<open>logger_throws\<close> says that making the logger throws. Printing the help and the version is not
  modelled. An exception that leaves \<open>run\<close> is not a configuration error.
\<close>

definition main_program ::
  "config_lib \<Rightarrow> openssl \<Rightarrow> tls_lib \<Rightarrow> 'd libs \<Rightarrow> application_input \<Rightarrow> bool \<Rightarrow> time_point \<Rightarrow> time_point \<Rightarrow>
   string list \<Rightarrow> 'd application process option" where
  "main_program E S T L x logger_throws now now' argv =
     (let failed = (\<lambda>e. Some (Exits exit_failure (Some (error_category e)) [])) in
      case parse_command_line argv of
        Inl e \<Rightarrow> failed e
      | Inr command \<Rightarrow>
          if command = Help \<or> command = Version then Some (Exits exit_success None [])
          else case load_config_from_environment E S T of
            Inl e \<Rightarrow> failed e
          | Inr config \<Rightarrow>
              if logger_throws then Some (Exits exit_failure (Some ''runtime'') [])
              else if command = Check_config then
                case write_configuration_valid (lib_beast L) (StructuredLogger_new config)
                    (config_fields config) of
                  Inl e \<Rightarrow> failed e
                | Inr records \<Rightarrow> Some (Exits exit_success None records)
              else case Application_new (lib_double L) config now now' of
                  Inl e \<Rightarrow> failed e
                | Inr application \<Rightarrow>
                    map_option (\<lambda>outcome. case outcome of
                        Run_returns code \<Rightarrow> Exits code None []
                      | Run_throws \<Rightarrow> Exits exit_failure (Some ''runtime'') []
                      | Run_serves application \<Rightarrow> Serves application)
                      (Application_run x application))"

section \<open>The states of the process\<close>

text \<open>
  While the process runs, it waits for a signal until the server has shut down, and the state of the
  signals agrees with the phase of the server. Once it has stopped, the server has shut down.
\<close>

definition waiting_for_signal :: "'d application \<Rightarrow> bool" where
  "waiting_for_signal a \<longleftrightarrow>
     (case phase (ap_server a) of
        Running \<Rightarrow> ap_signal_wait a \<and> ap_signals a = ShutdownSignalState_new \<and>
          \<not> sv_drain_completion_enabled (ap_server a)
      | Draining \<Rightarrow> ap_signal_wait a \<and> ap_signals a = ShutdownSignalState_new\<lparr>sig_draining := True\<rparr>
      | Force_stopping \<Rightarrow> False
      | Completed \<Rightarrow> sig_completed (ap_signals a))"

definition app_inv :: "app_config \<Rightarrow> 'd application \<Rightarrow> bool" where
  "app_inv config a \<longleftrightarrow>
     (if ap_stopped a then
        ap_exit_code a = exit_failure \<and> phase (ap_server a) = Completed \<and>
        (\<exists>n. server_inv (open_frame config n) (ap_server a))
      else
        ap_exit_code a = exit_success \<and> server_inv (open_frame config 0) (ap_server a) \<and>
        sv_failure_calls (ap_server a) = 0 \<and> waiting_for_signal a)"

lemma fail_signal_wait_inv:
  assumes "server_inv (open_frame config n) (ap_server a)"
  shows "\<exists>b. fail_signal_wait x a = Some b \<and> app_inv config b \<and> phase (ap_server b) = Completed"
proof -
  obtain s where s: "HttpServer_stop (ai_server x) (ap_server a) = Some s"
    "server_inv (open_frame config (Suc n)) s" "phase s = Completed"
    using HttpServer_stop_inv [OF assms, of "ai_server x"] by (auto simp: open_frame_def)
  let ?b = "a\<lparr>ap_signals := ShutdownSignalState_mark_completed (ap_signals a),
      ap_exit_code := exit_failure, ap_server := s, ap_stopped := True\<rparr>"
  have "fail_signal_wait x a = Some ?b" "app_inv config ?b"
    using s by (auto simp: fail_signal_wait_def app_inv_def)
  then show ?thesis
    using s(3) by (intro exI [of _ ?b]) simp
qed

text \<open>Facts of the invariant of the server: when callbacks have been called.\<close>

lemma server_calls:
  assumes "server_inv c s"
  shows "sv_drain_calls s \<noteq> 0 \<Longrightarrow> phase s = Completed" "sv_failure_calls s \<noteq> 0 \<Longrightarrow> phase s = Completed"
    "phase s = Completed \<Longrightarrow> sv_failure_calls s = 0 \<Longrightarrow> fr_stops c = 0 \<Longrightarrow>
      sv_drain_calls s = 1 \<and> sv_drain_completion_enabled s"
    "phase s = Draining \<Longrightarrow> sv_drain_completion_enabled s" "phase s \<noteq> Force_stopping"
    "fr_down c \<Longrightarrow> phase s \<noteq> Running" "fr_undrained c \<Longrightarrow> \<not> sv_drain_completion_enabled s"
    "fr_over c \<Longrightarrow> phase s = Completed"
  using assms by (auto simp: server_inv_def basic_def settled_def owned_def)

lemma called_back_inv:
  assumes a: "\<not> ap_stopped a" "ap_exit_code a = exit_success" "sv_failure_calls (ap_server a) = 0"
    and s: "server_inv (open_frame config 0) s"
    and idle: "sv_drain_calls s \<le> sv_drain_calls (ap_server a) \<Longrightarrow> sv_failure_calls s = 0 \<Longrightarrow>
      waiting_for_signal (a\<lparr>ap_server := s\<rparr>)"
  shows "\<exists>b. called_back x s a = Some b \<and> app_inv config b \<and>
    (phase (ap_server b) = phase s \<or> phase (ap_server b) = Completed)"
proof -
  let ?a = "a\<lparr>ap_server := s\<rparr>"
  have failed: "app_inv config (on_runtime_failure b)" if "app_inv config b" "phase (ap_server b) = Completed" for b
    using that by (auto simp: on_runtime_failure_def app_inv_def split: if_splits)
  show ?thesis
  proof (cases "sv_drain_calls (ap_server a) < sv_drain_calls s")
    case True
    then have comp: "phase s = Completed"
      using server_calls(1) [OF s] by auto
    have "\<exists>b. on_drain_complete x ?a = Some b \<and> phase (ap_server b) = Completed \<and>
        (app_inv config b \<or> sv_failure_calls s \<noteq> 0 \<and> app_inv config (on_runtime_failure b))"
    proof (cases "ai_cancel_throws x")
      case True
      let ?b = "?a\<lparr>ap_signals := ShutdownSignalState_mark_completed (ap_signals a)\<rparr>"
      have "server_inv (open_frame config 0) (ap_server ?b)"
        using s by simp
      then show ?thesis
        using fail_signal_wait_inv [of config 0 ?b x] True by (auto simp: on_drain_complete_def)
    next
      case False
      then show ?thesis
        using a s comp
        by (auto simp: on_drain_complete_def app_inv_def on_runtime_failure_def waiting_for_signal_def
            ShutdownSignalState_mark_completed_def)
    qed
    then show ?thesis
      using True a(3) failed by (auto simp: called_back_def on_runtime_failure_def)
  next
    case False
    have "app_inv config (on_runtime_failure ?a)" if "sv_failure_calls s \<noteq> 0"
      using a s server_calls(2) [OF s that] by (auto simp: app_inv_def on_runtime_failure_def)
    moreover have "app_inv config ?a" if "sv_failure_calls s = 0"
      using a s idle False that by (simp add: app_inv_def)
    ultimately show ?thesis
      using False a(3) by (auto simp: called_back_def on_runtime_failure_def)
  qed
qed

section \<open>Every step keeps the invariant\<close>

fun app_input_ok :: "app_config \<Rightarrow> application_input \<times> 'd application_event \<Rightarrow> bool" where
  "app_input_ok c (x, Ap_server e) = server_input_ok c (ai_server x, e)"
| "app_input_ok c (x, Ap_signal error) = True"

text \<open>How far the shutdown has come.\<close>

fun shutdown_rank :: "server_drain_phase \<Rightarrow> nat" where
  "shutdown_rank Running = 0"
| "shutdown_rank Draining = 1"
| "shutdown_rank Force_stopping = 1"
| "shutdown_rank Completed = 2"

lemma shutdown_rank_le: "shutdown_rank p \<le> 2"
  by (cases p) simp_all

lemma shutdown_rank_eq [simp]: "shutdown_rank p = 2 \<longleftrightarrow> p = Completed" "shutdown_rank p = 0 \<longleftrightarrow> p = Running"
  by (cases p; simp)+

lemma server_event_inv:
  assumes a: "app_inv config a" "\<not> ap_stopped a" and e: "\<not> application_call e"
    and B: "beast_closes (lib_beast L)" and ok: "server_input_ok config (ai_server x, e)"
  shows "\<exists>b. call_server x (server_step N L (ai_server x, e)) a = Some b \<and> app_inv config b \<and>
    shutdown_rank (phase (ap_server a)) \<le> shutdown_rank (phase (ap_server b))"
proof -
  let ?s = "ap_server a"
  have s: "server_inv (open_frame config 0) ?s" "sv_failure_calls ?s = 0" "waiting_for_signal a"
    "ap_exit_code a = exit_success"
    using a by (simp_all add: app_inv_def)
  define c where "c = (open_frame config 0)\<lparr>fr_down := phase ?s \<noteq> Running, fr_undrained := phase ?s = Running,
      fr_over := phase ?s = Completed\<rparr>"
  have c: "server_inv c ?s" "fr_config c = config" "fr_stops c = 0"
    using s(3) by (intro server_inv_frame [OF _ _ _ _ _ s(1)])
      (auto simp: c_def waiting_for_signal_def)
  have "e \<noteq> Sv_stop" "e \<noteq> Sv_begin_drain"
    using e by auto
  then obtain s' where s': "server_step N L (ai_server x, e) ?s = Some s'" "server_inv c s'"
    using server_step_inv [OF c(1) B, of "ai_server x" e N] ok c(2) by auto
  have frame: "server_inv (open_frame config 0) s'"
    by (rule server_inv_frame [OF _ _ _ _ _ s'(2)]) (simp_all add: c_def)
  have "waiting_for_signal (a\<lparr>ap_server := s'\<rparr>)"
    if "sv_drain_calls s' \<le> sv_drain_calls ?s" "sv_failure_calls s' = 0"
  proof (cases "phase ?s")
    case Running
    then have "\<not> sv_drain_completion_enabled s'"
      using server_calls(7) [OF s'(2)] by (simp add: c_def)
    then have "phase s' = Running"
      using server_calls(3-5) [OF s'(2)] that c(3) by (cases "phase s'") auto
    then show ?thesis
      using s(3) Running \<open>\<not> sv_drain_completion_enabled s'\<close> by (simp add: waiting_for_signal_def)
  next
    case Draining
    then have "phase s' = Draining"
      using server_calls(3,5,6) [OF s'(2)] server_calls(1) [OF s(1)] that c(3)
      by (cases "phase s'") (auto simp: c_def)
    then show ?thesis
      using s(3) Draining by (simp add: waiting_for_signal_def)
  next
    case Completed
    then have "phase s' = Completed"
      using server_calls(8) [OF s'(2)] by (simp add: c_def)
    then show ?thesis
      using s(3) Completed by (simp add: waiting_for_signal_def)
  qed (use server_calls(5) [OF s(1)] in simp)
  moreover have "shutdown_rank (phase ?s) \<le> shutdown_rank (phase s')"
    using server_calls(6,8) [OF s'(2)] by (cases "phase ?s"; cases "phase s'") (auto simp: c_def)
  ultimately show ?thesis
    using called_back_inv [OF a(2) s(4,2) frame, of x] s'(1) shutdown_rank_le [of "phase ?s"]
    by (auto simp: call_server_def)
qed

text \<open>
  A signal: the first one ends the running phase, the second one ends a drain.
\<close>

definition signalled :: "server_drain_phase \<Rightarrow> 'd application \<Rightarrow> bool" where
  "signalled before b \<longleftrightarrow>
     phase (ap_server b) \<noteq> Running \<and> (before \<noteq> Running \<longrightarrow> phase (ap_server b) = Completed)"

lemma begin_drain_signal_inv:
  assumes s: "server_inv (open_frame config 0) (ap_server a)" "phase (ap_server a) = Running"
    "sv_failure_calls (ap_server a) = 0"
    and a: "\<not> ap_stopped a" "ap_exit_code a = exit_success" "ap_signal_wait a"
    "ap_signals a = ShutdownSignalState_new\<lparr>sig_draining := True\<rparr>"
  shows "\<exists>b. call_server x (server_begin_drain (ai_server x)) a = Some b \<and> app_inv config b \<and>
    phase (ap_server b) \<noteq> Running"
proof -
  obtain s' where s': "server_begin_drain (ai_server x) (ap_server a) = Some s'"
    "server_inv (open_frame config 0) s'" "phase s' \<noteq> Running"
    using server_begin_drain_inv [OF s(1), of "ai_server x"] by auto
  have "waiting_for_signal (a\<lparr>ap_server := s'\<rparr>)"
    if "sv_drain_calls s' \<le> sv_drain_calls (ap_server a)" "sv_failure_calls s' = 0"
  proof -
    have "sv_drain_calls (ap_server a) = 0"
      using server_calls(1) [OF s(1)] s(2) by auto
    then have "phase s' = Draining"
      using server_calls(3,5) [OF s'(2)] s'(3) that by (cases "phase s'") auto
    then show ?thesis
      using a by (simp add: waiting_for_signal_def)
  qed
  then show ?thesis
    using called_back_inv [OF a(1,2) s(3) s'(2), of x] s'(1,3) by (auto simp: call_server_def)
qed

lemma force_signal_inv:
  assumes s: "server_inv (open_frame config 0) (ap_server a)" "phase (ap_server a) = Draining"
    "sv_failure_calls (ap_server a) = 0"
    and a: "\<not> ap_stopped a" "ap_exit_code a = exit_success"
  shows "\<exists>b. call_server x (force_stop_drain (ai_server x)) a = Some b \<and> app_inv config b \<and>
    phase (ap_server b) = Completed"
proof -
  have "basic (open_frame config 0) 0 (ap_server a)"
    using s(1) by (simp add: server_inv_def)
  then obtain s' where s': "force_stop_drain (ai_server x) (ap_server a) = Some s'"
    "server_inv (open_frame config 0) s'" "phase s' = Completed"
    using force_stop_inv [of _ "ap_server a" "ai_server x"] s(2) by (auto simp: force_stop_drain_def)
  have "sv_drain_calls (ap_server a) = 0"
    using server_calls(1) [OF s(1)] s(2) by auto
  then have "waiting_for_signal (a\<lparr>ap_server := s'\<rparr>)"
    if "sv_drain_calls s' \<le> sv_drain_calls (ap_server a)" "sv_failure_calls s' = 0"
    using server_calls(3) [OF s'(2,3)] that by simp
  then show ?thesis
    using called_back_inv [OF a(1,2) s(3) s'(2), of x] s'(1,3) by (auto simp: call_server_def)
qed

lemma on_signal_inv:
  assumes a: "app_inv config a" "\<not> ap_stopped a" "ap_signal_wait a"
  shows "\<exists>b. on_signal x error (a\<lparr>ap_signal_wait := False\<rparr>) = Some b \<and> app_inv config b \<and>
    signalled (phase (ap_server a)) b"
proof -
  let ?a = "a\<lparr>ap_signal_wait := False\<rparr>"
  have s: "server_inv (open_frame config 0) (ap_server a)" "sv_failure_calls (ap_server a) = 0"
    "waiting_for_signal a" "ap_exit_code a = exit_success"
    using a by (simp_all add: app_inv_def)
  have failed: "\<exists>b. fail_signal_wait x c = Some b \<and> app_inv config b \<and> phase (ap_server b) = Completed"
    if "ap_server c = ap_server a" for c
    using fail_signal_wait_inv [of config 0 c x] s(1) that by simp
  show ?thesis
  proof (cases "phase (ap_server a)")
    case Completed
    then have "sig_completed (ap_signals a)" "app_inv config ?a"
      using a s by (simp_all add: app_inv_def waiting_for_signal_def)
    then show ?thesis
      using Completed failed [of ?a]
      by (auto simp: on_signal_def ShutdownSignalState_on_wait_completion_def signalled_def Let_def)
  next
    case Running
    let ?b = "?a\<lparr>ap_signals := ShutdownSignalState_new\<lparr>sig_draining := True\<rparr>\<rparr>"
    have signals: "ap_signals a = ShutdownSignalState_new"
      using s(3) Running by (simp add: waiting_for_signal_def)
    have "\<exists>b. call_server x (server_begin_drain (ai_server x)) (?b\<lparr>ap_signal_wait := True\<rparr>) = Some b \<and>
        app_inv config b \<and> phase (ap_server b) \<noteq> Running"
      using a s Running by (intro begin_drain_signal_inv) simp_all
    then show ?thesis
      using failed [of "?a\<lparr>ap_signals := ShutdownSignalState_new\<rparr>"] failed [of ?b] Running signals
      by (cases "error = None") (auto simp: on_signal_def ShutdownSignalState_on_wait_completion_def
          ShutdownSignalState_new_def arm_signal_wait_def signalled_def Let_def)
  next
    case Draining
    let ?b = "?a\<lparr>ap_signals := ShutdownSignalState_new\<lparr>sig_draining := True, sig_force_requested := True\<rparr>\<rparr>"
    have signals: "ap_signals a = ShutdownSignalState_new\<lparr>sig_draining := True\<rparr>"
      using s(3) Draining by (simp add: waiting_for_signal_def)
    have "\<exists>b. call_server x (force_stop_drain (ai_server x)) ?b = Some b \<and>
        app_inv config b \<and> phase (ap_server b) = Completed"
      using a s Draining by (intro force_signal_inv) simp_all
    then show ?thesis
      using failed [of "?a\<lparr>ap_signals := ShutdownSignalState_new\<lparr>sig_draining := True\<rparr>\<rparr>"] Draining signals
      by (cases "error = None") (auto simp: on_signal_def ShutdownSignalState_on_wait_completion_def
          ShutdownSignalState_new_def signalled_def Let_def)
  qed (use server_calls(5) [OF s(1)] in simp)
qed

fun is_signal :: "application_input \<times> 'd application_event \<Rightarrow> bool" where
  "is_signal (x, Ap_signal error) = True"
| "is_signal (x, Ap_server e) = False"

lemma signalled_rank:
  "signalled p b \<Longrightarrow> min 2 (Suc (shutdown_rank p)) \<le> shutdown_rank (phase (ap_server b))"
  by (cases p; cases "phase (ap_server b)") (auto simp: signalled_def)

lemma application_step_inv:
  assumes a: "app_inv config a" and B: "beast_closes (lib_beast L)" and ok: "app_input_ok config xe"
  shows "\<exists>b. application_step N L xe a = Some b \<and> app_inv config b \<and>
    min 2 (shutdown_rank (phase (ap_server a)) + of_bool (is_signal xe)) \<le> shutdown_rank (phase (ap_server b))"
proof (cases "ap_stopped a")
  case True
  then have "phase (ap_server a) = Completed"
    using a by (simp add: app_inv_def)
  then show ?thesis
    using True a by (cases "(N, L, xe, a)" rule: application_step.cases) auto
next
  case False
  obtain x e where xe: "xe = (x, e)"
    by (cases xe)
  show ?thesis
  proof (cases e)
    case (Ap_signal error)
    show ?thesis
    proof (cases "ap_signal_wait a")
      case True
      then show ?thesis
        using on_signal_inv [OF a False True, of x error] False signalled_rank
        by (auto simp: xe Ap_signal)
    next
      case nowait: False
      then have "phase (ap_server a) = Completed"
        using a False by (cases "phase (ap_server a)") (auto simp: app_inv_def waiting_for_signal_def)
      then show ?thesis
        using a nowait by (simp add: xe Ap_signal)
    qed
  next
    case (Ap_server e')
    then show ?thesis
      using a False server_event_inv [OF a False _ B, of e' x N] ok
      by (cases "application_call e'") (auto simp: xe)
  qed
qed

interpretation applications: total_progress "application_step N L" "app_input_ok c"
  "\<lambda>a. beast_closes (lib_beast L) \<and> app_inv c a" "of_bool \<circ> is_signal"
  "\<lambda>a. shutdown_rank (phase (ap_server a))" 2 for N L c
proof
  fix a :: "'a application" and e :: "application_input \<times> 'a application_event"
  assume "beast_closes (lib_beast L) \<and> app_inv c a" "app_input_ok c e"
  then obtain b where b: "application_step N L e a = Some b" "app_inv c b" "beast_closes (lib_beast L)"
    "min 2 (shutdown_rank (phase (ap_server a)) + of_bool (is_signal e)) \<le> shutdown_rank (phase (ap_server b))"
    using application_step_inv [of c a L e N] by blast
  then show "\<exists>s'. application_step N L e a = Some s' \<and> beast_closes (lib_beast L) \<and> app_inv c s'"
    by blast
  show "min 2 (shutdown_rank (phase (ap_server a)) + (of_bool \<circ> is_signal) e)
      \<le> shutdown_rank (phase (ap_server s'))" if "application_step N L e a = Some s'" for s'
    using that b by simp
qed

lemma drive_accept_phase: "phase (snd (drive_accept x s)) = phase s"
  by (simp add: drive_accept_def Let_def split: prod.splits)

lemma started_phase: "server_start x s = (False, s') \<Longrightarrow> phase s' = phase s"
  using drive_accept_phase [of x "s\<lparr>sv_open := True, sv_bound_port := vi_port x, sv_started := True\<rparr>"]
  by (auto simp: server_start_def Let_def split: if_splits prod.splits bool.splits)

lemma Application_run_inv:
  assumes a: "Application_new D config now now' = Inr a" and run: "Application_run x a = Some (Run_serves b)"
  shows "app_inv config b"
proof -
  obtain s where s: "HttpServer_new D config True True now now' = Inr s"
    and a': "ap_server a = s" "ap_signals a = ShutdownSignalState_new" "ap_exit_code a = exit_success"
      "\<not> ap_stopped a"
    using a by (auto simp: Application_new_def bind_result_def split: sum.splits)
  let ?x = "ai_server x"
  obtain s' where s': "server_start ?x s = (False, s')"
    and b: "b = a\<lparr>ap_server := s', ap_signal_wait := True\<rparr>"
    using run a' by (auto simp: Application_run_def arm_signal_wait_def split: prod.splits bool.splits if_splits)
  note new = new_server [OF s]
  have inv: "server_inv ((open_frame config 0)\<lparr>fr_undrained := True\<rparr>) s'"
    by (rule server_start_inv [OF new s'])
  have "phase s' = Running"
    using new(2) started_phase [OF s'] by simp
  moreover have "server_inv (open_frame config 0) s'"
    by (rule server_inv_frame [OF _ _ _ _ _ inv]) simp_all
  ultimately show ?thesis
    using a' b server_calls(2,7) [OF inv] by (auto simp: app_inv_def waiting_for_signal_def)
qed

section \<open>Theorems\<close>

text \<open>
  C1. The process can always be shut down, and its exit code tells how it ended. From a process
  that has started to serve, every sequence of events of the server and of completions of the wait
  for signals is handled, with any errors and any calls throwing (save those the inputs exclude). The
  process has stopped its event loop exactly if its exit code is the one for a failure, and then the
  server has shut down. Otherwise it waits for a signal, or the server has completed its drain, told
  the application so once and reported no failure. Two completions of the wait for signals, whatever
  happens between them and whether they report an error or not, shut the server down.
\<close>

theorem application_shutdown:
  assumes "Application_new D config now now' = Inr a0" and "Application_run x a0 = Some (Run_serves a1)"
    and "beast_closes (lib_beast L)" and "list_all (app_input_ok config) es"
  shows "\<exists>a. application_run N L es a1 = Some a \<and>
    ap_exit_code a = (if ap_stopped a then exit_failure else exit_success) \<and>
    (ap_stopped a \<longrightarrow> drain_phase (sv_drain (ap_server a)) = Completed) \<and>
    (\<not> ap_stopped a \<longrightarrow>
       (if drain_phase (sv_drain (ap_server a)) = Completed
        then sv_drain_calls (ap_server a) = 1 \<and> sv_failure_calls (ap_server a) = 0
        else ap_signal_wait a)) \<and>
    (2 \<le> length (filter is_signal es) \<longrightarrow> drain_phase (sv_drain (ap_server a)) = Completed)"
proof -
  have "app_inv config a1"
    using Application_run_inv [OF assms(1,2)] .
  then obtain a where a: "application_run N L es a1 = Some a" "app_inv config a"
    "min 2 (shutdown_rank (phase (ap_server a1)) + sum_list (map (of_bool \<circ> is_signal) es))
       \<le> shutdown_rank (phase (ap_server a))"
    using applications.run_progress [of L config a1 es N] assms(3,4) by (auto simp: application_run_def)
  have "sum_list (map (of_bool \<circ> is_signal) es) = length (filter is_signal es)"
    by (induction es) auto
  then have "2 \<le> length (filter is_signal es) \<longrightarrow> phase (ap_server a) = Completed"
    using a(3) shutdown_rank_le [of "phase (ap_server a)"] shutdown_rank_eq(1) [of "phase (ap_server a)"]
    by linarith
  moreover have "if phase (ap_server a) = Completed
      then sv_drain_calls (ap_server a) = 1 \<and> sv_failure_calls (ap_server a) = 0 else ap_signal_wait a"
    if "\<not> ap_stopped a"
    using a(2) that server_calls(3) [of "open_frame config 0" "ap_server a"]
    by (cases "phase (ap_server a)") (auto simp: app_inv_def waiting_for_signal_def)
  ultimately show ?thesis
    using a(1,2) by (intro exI [of _ a]) (auto simp: app_inv_def)
qed

text \<open>
  A connection is accepted and stays open; the first signal begins the drain, the second one forces
  the connection closed.
\<close>

definition sample_application_input :: application_input where
  "sample_application_input =
     \<lparr>ai_server = sample_server_input, ai_system_error = False, ai_wait_throws = False, ai_cancel_throws = False\<rparr>"

definition sample_application_events :: "(application_input \<times> int application_event) list" where
  "sample_application_events =
     [(sample_application_input, Ap_server (Sv_accepted None)),
      (sample_application_input, Ap_signal None),
      (sample_application_input, Ap_signal None)]"

definition sample_application :: "int application result" where
  "sample_application = Application_new sample_double checked_config 0 0"

definition sample_serving :: "int application" where
  "sample_serving =
     (case Application_run sample_application_input (projr sample_application) of
        Some (Run_serves a) \<Rightarrow> a | _ \<Rightarrow> projr sample_application)"

lemma sample_application_starts:
  "isl sample_application = False"
  "case Application_run sample_application_input (projr sample_application) of
     Some (Run_serves a) \<Rightarrow> True | _ \<Rightarrow> False"
  by code_simp+

lemma sample_application_runs:
  "map_option ap_stopped
     (application_run sample_net sample_libs sample_application_events sample_serving) = Some False"
  by code_simp

theorem application_shutdown_witness:
  "\<exists>a0 a1 a. Application_new sample_double checked_config 0 0 = Inr a0 \<and>
     Application_run sample_application_input a0 = Some (Run_serves a1) \<and>
     application_run sample_net sample_libs sample_application_events a1 = Some a \<and>
     ap_exit_code a = exit_success \<and> drain_phase (sv_drain (ap_server a)) = Completed \<and>
     sv_drain_calls (ap_server a) = 1"
proof -
  obtain a0 where a0: "sample_application = Inr a0"
    using sample_application_starts(1) sum.collapse(2) [of sample_application] by metis
  obtain a1 where a1: "Application_run sample_application_input a0 = Some (Run_serves a1)" "sample_serving = a1"
    using sample_application_starts(2)
    by (auto simp: a0 sample_serving_def split: option.splits run_outcome.splits)
  obtain a where a: "application_run sample_net sample_libs sample_application_events a1 = Some a"
    "\<not> ap_stopped a"
    using sample_application_runs by (auto simp: a1(2))
  have "beast_closes (lib_beast sample_libs)"
    by (simp add: sample_libs_def sample_beast_closes)
  moreover have "list_all (app_input_ok checked_config) sample_application_events"
    by (simp add: sample_application_events_def sample_application_input_def sample_server_input_def
        sample_session_input_def)
  moreover have "length (filter is_signal sample_application_events) = 2"
    by (simp add: sample_application_events_def)
  ultimately show ?thesis
    using a0 [unfolded sample_application_def] a1(1) a
      application_shutdown [OF a0 [unfolded sample_application_def] a1(1), of sample_libs sample_application_events sample_net]
    by (intro exI [of _ a0] exI [of _ a1] exI [of _ a]) simp
qed

end
