(* ===== verification/Startup.thy ===== *)
theory Startup
  imports Application
begin

text \<open>
  Starting the process, across the components: the loader reports every problem as a configuration
  error, a configuration that loads is accepted by every constructor that checks it again, and
  \<open>main\<close> reports each problem under its category and otherwise serves.
\<close>

section \<open>The errors of the loader\<close>

definition config_fails :: "'a result \<Rightarrow> bool" where
  "config_fails r \<longleftrightarrow> (\<forall>e. r = Inl e \<longrightarrow> (\<exists>message. e = Config_error message))"

named_theorems config_fails

lemma config_fails_values [simp]:
  "config_fails (Inr a)" "config_fails (Inl (Config_error message))" "config_fails (require ok message)"
  by (simp_all add: config_fails_def require_def)

lemma config_fails_bind [intro!]:
  "config_fails r \<Longrightarrow> (\<And>a. r = Inr a \<Longrightarrow> config_fails (f a)) \<Longrightarrow> config_fails (bind_result r f)"
  by (cases r) (auto simp: config_fails_def)

lemma config_fails_map [intro!]:
  "(\<And>x. config_fails (f x)) \<Longrightarrow> config_fails (map_result f xs)"
  by (induction xs) auto

lemma config_fails_settings [config_fails]:
  "config_fails (read_environment E name)" "config_fails (validate_label v name)"
  "config_fails (parse_log_level v)" "config_fails (parse_listen_address E v)"
  "config_fails (parse_listen_port v)" "config_fails (parse_upstream_port v)"
  "config_fails (parse_capacity_limit v name)" "config_fails (parse_bounded_milliseconds v name)"
  "config_fails (parse_max_in_flight_bytes v)" "config_fails (parse_flag name v)"
  by (simp_all add: read_environment_def validate_label_def parse_log_level_def parse_listen_address_def
      parse_listen_port_def parse_upstream_port_def parse_capacity_limit_def parse_bounded_milliseconds_def
      parse_max_in_flight_bytes_def parse_flag_def split: option.split prod.split)

lemma config_fails_hostname_loop: "config_fails (hostname_loop cs n b c)"
  by (induction cs n b c rule: hostname_loop.induct) (simp_all add: host_error_def)

lemma config_fails_host [config_fails]: "config_fails (parse_upstream_host E v)"
  by (auto simp: parse_upstream_host_def validate_dns_hostname_def config_fails_hostname_loop host_error_def
      split: option.split)

lemma config_fails_segment_loop: "config_fails (segment_loop rest)"
proof (induction rest rule: segment_loop.induct)
  case (1 rest)
  have "config_fails (segment_check seg)" for seg
    by (simp add: segment_check_def)
  then show ?case
    using 1 by (auto simp: segment_loop.simps [of rest] config_fails_def split: option.split sum.split)
qed

lemma config_fails_prefix [config_fails]: "config_fails (validate_route_prefix p)"
  by (simp add: validate_route_prefix_def config_fails_segment_loop)

lemma config_fails_callback: "config_fails (run_callback cb es)"
proof (induction cb es rule: run_callback.induct)
  case (2 cb depth event es)
  have "config_fails (parse_callback cb depth event)"
    by (induction cb depth event rule: parse_callback.induct) (auto simp: Let_def split: json.split)
  then show ?case
    using 2 by auto
qed simp

lemma config_fails_upstreams [config_fails]: "config_fails (parse_upstreams E entry)"
proof -
  have integer: "config_fails (route_integer v m)" for v m
    by (simp add: route_integer_def split: json.split)
  have "config_fails (parse_route_upstream E e)" for e
    by (auto simp: parse_route_upstream_def parse_scheme_def Let_def integer split: sum.split)
  then show ?thesis
    by (auto simp: parse_upstreams_def parse_pool_entry_def split: json.split)
qed

lemma config_fails_members [config_fails]:
  "config_fails (parse_rate_limit entry)" "config_fails (parse_health_check entry)"
  "config_fails (parse_boolean entry field)"
proof -
  have integer: "config_fails (route_integer v m)" for v m
    by (simp add: route_integer_def split: json.split)
  have "config_fails (health_integer h f d lo hi)" for h f d lo hi
    by (auto simp: health_integer_def integer)
  then show "config_fails (parse_rate_limit entry)" "config_fails (parse_health_check entry)"
    "config_fails (parse_boolean entry field)"
    by (auto simp: parse_rate_limit_def parse_health_check_def parse_boolean_def Let_def integer)
qed

lemma config_fails_auth [config_fails]: "config_fails (parse_auth E S entry)"
proof -
  have "config_fails (auth_references v)" for v
    by (auto simp: auth_references_def Let_def split: json.split)
  moreover have "config_fails (auth_loop E S refs seen c)" for refs seen c
    by (induction E S refs seen c rule: auth_loop.induct) (auto split: option.split sum.split)
  ultimately show ?thesis
    by (auto simp: parse_auth_def Let_def)
qed

lemma config_fails_routes [config_fails]: "config_fails (parse_routes E S v)"
proof -
  have entry: "config_fails (parse_route_entry E S prefixes entry)" for E S prefixes entry
    by (auto simp: parse_route_entry_def Let_def config_fails)
  have "config_fails (routes_loop E S prefixes entries)" for prefixes entries
    by (induction E S prefixes entries rule: routes_loop.induct) (auto simp: entry)
  then show ?thesis
    by (auto simp: parse_routes_def config_fails_callback split: option.split json.split prod.split)
qed

lemma config_fails_tls [config_fails]:
  "config_fails (make_downstream_tls_context T cert key)" "config_fails (make_upstream_tls_context T ca b)"
  by (auto simp: make_downstream_tls_context_def make_upstream_tls_context_def downstream_tls_error_def
      upstream_tls_error_def split: option.split prod.split)

lemma config_fails_load [config_fails]: "config_fails (load_config_from_environment E S T)"
proof -
  have env: "config_fails (with_environment E name f c)" if "\<And>v c. config_fails (f v c)" for name f c
    using that by (auto simp: with_environment_def config_fails split: option.split)
  have "config_fails (load_settings E c)" for c
    unfolding load_settings_def by (intro config_fails_bind env config_fails config_fails_values)
  moreover have "config_fails (load_routes E S T v c)" for v c
    by (auto simp: load_routes_def Let_def config_fails)
  moreover have "config_fails (load_upstream E T c)" for c
    by (auto simp: load_upstream_def config_fails split: option.split)
  ultimately show ?thesis
    by (auto simp: load_config_from_environment_def config_fails split: option.split)
qed

section \<open>A valid configuration makes a server\<close>

lemma targets_health:
  "t \<in> set (targets_from index routes) \<Longrightarrow> \<exists>r \<in> set routes. route_health_check r = Some (pt_health t)"
  by (induction index routes rule: targets_from.induct) (auto split: option.splits)

lemma sint_ucast_u64: "sint (ucast (w :: u32) :: u64) = int (unat w)"
proof -
  have w: "uint w < 4294967296"
    using uint_lt2p [of w] by simp
  then have "take_bit 64 (uint w) = uint w"
    by (intro take_bit_int_eq_self) simp_all
  moreover have "signed_take_bit 63 (uint w) = uint w"
    using w order_trans [OF _ uint_ge_0, of "- (2 ^ 63)" w] by (intro signed_take_bit_int_eq_self) simp_all
  ultimately show ?thesis
    by (simp add: sint_uint unsigned_ucast_eq)
qed

lemma ProbeSchedule_new_total:
  assumes "\<And>i. i \<in> set intervals \<Longrightarrow> 100 \<le> sint i \<and> sint i \<le> 60000"
  shows "\<exists>s. ProbeSchedule_new intervals now = Inr s"
proof -
  let ?slot = "\<lambda>i. if sint i < 100 \<or> 60000 < sint i then Inl (Invalid_argument ''probe interval must be positive'')
      else Inr \<lparr>pr_interval = i, pr_due = now, pr_in_flight = False\<rparr>"
  have "\<exists>slot. ?slot i = Inr slot" if "i \<in> set intervals" for i
    using assms [OF that] by auto
  then obtain slots where "map_result ?slot intervals = Inr slots"
    using map_result_total [of intervals ?slot] by blast
  then show ?thesis
    by (simp add: ProbeSchedule_new_def)
qed

lemma HttpServer_new_total:
  assumes "config_ok config"
  shows "\<exists>s. HttpServer_new D config True True now now' = Inr s"
proof -
  have "routes_ok (cfg_routes config)"
    using assms by (auto simp: config_ok_def routes_ok_def route_ok_def list_all_iff)
  then obtain a where a: "RouteProxyAdmission_new (cfg_routes config)
      (Some (ProxyAdmissionState_new (ucast (cfg_max_concurrent_proxies config)))) now = Inr a"
    using admission_ok_new by blast
  let ?intervals = "map (\<lambda>t. ucast (hc_interval_ms (pt_health t))) (targets_from 0 (cfg_routes config)) :: u64 list"
  have "100 \<le> sint i \<and> sint i \<le> 60000" if i: "i \<in> set ?intervals" for i
  proof -
    obtain h where "i = ucast (hc_interval_ms h)" "health_config_ok h"
      using i targets_health assms by (fastforce simp: config_ok_def route_ok_def list_all_iff)
    then have i: "sint i = int (unat (hc_interval_ms h))" "100 \<le> unat (hc_interval_ms h)"
        "unat (hc_interval_ms h) \<le> 60000"
      by (simp_all only: health_config_ok_def sint_ucast_u64)
    show ?thesis
      unfolding i(1) using i(2,3) by linarith
  qed
  from ProbeSchedule_new_total [OF this] obtain schedule where "ProbeSchedule_new ?intervals now' = Inr schedule" ..
  then show ?thesis
    using a by (simp add: HttpServer_new_def HealthChecks_new_def Let_def)
qed

lemma server_start_fresh:
  assumes "config_ok config" "HttpServer_new D config True True now now' = Inr s" "vi_faults x = []"
  shows "\<exists>s'. server_start x s = (False, s') \<and> sv_accepting s' \<and> sv_config s' = config \<and>
    drain_phase (sv_drain s') = Running"
proof -
  obtain a h where s: "sv_config s = config" "sv_drain s = DrainState_new" "\<not> sv_started s"
    "sv_capacity s = AcceptCapacityState_new (ucast (cfg_max_connections config))"
    using assms(2) by (auto simp: HttpServer_new_def elim!: bind_result_InrE split: if_splits)
  have "unat (cfg_max_connections config) \<noteq> 0"
    using assms(1) by (simp add: config_ok_def settings_ok_def unat_eq_0)
  then have "\<not> max_connections (sv_capacity s) \<le> active_connections (sv_capacity s)"
    by (simp add: s AcceptCapacityState_new_def word_le_nat_alt unsigned_ucast_eq)
  then show ?thesis
    using assms(3) s
    by (simp add: server_start_def drive_accept_def faulty_def AcceptCapacityState_next_action_def
        AcceptCapacityState_new_def DrainState_new_def Let_def)
qed

section \<open>What the process does\<close>

text \<open>The state in which \<open>run\<close> enters its event loop.\<close>

definition serving_state :: "app_config \<Rightarrow> 'd application \<Rightarrow> bool" where
  "serving_state config a \<longleftrightarrow>
     sv_config (ap_server a) = config \<and> drain_phase (sv_drain (ap_server a)) = Running \<and>
     ap_signal_wait a \<and> \<not> ap_stopped a \<and> ap_exit_code a = exit_success"

lemma Application_new_total:
  assumes "config_ok config"
  obtains a s where "Application_new D config now now' = Inr a" "HttpServer_new D config True True now now' = Inr s"
    "a = \<lparr>ap_server = s, ap_signals = ShutdownSignalState_new, ap_exit_code = exit_success,
      ap_signal_wait = False, ap_stopped = False\<rparr>"
  using HttpServer_new_total [OF assms, of D now now'] that by (auto simp: Application_new_def)

lemma Application_run_outcome:
  assumes "Application_new D config now now' = Inr a"
  shows "\<exists>r. Application_run x a = Some r \<and>
    (case r of Run_returns code \<Rightarrow> code = exit_failure | Run_throws \<Rightarrow> True | Run_serves b \<Rightarrow> serving_state config b)"
proof -
  obtain s where s: "HttpServer_new D config True True now now' = Inr s"
    and a: "a = \<lparr>ap_server = s, ap_signals = ShutdownSignalState_new, ap_exit_code = exit_success,
      ap_signal_wait = False, ap_stopped = False\<rparr>"
    using assms by (auto simp: Application_new_def elim!: bind_result_InrE)
  obtain threw t where start: "server_start (ai_server x) s = (threw, t)"
    by (cases "server_start (ai_server x) s")
  show ?thesis
  proof (cases threw)
    case True
    then show ?thesis
      using start a by (simp add: Application_run_def)
  next
    case False
    then have ok: "server_start (ai_server x) s = (False, t)"
      using start by simp
    have inv: "server_inv (open_frame config 0) t"
      by (rule server_inv_frame [OF _ _ _ _ _ server_start_inv [OF new_server [OF s] ok]]) simp_all
    show ?thesis
    proof (cases "ai_wait_throws x")
      case True
      obtain b where b: "fail_signal_wait x (a\<lparr>ap_server := t\<rparr>) = Some b"
        using fail_signal_wait_inv [of config 0 "a\<lparr>ap_server := t\<rparr>" x] inv by auto
      then have "ap_exit_code b = exit_failure"
        by (auto simp: fail_signal_wait_def)
      then show ?thesis
        using True ok a b by (auto simp: Application_run_def arm_signal_wait_def)
    next
      case False
      have "sv_config t = config"
        using basicD [of "open_frame config 0" 0 t] inv by (simp add: server_inv_def owned_def)
      moreover have "phase t = Running"
        using started_phase [OF ok] new_server(2) [OF s] by simp
      ultimately
      show ?thesis
        using ok a False by (simp add: Application_run_def arm_signal_wait_def serving_state_def)
    qed
  qed
qed

lemma Application_run_fresh:
  assumes "config_ok config" "Application_new D config now now' = Inr a"
    and "vi_faults (ai_server x) = []" "\<not> ai_wait_throws x"
  shows "\<exists>b. Application_run x a = Some (Run_serves b) \<and> sv_accepting (ap_server b)"
proof -
  obtain s where s: "HttpServer_new D config True True now now' = Inr s" "ap_server a = s"
    using assms(2) by (auto simp: Application_new_def elim!: bind_result_InrE)
  then show ?thesis
    using server_start_fresh [OF assms(1) s(1) assms(3)] assms(4)
    by (auto simp: Application_run_def arm_signal_wait_def)
qed

lemma write_configuration_valid_outcome:
  "case write_configuration_valid B lg (config_fields config) of
     Inl e \<Rightarrow> \<exists>j. json_dump B j = Inl e
   | Inr records \<Rightarrow> \<exists>r. records = [r] \<and> lr_level r = Spd_info \<and> lr_flushed r"
  by (auto simp: write_configuration_valid_def log_info_def log_at_def make_payload_def config_fields_def Let_def
      bind_result_def split: sum.splits)



end
