(* ===== verification/Protocol.thy ===== *)
theory Protocol
  imports Exchange
begin

text \<open>
  The calls an exchange makes to its session, step by step: which call a step may make in which
  state, and what the exchange waits for afterwards. A result is reported only before a stream was
  begun, the header begins it, a block follows when one was read, the end of the stream only ends a
  stream, and after each header or block the exchange waits to be resumed. The theory of proxying
  uses this to join an exchange with a session.
\<close>

section \<open>What an exchange may say\<close>

definition resuming :: "exchange \<Rightarrow> bool" where
  "resuming e \<longleftrightarrow> (case ex_op e of Some (Xo_resume _) \<Rightarrow> True | _ \<Rightarrow> False)"

text \<open>A stream has begun exactly if the operation outstanding is one of a stream.\<close>

definition staged :: "exchange \<Rightarrow> bool" where
  "staged e \<longleftrightarrow> (ex_stream_started e \<longleftrightarrow> resuming e \<or> ex_op e = Some Xo_read_some)"

text \<open>\<open>rd\<close>: a block was read, \<open>rs\<close>: the exchange was resumed.\<close>

fun speech :: "bool \<Rightarrow> bool \<Rightarrow> exchange \<Rightarrow> exchange_call \<Rightarrow> bool" where
  "speech rd rs e (Call_complete result) = (\<not> ex_stream_started e)"
| "speech rd rs e (Call_header header) = (\<not> ex_stream_started e)"
| "speech rd rs e (Call_body bytes final) = (rd \<and> ex_stream_started e)"
| "speech rd rs e (Call_finish failure downstream_failed) =
     (ex_stream_started e \<and> (rs \<or> failure \<noteq> None))"
| "speech rd rs e Call_abort = False"

text \<open>The outcome of the action of a handler that was entered in the state \<open>e\<close>.\<close>

definition says :: "exchange_input \<Rightarrow> bool \<Rightarrow> bool \<Rightarrow> exchange \<Rightarrow> bool \<times> exchange \<Rightarrow> bool" where
  "says x rd rs e r \<longleftrightarrow>
     (ex_calls (snd r) = ex_calls e \<and> ex_stream_started (snd r) = ex_stream_started e \<and>
        (fst r \<or> \<not> resuming (snd r) \<and> staged (snd r))) \<or>
     (\<exists>c. speech rd rs e c \<and> ex_calls (snd r) = ex_calls e @ [c] \<and>
        (if terminal c then \<not> fst r
         else ex_stream_started (snd r) \<and> fst r = xi_callback_throws x \<and> (fst r \<or> resuming (snd r)))) \<or>
     (\<exists>c. speech rd rs e c \<and> terminal c \<and> ex_calls (snd r) = ex_calls e @ [c, Call_abort] \<and> \<not> fst r \<and>
        xi_callback_throws x)"

lemma says_cong:
  "ex_calls e' = ex_calls e \<Longrightarrow> ex_stream_started e' = ex_stream_started e \<Longrightarrow> says x rd rs e' r = says x rd rs e r"
proof -
  assume "ex_calls e' = ex_calls e" "ex_stream_started e' = ex_stream_started e"
  moreover from this have "speech rd rs e' c = speech rd rs e c" for c
    by (cases c) simp_all
  ultimately show ?thesis
    by (simp add: says_def)
qed

lemma talk_fields [simp]:
  "ex_calls (finish_deadline e) = ex_calls e" "ex_stream_started (finish_deadline e) = ex_stream_started e"
  "ex_calls (cancel_operations e) = ex_calls e"
  "ex_calls (release_upstream x reusable e) = ex_calls e"
  "ex_stream_started (release_upstream x reusable e) = ex_stream_started e"
  "ex_calls (parsed v e) = ex_calls e"
  by (simp_all add: finish_deadline_def cancel_operations_def close_upstream_def release_upstream_def parsed_def)

lemma says_frames [simp]:
  "says x rd rs (finish_deadline e) = says x rd rs e" "says x rd rs (cancel_operations e) = says x rd rs e"
  "says x rd rs (release_upstream y reusable e) = says x rd rs e"
  "says x rd rs (e\<lparr>ex_block := b\<rparr>) = says x rd rs e" "says x rd rs (e\<lparr>ex_budget := c\<rparr>) = says x rd rs e"
  "says x rd rs (e\<lparr>ex_body_permit := q\<rparr>) = says x rd rs e" "says x rd rs (e\<lparr>ex_identity := i\<rparr>) = says x rd rs e"
  by (intro ext says_cong; simp add: cancel_operations_pending)+

lemma says_throw: "says x rd rs e (True, e)"
  by (simp add: says_def)

lemma exchange_complete_says:
  "pending e \<Longrightarrow> \<not> ex_stream_started e \<Longrightarrow> says x rd rs e (False, exchange_complete x result e)"
  by (auto simp: says_def exchange_complete_def run_proxy_completion_action_def put_completion_def
      ProxyCompletionState_claim_def complete_action_def notify_abort_def discard_result_def pending_def Let_def)

lemma complete_stream_says:
  "pending e \<Longrightarrow> ex_stream_started e \<Longrightarrow> rs \<or> failure \<noteq> None \<Longrightarrow>
   says x rd rs e (False, complete_stream x failure d e)"
  by (auto simp: says_def complete_stream_def run_proxy_completion_action_def put_completion_def
      ProxyCompletionState_claim_def complete_stream_action_def notify_abort_def pending_def Let_def)

lemma exchange_fail_says:
  assumes "active e"
  shows "says x rd rs e (exchange_fail B x stage error e)"
proof -
  let ?e = "cancel_operations (finish_deadline e)"
  have e: "pending ?e" "ex_stream_started ?e = ex_stream_started e" "\<not> ex_observed e"
    using assms cancel_operations_pending [of "finish_deadline e"] by (simp_all add: active_def)
  have "says x rd rs ?e (True, ?e)"
    by (rule says_throw)
  then show ?thesis
    using e exchange_complete_says [OF e(1), of x rd rs] complete_stream_says [OF e(1), of rs _ x rd]
    by (auto simp: exchange_fail_def Let_def split: sum.split)
qed

lemma exchange_reject_says:
  assumes "active e" "\<not> ex_stream_started e"
  shows "says x rd rs e (exchange_reject_buffer_budget B x n e)"
proof -
  let ?e = "cancel_operations e"
  have e: "pending ?e" "\<not> ex_stream_started ?e"
    using assms cancel_operations_pending [of e] by (simp_all add: active_def)
  then show ?thesis
    using exchange_complete_says [OF e, of x rd rs] says_throw [of x rd rs ?e]
    by (auto simp: exchange_reject_buffer_budget_def Let_def split: sum.split)
qed

lemma begin_initiate_says:
  "\<not> ex_stream_started e \<Longrightarrow> op \<in> {Xo_resolve, Xo_connect, Xo_handshake, Xo_write, Xo_read_header} \<Longrightarrow>
   says x rd rs e (and_then (begin_deadline x e) (initiate x op))"
  by (auto simp: says_def and_then_def begin_deadline_def initiate_def resuming_def staged_def Let_def)

lemma initiate_body_says: "\<not> ex_stream_started e \<Longrightarrow> says x rd rs e (initiate x Xo_read_body e)"
  by (simp add: says_def initiate_def resuming_def staged_def)

lemma read_block_says: "ex_stream_started e \<Longrightarrow> says x rd rs e (read_stream_block x e)"
  by (simp add: says_def read_stream_block_def initiate_def resuming_def staged_def)

lemma finish_response_says:
  assumes "active e" "\<not> ex_stream_started e"
  shows "says x rd rs e (finish_response B x e)"
proof -
  let ?e = "release_upstream x (response_reusable B x e) (finish_deadline e)"
  have "pending (?e\<lparr>ex_body_permit := q\<rparr>)" for q
    using release_upstream_facts(1) [of "finish_deadline e"] assms(1) by (simp add: pending_def report_def)
  then have "says x rd rs (?e\<lparr>ex_body_permit := q\<rparr>) (False, exchange_complete x result (?e\<lparr>ex_body_permit := q\<rparr>))" for q result
    using assms(2) by (intro exchange_complete_says) simp_all
  then show ?thesis
    using says_throw [of x rd rs ?e]
    by (auto simp: finish_response_def deliver_response_def BufferBudgetPermit_move_def split: sum.split)
qed

lemma finish_stream_says:
  assumes "active e" "ex_stream_started e"
  shows "says x rd True e (False, finish_stream B x e)"
proof -
  have "says x rd True (release_upstream x r (finish_deadline e))
      (False, complete_stream x None False (release_upstream x r (finish_deadline e)))" for r
    using assms release_upstream_facts(1) [of "finish_deadline e"] by (intro complete_stream_says) simp_all
  then show ?thesis
    by (simp add: finish_stream_def)
qed

section \<open>Handlers\<close>

lemma call_stream_header_says: "\<not> ex_stream_started e \<Longrightarrow> says x rd rs e (call_stream_header B x e)"
  by (auto simp: says_def call_stream_header_def resuming_def Let_def)

lemma start_stream_says:
  assumes "active e" "\<not> ex_stream_started e"
  shows "says x rd rs e (start_stream B x e)"
proof -
  have header: "says x rd rs e (call_stream_header B x e')"
    if "ex_calls e' = ex_calls e" "ex_stream_started e' = ex_stream_started e" for e'
    using call_stream_header_says [of e' x rd rs B] assms(2) that says_cong [OF that] by simp
  have reject: "says x rd rs e (exchange_reject_buffer_budget B x 1 (e\<lparr>ex_block := b\<rparr>))" for b
    using exchange_reject_says [of "e\<lparr>ex_block := b\<rparr>" x rd rs B 1] assms by simp
  show ?thesis
    using exchange_fail_says [OF assms(1)] says_throw [of x rd rs e] header reject
    by (auto simp: start_stream_def Let_def split: option.split prod.split)
qed

lemma on_resolve_says: "active e \<Longrightarrow> \<not> ex_stream_started e \<Longrightarrow> says x rd rs e (exchange_on_resolve B x error e)"
  using exchange_fail_says [of "finish_deadline e" x rd rs] begin_initiate_says [of "finish_deadline e"]
  by (simp add: exchange_on_resolve_def Let_def)

lemma write_request_says: "\<not> ex_stream_started e \<Longrightarrow> says x rd rs e (write_request x e)"
  by (simp add: write_request_def begin_initiate_says)

lemma on_connect_says:
  assumes "active e" "\<not> ex_stream_started e"
  shows "says x rd rs e (exchange_on_connect N B x error e)"
proof -
  let ?i = "\<lambda>i. (finish_deadline e)\<lparr>ex_identity := i\<rparr>"
  have "says x rd rs e (exchange_fail B x stage error (finish_deadline e))"
    "says x rd rs e (exchange_fail B x stage error (?i i))" "says x rd rs e (write_request x (finish_deadline e))"
    "says x rd rs e (and_then (begin_deadline x (?i i)) (initiate x Xo_handshake))" for stage error i
    using exchange_fail_says [of "finish_deadline e" x rd rs B stage error] exchange_fail_says [of "?i i" x rd rs B stage error]
      write_request_says [of "finish_deadline e" x rd rs] begin_initiate_says [of "?i i" Xo_handshake x rd rs] assms
    by simp_all
  then show ?thesis
    using assms(1) by (auto simp: exchange_on_connect_def Let_def split: prod.split)
qed

lemma on_handshake_says:
  "active e \<Longrightarrow> \<not> ex_stream_started e \<Longrightarrow> says x rd rs e (exchange_on_handshake B x error e)"
  using exchange_fail_says [of "finish_deadline e" x rd rs] write_request_says [of "finish_deadline e"]
  by (simp add: exchange_on_handshake_def Let_def)

lemma on_write_says: "active e \<Longrightarrow> \<not> ex_stream_started e \<Longrightarrow> says x rd rs e (exchange_on_write B x error e)"
  using exchange_fail_says [of "finish_deadline e" x rd rs] begin_initiate_says [of "finish_deadline e"]
  by (simp add: exchange_on_write_def Let_def)

lemma on_read_header_says:
  assumes "active e" "\<not> ex_stream_started e"
  shows "says x rd rs e (exchange_on_read_header B x error e)"
proof -
  have body: "says x rd rs e (initiate x Xo_read_body (e\<lparr>ex_budget := c, ex_body_permit := q\<rparr>))" for c q
    using initiate_body_says [of "e\<lparr>ex_budget := c, ex_body_permit := q\<rparr>" x rd rs] assms(2) by simp
  show ?thesis
    using assms start_stream_says [OF assms] exchange_fail_says [of "finish_deadline e" x rd rs]
      finish_response_says [of "finish_deadline e" x rd rs] exchange_reject_says [of "finish_deadline e" x rd rs] body
    by (auto simp: exchange_on_read_header_def Let_def split: option.split prod.split)
qed

lemma on_read_body_says:
  assumes "active e" "\<not> ex_stream_started e"
  shows "says x rd rs e (exchange_on_read_body B x error e)"
proof -
  let ?e = "\<lambda>c q. (finish_deadline e)\<lparr>ex_budget := c, ex_body_permit := q\<rparr>"
  have "says x rd rs e (exchange_fail B x stage error (?e c q))" "says x rd rs e (finish_response B x (?e c q))"
    for c q stage error
    using exchange_fail_says [of "?e c q" x rd rs B stage error] finish_response_says [of "?e c q" x rd rs B] assms
    by simp_all
  then show ?thesis
    using assms exchange_fail_says [of "finish_deadline e" x rd rs]
    by (auto simp: exchange_on_read_body_def Let_def split: prod.split)
qed

lemma on_read_some_says:
  assumes "active e" "ex_stream_started e"
  shows "says x True rs e (exchange_on_read_some B x error e)"
proof -
  have "says x True rs e (if xi_callback_throws x then (True, e\<lparr>ex_calls := ex_calls e @ [Call_body n d]\<rparr>)
      else (False, e\<lparr>ex_calls := ex_calls e @ [Call_body n d], ex_op := Some (Xo_resume d)\<rparr>))" for n d
    using assms(2) by (auto simp: says_def resuming_def)
  then show ?thesis
    using assms exchange_fail_says [OF assms(1)] read_block_says [OF assms(2)]
    by (simp add: exchange_on_read_some_def Let_def)
qed

lemma on_resume_says:
  assumes "active e" "ex_stream_started e"
  shows "says x rd True e (exchange_on_resume B x final error e)"
proof -
  have "says x rd True (cancel_operations e) (False, complete_stream x None True (cancel_operations e))"
    using assms cancel_operations_pending [of e] by (intro complete_stream_says) (simp_all add: active_pending)
  then show ?thesis
    using assms read_block_says [OF assms(2)] finish_stream_says [OF assms]
    by (simp add: exchange_on_resume_def)
qed

section \<open>Steps\<close>

text \<open>The calls of one step, and what the exchange waits for then.\<close>

definition spoken :: "exchange_input \<Rightarrow> bool \<Rightarrow> bool \<Rightarrow> exchange \<Rightarrow> exchange \<Rightarrow> exchange_call list \<Rightarrow> bool" where
  "spoken x rd rs e e' cs \<longleftrightarrow>
     (\<exists>c. cs = [c] \<and> \<not> terminal c \<and> speech rd rs e c \<and> \<not> xi_callback_throws x \<and>
        waiting e' \<and> staged e' \<and> ex_stream_started e' \<and> resuming e') \<or>
     cs = [Call_abort] \<and> over e' \<or>
     (\<exists>c. (cs = [c] \<and> terminal c \<or> cs = [c, Call_abort] \<and> xi_callback_throws x) \<and> speech rd rs e c \<and> over e')"

lemma spoken_cong: "ex_stream_started e1 = ex_stream_started e \<Longrightarrow> spoken x rd rs e1 = spoken x rd rs e"
proof -
  assume "ex_stream_started e1 = ex_stream_started e"
  then have "speech rd rs e1 c = speech rd rs e c" for c
    by (cases c) simp_all
  then show ?thesis
    by (intro ext) (simp add: spoken_def)
qed

definition turn :: "exchange_input \<Rightarrow> bool \<Rightarrow> exchange \<Rightarrow> exchange \<Rightarrow> exchange_call list \<Rightarrow> bool" where
  "turn x rs e e' cs \<longleftrightarrow>
     ex_calls e' = ex_calls e @ cs \<and>
     (cs = [] \<and> waiting e' \<and> staged e' \<and> ex_stream_started e' = ex_stream_started e \<and>
        (resuming e' \<longleftrightarrow> resuming e \<and> \<not> rs) \<or>
      spoken x (ex_op e = Some Xo_read_some) rs e e' cs)"

lemma turn_cases [consumes 1, case_names silent call abort ended threw]:
  assumes "turn x rs e e' cs"
  obtains "cs = []" "waiting e'" "staged e'" "ex_stream_started e' = ex_stream_started e"
      "resuming e' \<longleftrightarrow> resuming e \<and> \<not> rs"
    | c where "cs = [c]" "\<not> terminal c" "speech (ex_op e = Some Xo_read_some) rs e c"
        "\<not> xi_callback_throws x" "waiting e'" "staged e'" "ex_stream_started e'" "resuming e'"
    | "cs = [Call_abort]" "over e'"
    | c where "cs = [c]" "terminal c" "speech (ex_op e = Some Xo_read_some) rs e c" "over e'"
    | c where "cs = [c, Call_abort]" "xi_callback_throws x" "speech (ex_op e = Some Xo_read_some) rs e c" "over e'"
  using assms unfolding turn_def spoken_def by blast

lemma run_handler_turn:
  assumes e: "pending e" and good: "good (action e)" and says: "says x rd rs e (action e)"
  defines "e' \<equiv> run_handler action e"
  obtains cs where "ex_calls e' = ex_calls e @ cs"
    "cs = [] \<and> waiting e' \<and> staged e' \<and> ex_stream_started e' = ex_stream_started e \<and> \<not> resuming e' \<or>
     spoken x rd rs e e' cs"
proof (cases "action e")
  case (Pair threw f)
  have none: "filter terminal (ex_calls e) = []"
    using e by (simp add: pending_def report_def)
  show ?thesis
  proof (cases threw)
    case True
    then have f: "pending f" "over e'"
      using good Pair run_handler_finished [of action e] by (simp_all add: good_def e'_def finished_def)
    have calls: "ex_calls e' = ex_calls f @ [Call_abort]"
      using True Pair f(1) by (auto simp: e'_def run_handler_def run_proxy_handler_action_def put_completion_def
          ProxyCompletionState_claim_def cancel_operations_def close_upstream_def notify_abort_def pending_def Let_def)
    from says True Pair consider "ex_calls f = ex_calls e"
      | c where "speech rd rs e c" "ex_calls f = ex_calls e @ [c]" "xi_callback_throws x"
      by (auto simp: says_def split: if_splits)
    then show ?thesis
      by cases (rule that, simp add: calls, auto simp: spoken_def f(2))+
  next
    case False
    then have e': "e' = f" "finished f \<or> waiting f"
      using good Pair by (auto simp: e'_def run_handler_def run_proxy_handler_action_def good_def)
    have ends: "waiting f \<Longrightarrow> filter terminal (ex_calls f) = []"
      "\<not> waiting f \<Longrightarrow> over f \<and> filter terminal (ex_calls f) \<noteq> []"
      using e'(2) by (auto simp: report_def waiting_def active_def pending_def finished_def reported_once_def)
    have resume: "waiting f \<Longrightarrow> resuming f \<Longrightarrow> staged f"
      by (auto simp: waiting_def staged_def resuming_def split: option.splits exchange_op.splits)
    from says False Pair consider
      "ex_calls f = ex_calls e" "ex_stream_started f = ex_stream_started e" "\<not> resuming f" "staged f"
    | c where "speech rd rs e c" "ex_calls f = ex_calls e @ [c]" "\<not> terminal c" "ex_stream_started f" "resuming f"
        "\<not> xi_callback_throws x"
    | c where "speech rd rs e c" "terminal c" "ex_calls f = ex_calls e @ [c] \<or> ex_calls f = ex_calls e @ [c, Call_abort] \<and> xi_callback_throws x"
      by (auto simp: says_def split: if_splits)
    then show ?thesis
    proof cases
      case 1
      then show ?thesis
        using ends none by (intro that [of "[]"]) (auto simp: e'(1))
    next
      case (2 c)
      then have "waiting f"
        using ends(2) none by auto
      then show ?thesis
        using 2 resume by (intro that [of "[c]"]) (auto simp: e'(1) spoken_def)
    next
      case (3 c)
      then have "\<not> waiting f"
        using ends(1) by auto
      then have "over f"
        using ends(2) by simp
      then show ?thesis
        using 3 by (elim disjE conjE) (rule that, simp add: e'(1), auto simp: e'(1) spoken_def)+
    qed
  qed
qed

lemma delivers_turn:
  assumes w: "waiting e" "staged e"
    and good: "ex_op e = Some op \<Longrightarrow> good (action (prepare (e\<lparr>ex_op := None\<rparr>)))"
    and says: "ex_op e = Some op \<Longrightarrow>
      says x (ex_op e = Some Xo_read_some) rs (prepare (e\<lparr>ex_op := None\<rparr>)) (action (prepare (e\<lparr>ex_op := None\<rparr>)))"
    and prepare: "prepare = id \<or> prepare = parsed v"
    and rs: "rs \<longleftrightarrow> (\<exists>final. op = Xo_resume final)" "rs \<Longrightarrow> ex_op e = Some op"
  shows "\<exists>cs. turn x rs e (delivers op prepare action e) cs"
proof (cases "ex_op e = Some op")
  case True
  let ?e = "prepare (e\<lparr>ex_op := None\<rparr>)"
  have e: "pending ?e" "ex_calls ?e = ex_calls e" "ex_stream_started ?e = ex_stream_started e"
    using w(1) prepare by (auto simp: waiting_def active_def pending_def report_def parsed_def)
  have "resuming e \<longleftrightarrow> rs"
    using True rs(1) by (auto simp: resuming_def split: exchange_op.split)
  moreover have "delivers op prepare action e = run_handler action ?e"
    using True by (simp add: delivers_def)
  ultimately show ?thesis
    using run_handler_turn [OF e(1), of action, OF good [OF True] says [OF True]] e(2,3)
      spoken_cong [OF e(3)] by (metis turn_def)
next
  case False
  then show ?thesis
    using w rs(2) by (intro exI [of _ "[]"]) (auto simp: turn_def delivers_def)
qed

text \<open>The events of an exchange that do not come from its session.\<close>

fun own_event :: "exchange_event \<Rightarrow> bool" where
  "own_event (Xe_resume error) = False"
| "own_event Xe_cancel = False"
| "own_event (Xe_shared budget pool) = False"
| "own_event ev = True"

lemma deadline_turn:
  assumes w: "waiting e" "staged e"
  shows "\<exists>cs. turn x False e (exchange_step N B e (x, Xe_deadline g error)) cs"
proof (cases "g \<in> set (ex_waits e) \<and> (g = ex_generation e \<longrightarrow> error = None)")
  case False
  then show ?thesis
    using w by (intro exI [of _ "[]"]) (auto simp: turn_def waiting_def active_def)
next
  case True
  let ?e = "e\<lparr>ex_waits := remove1 g (ex_waits e)\<rparr>"
  let ?act = "\<lambda>e. if error = None \<and> g = ex_generation e
       then exchange_fail B x Stage_timeout (Some Timed_out) e else (False, e)"
  have active: "active ?e"
    using w(1) by (simp add: waiting_def)
  have step: "exchange_step N B e (x, Xe_deadline g error) = run_handler ?act ?e"
    using True by (simp add: exchange_on_deadline_def)
  show ?thesis
  proof (cases "g = ex_generation e")
    case timeout: True
    define f where "f = run_handler ?act ?e"
    have act: "?act ?e = exchange_fail B x Stage_timeout (Some Timed_out) ?e"
      using True timeout by simp
    have "good (?act ?e)" "says x (ex_op e = Some Xo_read_some) False ?e (?act ?e)"
      unfolding act using exchange_fail_good [OF active] exchange_fail_says [OF active] by blast+
    then obtain cs where cs: "ex_calls f = ex_calls ?e @ cs" "cs = [] \<and> waiting f \<or> spoken x (ex_op e = Some Xo_read_some) False ?e f cs"
      using run_handler_turn [where action = ?act, OF active_pending [OF active]] unfolding f_def by blast
    have "finished f"
      using run_handler_finished [of ?act ?e] exchange_fail_ends [OF active] unfolding act f_def by blast
    then have "\<not> waiting f"
      by (simp add: finished_def over_def waiting_def active_def pending_def)
    then have "turn x False e f cs"
      using cs spoken_cong [of ?e e] by (simp add: turn_def)
    then have "\<exists>cs. turn x False e f cs" ..
    then show ?thesis
      unfolding step f_def .
  next
    case False
    then have same: "run_handler ?act ?e = ?e"
      by (simp add: run_handler_def run_proxy_handler_action_def)
    have "waiting ?e"
      using deadline_step_ok(2) [OF w(1), of g error B x] True same w(1)
      by (auto simp: exchange_on_deadline_def finished_def over_def waiting_def active_def pending_def)
    then show ?thesis
      unfolding step same using w(2) by (intro exI [of _ "[]"]) (simp add: turn_def staged_def resuming_def)
  qed
qed

lemma staged_entry:
  assumes "waiting e" "staged e"
  shows "ex_op e = Some op \<Longrightarrow> op \<noteq> Xo_read_some \<Longrightarrow> (\<And>final. op \<noteq> Xo_resume final) \<Longrightarrow>
    \<not> ex_stream_started e"
  using assms by (cases op) (auto simp: staged_def resuming_def)

lemma own_turn:
  assumes w: "waiting e" "staged e" and own: "own_event ev"
  shows "\<exists>cs. turn x False e (exchange_step N B e (x, ev)) cs"
proof -
  note entry = waiting_entry [OF w(1)] staged_entry [OF w]
  have plain: "\<exists>cs. turn x False e (delivers op prepare action e) cs"
    if op: "op \<noteq> Xo_read_some" "\<And>final. op \<noteq> Xo_resume final" and p: "prepare = id \<or> prepare = parsed v"
      and ok: "\<And>e'. active e' \<Longrightarrow> ex_generation e' \<in> set (ex_waits e') \<Longrightarrow> good (action e')"
        "\<And>e' rd. active e' \<Longrightarrow> \<not> ex_stream_started e' \<Longrightarrow> says x rd False e' (action e')" for op prepare action v
  proof (rule delivers_turn [OF w _ _ p])
    assume out: "ex_op e = Some op"
    have "active (prepare (e\<lparr>ex_op := None\<rparr>))" "\<not> ex_stream_started (prepare (e\<lparr>ex_op := None\<rparr>))"
      "ex_generation (prepare (e\<lparr>ex_op := None\<rparr>)) \<in> set (ex_waits (prepare (e\<lparr>ex_op := None\<rparr>)))"
      using p entry(1,2) entry(5) [OF out op] by auto
    then show "good (action (prepare (e\<lparr>ex_op := None\<rparr>)))"
      "says x (ex_op e = Some Xo_read_some) False (prepare (e\<lparr>ex_op := None\<rparr>)) (action (prepare (e\<lparr>ex_op := None\<rparr>)))"
      using ok by blast+
  qed (use op in auto)
  show ?thesis
  proof (cases ev)
    case (Xe_deadline g error)
    then show ?thesis
      using deadline_turn [OF w] by simp
  next
    case (Xe_resolve error)
    then show ?thesis
      using plain [of Xo_resolve id _ "exchange_on_resolve B x error"] on_resolve_good on_resolve_says by auto
  next
    case (Xe_connect error)
    then show ?thesis
      using plain [of Xo_connect id _ "exchange_on_connect N B x error"] on_connect_good on_connect_says by auto
  next
    case (Xe_handshake error)
    then show ?thesis
      using plain [of Xo_handshake id _ "exchange_on_handshake B x error"] on_handshake_good on_handshake_says by auto
  next
    case (Xe_write error)
    then show ?thesis
      using plain [of Xo_write id _ "exchange_on_write B x error"] on_write_good on_write_says by auto
  next
    case (Xe_read_header error v)
    then show ?thesis
      using plain [of Xo_read_header "parsed v" v "exchange_on_read_header B x error"]
        on_read_header_good on_read_header_says by auto
  next
    case (Xe_read_body error v)
    then show ?thesis
      using plain [of Xo_read_body "parsed v" v "exchange_on_read_body B x error"]
        on_read_body_good on_read_body_says by auto
  next
    case (Xe_read_some error v)
    have "\<exists>cs. turn x False e (delivers Xo_read_some (parsed v) (exchange_on_read_some B x error) e) cs"
    proof (rule delivers_turn [OF w])
      assume out: "ex_op e = Some Xo_read_some"
      show "good (exchange_on_read_some B x error (parsed v (e\<lparr>ex_op := None\<rparr>)))"
        using entry(1,2) entry(3) [OF out] by (intro on_read_some_good) simp_all
      show "says x (ex_op e = Some Xo_read_some) False (parsed v (e\<lparr>ex_op := None\<rparr>))
          (exchange_on_read_some B x error (parsed v (e\<lparr>ex_op := None\<rparr>)))"
        using entry(1) entry(3) [OF out] out on_read_some_says by simp
    qed auto
    then show ?thesis
      using Xe_read_some by simp
  qed (use own in simp_all)
qed

lemma resume_turn:
  assumes w: "waiting e" "staged e" and resuming: "resuming e"
  shows "\<exists>cs. turn x True e (exchange_step N B e (x, Xe_resume error)) cs"
proof -
  note entry = waiting_entry [OF w(1)]
  obtain final where out: "ex_op e = Some (Xo_resume final)"
    using resuming by (auto simp: resuming_def split: option.splits exchange_op.splits)
  have "\<exists>cs. turn x True e (delivers (Xo_resume final) id (exchange_on_resume B x final error) e) cs"
  proof (rule delivers_turn [OF w])
    show "good (exchange_on_resume B x final error (id (e\<lparr>ex_op := None\<rparr>)))"
      using entry(1,2) entry(4) [OF out] by (intro on_resume_good) auto
    show "says x (ex_op e = Some Xo_read_some) True (id (e\<lparr>ex_op := None\<rparr>))
        (exchange_on_resume B x final error (id (e\<lparr>ex_op := None\<rparr>)))"
      using entry(1) entry(4) [OF out] by (simp add: on_resume_says)
  qed (use out in auto)
  then show ?thesis
    using out by simp
qed

end
