(* ===== verification/Proxying.thy ===== *)
theory Proxying
  imports Session Protocol
begin

text \<open>
  A session together with its exchanges: \<open>HttpSession\<close> of \<open>src/http_server.cpp\<close> makes an
  \<open>HttpProxyExchange\<close> of \<open>src/http_proxy.cpp\<close> for a request and is called by it, writes a stream
  through \<open>DownstreamTransport\<close> of \<open>src/downstream_transport.cpp\<close> and resumes the exchange when a
  write has completed. The two run in one step: the calls that a handler of an exchange makes are
  answered by the session before the handler goes on. Exchanges stay in the store when the session
  has dropped them, since their handlers still run. The budget and the pool are one object for
  both. The lemmas show that the session and its exchange always agree on what they wait for, so
  that no call comes when the session does not expect it, no proxied request is left without a
  deadline, and a closed session leaves no exchange behind.
\<close>

section \<open>The transport of a stream\<close>

text \<open>\<open>buffer_body\<close> asks for the next block with an error, which is not one unless the block was the last.\<close>

definition stream_body_completion :: "bool \<Rightarrow> error_code \<Rightarrow> error_code" where
  "stream_body_completion final error =
     (if \<not> final \<and> error = Some Need_buffer then None else error)"

definition stream_completion :: "bool option \<Rightarrow> error_code \<Rightarrow> error_code" where
  "stream_completion k error =
     (case k of None \<Rightarrow> error | Some final \<Rightarrow> stream_body_completion final error)"

section \<open>State\<close>

record 'd proxying =
  pg_session :: "'d session"
  pg_exchanges :: "exchange list"
  pg_pool :: "upstream_pool option"

text \<open>\<open>gi_identity\<close> is the identity of a connection made in the step.\<close>

record proxying_input =
  gi_session :: session_input
  gi_exchange :: exchange_input
  gi_identity :: nat

section \<open>Calls of an exchange\<close>

fun session_call :: "'d libs \<Rightarrow> session_input \<Rightarrow> exchange_call \<Rightarrow> 'd session_action" where
  "session_call L x (Call_complete result) s = (False, on_proxy_complete L x result s)"
| "session_call L x (Call_header header) s = write_stream_header L x header s"
| "session_call L x (Call_body bytes final) s = write_stream_body x bytes final s"
| "session_call L x (Call_finish failure downstream_failed) s =
     (False, session_run_handler (on_stream_complete x failure downstream_failed) s)"
| "session_call L x Call_abort s = (False, on_proxy_aborted s)"

text \<open>
  The calls of one handler, in order. The input says whether the call throws into the exchange,
  which is the session's doing: an input that says otherwise is not possible, and then there is no
  outcome.
\<close>

fun hear :: "'d libs \<Rightarrow> proxying_input \<Rightarrow> exchange_call list \<Rightarrow> 'd session \<Rightarrow> 'd session option" where
  "hear L x [] s = Some s"
| "hear L x (c # cs) s =
     (case session_call L (gi_session x) c s of (threw, s) \<Rightarrow>
        if c = Call_abort \<or> threw = xi_callback_throws (gi_exchange x) then hear L x cs s else None)"

definition lend_shared :: "'d proxying \<Rightarrow> exchange \<Rightarrow> exchange" where
  "lend_shared p e = e\<lparr>ex_budget := ss_budget (pg_session p), ex_pool := pg_pool p\<rparr>"

text \<open>A handler of an exchange. It changes the budget before it calls the session.\<close>

definition exchange_side ::
  "net_lib \<Rightarrow> 'd libs \<Rightarrow> proxying_input \<Rightarrow> nat \<Rightarrow> exchange_event \<Rightarrow> 'd proxying \<Rightarrow> 'd proxying option" where
  "exchange_side N L x i ev p =
     (if i < length (pg_exchanges p) then
        let e = lend_shared p (pg_exchanges p ! i);
            e' = exchange_step N (lib_beast L) e (gi_exchange x, ev);
            calls = drop (length (ex_calls e)) (ex_calls e') in
        map_option (\<lambda>s. p\<lparr>pg_session := s, pg_exchanges := (pg_exchanges p)[i := e'], pg_pool := ex_pool e'\<rparr>)
          (hear L x calls ((pg_session p)\<lparr>ss_budget := ex_budget e'\<rparr>))
      else None)"

section \<open>Making an exchange\<close>

text \<open>The exchange that \<open>start_proxy_request\<close> constructs for the request that was read.\<close>

definition wanted_exchange :: "'d libs \<Rightarrow> proxying_input \<Rightarrow> request_view \<Rightarrow> 'd proxying \<Rightarrow> exchange result option" where
  "wanted_exchange L x v p =
     (let s = pg_session p in
      case select_http_route (lib_beast L) (ss_config s) (rv_request v) of
        None \<Rightarrow> None
      | Some route \<Rightarrow>
          (case snd (RouteProxyAdmission_try_acquire (ss_admission s) route (si_now (gi_session x))) of
             Inl _ \<Rightarrow> None
           | Inr r \<Rightarrow>
               map_option (\<lambda>upstream. HttpProxyExchange_new (lib_beast L) (gi_exchange x) upstream
                   (rv_request v) (cfg_upstream_tls_context (ss_config s)) (Some (ss_budget s))
                   (True, True, True) (pg_pool p) (gi_identity x))
                 (ar_upstream r)))"

fun request_read :: "'d session_event \<Rightarrow> request_view option" where
  "request_read (Se_read_header error v) = Some v"
| "request_read (Se_read_body error v) = Some v"
| "request_read e = None"

definition with_outcome :: "exchange_outcome \<Rightarrow> proxying_input \<Rightarrow> session_input" where
  "with_outcome outcome x = (gi_session x)\<lparr>si_exchange := outcome\<rparr>"

text \<open>
  A handler of the session. It reaches the construction of an exchange if it would have one
  otherwise. When it drops its exchange, it has cancelled it.
\<close>

definition session_side :: "'d libs \<Rightarrow> proxying_input \<Rightarrow> 'd session_event \<Rightarrow> 'd proxying \<Rightarrow> 'd proxying" where
  "session_side L x e p =
     (let s = pg_session p;
          after = (\<lambda>outcome. session_step L s (with_outcome outcome x, e));
          es = pg_exchanges p in
      if \<not> ss_exchange s \<and> ss_exchange (after Exchange_started) then
        case Option.bind (request_read e) (\<lambda>v. wanted_exchange L x v p) of
          Some (Inr e0) \<Rightarrow>
            (case exchange_start (gi_exchange x) e0 of
               (False, e1) \<Rightarrow> p\<lparr>pg_session := after Exchange_started, pg_exchanges := es @ [e1],
                 pg_pool := ex_pool e0\<rparr>
             | (True, e1) \<Rightarrow> p\<lparr>pg_session := after Exchange_start_throws,
                 pg_exchanges := es @ [exchange_cancel e1], pg_pool := ex_pool e0\<rparr>)
        | Some (Inl _) \<Rightarrow> p\<lparr>pg_session := after Exchange_construction_throws\<rparr>
        | None \<Rightarrow> p\<lparr>pg_session := after Exchange_started\<rparr>
      else
        let s' = after Exchange_started in
        p\<lparr>pg_session := s',
          pg_exchanges := (if ss_exchange s \<and> \<not> ss_exchange s'
            then es[length es - 1 := exchange_cancel (last es)] else es)\<rparr>)"

section \<open>Steps\<close>

text \<open>
  The events: what happens to the session, save the calls of its exchange; the handlers of an
  exchange, save the one that the session resumes; the completion of the write of a header or a
  block; and what others do to the pool.
\<close>

datatype 'd proxying_event =
    Pg_session "'d session_event"
  | Pg_exchange nat exchange_event
  | Pg_written error_code
  | Pg_pool "upstream_pool option"

fun from_exchange :: "'d session_event \<Rightarrow> bool" where
  "from_exchange (Se_complete result) = True"
| "from_exchange Se_abort = True"
| "from_exchange (Se_stream_header header) = True"
| "from_exchange (Se_stream_body bytes final) = True"
| "from_exchange (Se_stream_finish failure downstream_failed) = True"
| "from_exchange (Se_stream_written error) = True"
| "from_exchange e = False"

definition possible :: "'d proxying \<Rightarrow> 'd proxying option \<Rightarrow> 'd proxying" where
  "possible p r = (case r of None \<Rightarrow> p | Some p' \<Rightarrow> p')"

fun proxying_step ::
  "net_lib \<Rightarrow> 'd libs \<Rightarrow> 'd proxying \<Rightarrow> proxying_input \<times> 'd proxying_event \<Rightarrow> 'd proxying" where
  "proxying_step N L p (x, Pg_session e) = (if from_exchange e then p else session_side L x e p)"
| "proxying_step N L p (x, Pg_exchange i ev) =
     (if own_event ev then possible p (exchange_side N L x i ev p) else p)"
| "proxying_step N L p (x, Pg_written error) =
     (case ss_op (pg_session p) of
        Some (So_stream k) \<Rightarrow>
          possible p (exchange_side N L x (length (pg_exchanges p) - 1) (Xe_resume (stream_completion k error))
            (p\<lparr>pg_session := on_stream_written (op_done (pg_session p))\<rparr>))
      | _ \<Rightarrow> p)"
| "proxying_step N L p (x, Pg_pool pool) =
     (if (pool = None) = (pg_pool p = None) then p\<lparr>pg_pool := pool\<rparr> else p)"

definition proxying_run ::
  "net_lib \<Rightarrow> 'd libs \<Rightarrow> 'd proxying \<Rightarrow> (proxying_input \<times> 'd proxying_event) list \<Rightarrow> 'd proxying" where
  "proxying_run N L = run_steps (proxying_step N L)"

definition proxying_new :: "'d session \<Rightarrow> upstream_pool option \<Rightarrow> 'd proxying" where
  "proxying_new s pool = \<lparr>pg_session = s, pg_exchanges = [], pg_pool = pool\<rparr>"

section \<open>What the session does with the calls\<close>

lemma exchange_fields [simp]:
  "ss_exchange (reset_proxy_permit s) = ss_exchange s" "\<not> ss_exchange (reset_exchange s)"
  "ss_stream_writer (reset_proxy_permit s) = ss_stream_writer s"
  "ss_exchange (release_budget p s) = ss_exchange s"
  "ss_stream_writer (release_budget p s) = ss_stream_writer s"
  by (simp_all add: reset_proxy_permit_def reset_exchange_def release_budget_def split: option.split)

lemma observe_exchange [simp]:
  "ss_exchange (fst (observe_finish L x status s)) = ss_exchange s"
  "ss_stream_writer (fst (observe_finish L x status s)) = ss_stream_writer s"
  "ss_exchange (observe_reject reason s) = ss_exchange s"
  "ss_stream_writer (observe_reject reason s) = ss_stream_writer s"
  "ss_exchange (observe_fail stage s) = ss_exchange s"
  "ss_stream_writer (observe_fail stage s) = ss_stream_writer s"
  "ss_exchange (observe_fail_stream stage s) = ss_exchange s"
  by (simp_all add: observe_finish_def observe_reject_def observe_fail_def observe_fail_stream_def split: prod.split)

lemma write_response_exchange [simp]:
  "ss_exchange (snd (write_response L x response permit s)) = ss_exchange s"
  "ss_stream_writer (snd (write_response L x response permit s)) = ss_stream_writer s"
proof -
  obtain t first where t: "observe_finish L x (res_status response) s = (t, first)"
    by (cases "observe_finish L x (res_status response) s")
  have "ss_exchange t = ss_exchange s" "ss_stream_writer t = ss_stream_writer s"
    using observe_exchange(1,2) [of L x "res_status response" s] by (simp_all add: t)
  then show "ss_exchange (snd (write_response L x response permit s)) = ss_exchange s"
    "ss_stream_writer (snd (write_response L x response permit s)) = ss_stream_writer s"
    by (auto simp: write_response_def t Let_def split: bool.split prod.split)
qed

lemma close_socket_exchange: "\<not> ss_finished s \<Longrightarrow> \<not> ss_exchange (close_socket s)"
  "\<not> ss_exchange s \<Longrightarrow> \<not> ss_exchange (close_socket s)"
  by (simp_all add: close_socket_def session_finish_def reset_exchange_def)

lemma run_handler_exchange:
  "\<not> ss_exchange (snd (action s)) \<Longrightarrow> \<not> ss_exchange (session_run_handler action s)"
  by (auto simp: session_run_handler_def close_socket_exchange split: prod.split)

lemma on_proxy_complete_exchange: "\<not> ss_exchange (on_proxy_complete L x result s)"
  by (auto simp: on_proxy_complete_def Let_def intro!: run_handler_exchange split: option.split)

lemma on_proxy_aborted_exchange: "\<not> ss_exchange (on_proxy_aborted s)"
  by (simp add: on_proxy_aborted_def Let_def close_socket_exchange)

lemma graceful_close_exchange: "\<not> ss_exchange s \<Longrightarrow> \<not> ss_exchange (graceful_close x s)"
  by (auto simp: graceful_close_def close_socket_exchange begin_op_def Let_def split: prod.split)

lemma read_request_exchange: "\<not> ss_exchange s \<Longrightarrow> \<not> ss_exchange (snd (read_request x s))"
  by (simp add: read_request_def begin_op_def close_socket_exchange)

lemma on_stream_complete_exchange:
  "\<not> ss_exchange (session_run_handler (on_stream_complete x failure downstream_failed) s)"
  by (rule run_handler_exchange)
    (auto simp: on_stream_complete_def Let_def close_socket_exchange graceful_close_exchange
      read_request_exchange split: option.split)

section \<open>When the session makes an exchange\<close>

definition chosen :: "'d libs \<Rightarrow> session_input \<Rightarrow> 'd session \<Rightarrow> http_request \<Rightarrow> bool" where
  "chosen L x s request \<longleftrightarrow>
     (\<exists>route r u. select_http_route (lib_beast L) (ss_config s) request = Some route \<and>
        snd (RouteProxyAdmission_try_acquire (ss_admission s) route (si_now x)) = Inr r \<and>
        ar_upstream r = Some u)"

lemma answer_exchange [simp]: "ss_exchange (snd (answer L x made s)) = ss_exchange s"
  by (simp add: answer_def split: sum.split)

lemma try_proxy_started:
  assumes "\<not> ss_exchange s" "try_proxy_request L x request route s = (False, s')" "ss_exchange s'"
  shows "si_exchange x = Exchange_started" "ss_stream_writer s' = ss_stream_writer s"
    "\<exists>r u. snd (RouteProxyAdmission_try_acquire (ss_admission s) route (si_now x)) = Inr r \<and> ar_upstream r = Some u"
proof -
  have answered: "\<not> ss_exchange t'"
    if "answer L x made t = (False, t')" "\<not> ss_exchange t" for made and t t' :: "'a session"
    using answer_exchange [of L x made t] that by simp
  obtain a q where q: "RouteProxyAdmission_try_acquire (ss_admission s) route (si_now x) = (a, q)"
    by (cases "RouteProxyAdmission_try_acquire (ss_admission s) route (si_now x)")
  show "si_exchange x = Exchange_started" "ss_stream_writer s' = ss_stream_writer s"
    "\<exists>r u. snd (RouteProxyAdmission_try_acquire (ss_admission s) route (si_now x)) = Inr r \<and> ar_upstream r = Some u"
    using assms answered
    by (cases "si_exchange x"; auto simp: q try_proxy_request_def Let_def split: sum.splits if_splits)+
qed

lemma start_proxy_started:
  assumes "\<not> ss_exchange s" "ss_exchange (start_proxy_request L x request route s)"
  obtains s' where "try_proxy_request L x request route s = (False, s')"
    "start_proxy_request L x request route s = s'"
proof (cases "try_proxy_request L x request route s")
  case (Pair threw s')
  have "\<not> ss_exchange (if threw then close_socket u else u)"
    if "write_response L x response q t = (threw, u)" "\<not> ss_exchange t"
    for response q threw and t u :: "'a session"
    using write_response_exchange(1) [of L x response q t] that by (simp add: close_socket_exchange)
  then have "\<not> threw"
    using assms(2) Pair
    by (auto simp: start_proxy_request_def Let_def close_socket_exchange split: sum.splits prod.splits)
  then show ?thesis
    using Pair that by (simp add: start_proxy_request_def)
qed

lemma process_request_started:
  assumes "\<not> ss_exchange s" "process_request L x s = (False, s')" "ss_exchange s'"
  shows "si_exchange x = Exchange_started \<and> ss_stream_writer s' = ss_stream_writer s \<and>
    (\<exists>v. ss_parser s = Some v \<and> chosen L x s (rv_request v))"
proof -
  let ?s = "s\<lparr>ss_observation := RequestObservation_begin (ss_observation s) (si_now x),
      ss_requests_served := ss_requests_served s + 1\<rparr>"
  have answered: "\<not> ss_exchange t'" if "answer L x made ?s = (False, t')" for made t'
    using answer_exchange [of L x made ?s] that assms(1) by simp
  obtain v route where v: "ss_parser s = Some v" "select_http_route (lib_beast L) (ss_config s) (rv_request v) = Some route"
    "s' = start_proxy_request L x (rv_request v) route (?s\<lparr>ss_phase := Proxying\<rparr>)"
    using assms answered
    by (auto simp: process_request_def Let_def close_socket_exchange
        split: option.splits sum.splits bool.splits if_splits)
  have ex: "ss_exchange (start_proxy_request L x (rv_request v) route (?s\<lparr>ss_phase := Proxying\<rparr>))"
    "\<not> ss_exchange (?s\<lparr>ss_phase := Proxying\<rparr>)"
    using assms(1,3) v(3) by simp_all
  then obtain t where t: "try_proxy_request L x (rv_request v) route (?s\<lparr>ss_phase := Proxying\<rparr>) = (False, t)" "s' = t"
    using start_proxy_started [OF ex(2,1)] v(3) by metis
  show ?thesis
    using try_proxy_started [OF ex(2) t(1)] assms(3) t(2) v(1,2) by (auto simp: chosen_def)
qed

text \<open>Other outcomes of a handler leave the session without an exchange.\<close>

lemma begin_op_exchange [simp]: "ss_exchange (snd (begin_op x op s)) = ss_exchange s"
  by (simp add: begin_op_def)

lemma write_protocol_error_exchange [simp]:
  "ss_exchange (snd (write_protocol_error L x status code message s)) = ss_exchange s"
  by (simp add: write_protocol_error_def Let_def split: sum.split)

lemma reject_buffer_budget_exchange [simp]:
  "ss_exchange (snd (reject_buffer_budget L x request s)) = ss_exchange s"
  by (simp add: reject_buffer_budget_def Let_def split: sum.split)

lemma handle_read_error_exchange: "\<not> ss_exchange s \<Longrightarrow> \<not> ss_exchange (snd (handle_read_error L x error s))"
  by (auto simp: handle_read_error_def Let_def graceful_close_exchange close_socket_exchange)

lemma reset_request_permit_exchange [simp]: "ss_exchange (reset_request_permit s) = ss_exchange s"
  by (simp add: reset_request_permit_def split: option.split)

lemma on_read_header_started:
  assumes s: "\<not> ss_exchange s" and r: "on_read_header L x error s = (False, s')" "ss_exchange s'"
  shows "si_exchange x = Exchange_started \<and> ss_stream_writer s' = ss_stream_writer s \<and>
    (\<exists>v. ss_parser s = Some v \<and> chosen L x s (rv_request v))"
proof -
  define t where "t = (case ss_parser s of None \<Rightarrow> s
      | Some v \<Rightarrow> s\<lparr>ss_observation := RequestObservation_exclude (ss_observation s)
          (is_metrics_target (ss_config s) (req_target (rv_request v)))\<rparr>)"
  have t: "ss_exchange t = ss_exchange s" "ss_parser t = ss_parser s" "ss_config t = ss_config s"
    "ss_admission t = ss_admission s" "ss_stream_writer t = ss_stream_writer s"
    by (simp_all add: t_def split: option.split)
  have "on_read_header L x error s = process_request L x t \<or> \<not> ss_exchange (snd (on_read_header L x error s))"
    unfolding on_read_header_def t_def [symmetric] Let_def
    using s t(1) by (auto simp: handle_read_error_exchange close_socket_exchange split: option.split prod.split)
  then have "process_request L x t = (False, s')"
    using r by auto
  then show ?thesis
    using process_request_started [of t L x s'] s r(2) t by (simp add: chosen_def)
qed

lemma on_read_body_started:
  assumes s: "\<not> ss_exchange s" and r: "on_read_body L x error s = (False, s')" "ss_exchange s'"
  shows "si_exchange x = Exchange_started \<and> ss_stream_writer s' = ss_stream_writer s \<and>
    (\<exists>v. ss_parser s = Some v \<and> chosen L x s (rv_request v))"
proof -
  have "(\<exists>b q. on_read_body L x error s = process_request L x (s\<lparr>ss_budget := b, ss_request_permit := q\<rparr>)) \<or>
      \<not> ss_exchange (snd (on_read_body L x error s))"
    unfolding on_read_body_def Let_def
    using s by (auto simp: handle_read_error_exchange close_socket_exchange split: option.split prod.split)
  then obtain b q where "process_request L x (s\<lparr>ss_budget := b, ss_request_permit := q\<rparr>) = (False, s')"
    using r by auto
  then show ?thesis
    using process_request_started [of "s\<lparr>ss_budget := b, ss_request_permit := q\<rparr>" L x s'] s r(2)
    by (simp add: chosen_def)
qed

lemma handler_started:
  assumes "ss_exchange (session_run_handler action s)" "session_inv (session_run_handler action s)"
  obtains s' where "action s = (False, s')" "session_run_handler action s = s'"
proof (cases "action s")
  case (Pair threw s')
  have "\<not> threw"
  proof
    assume threw
    then have closed: "ss_exchange (close_socket s')" "session_inv (close_socket s')"
      using Pair assms by (simp_all add: session_run_handler_def)
    then have "close_socket s' = s'"
      using close_socket_exchange(1) [of s'] by (auto simp: close_socket_def)
    then show False
      using closed close_socket_exchange(1) [of s'] by (auto simp: session_inv_def sane_def)
  qed
  then show ?thesis
    using Pair that by (simp add: session_run_handler_def)
qed

lemma on_handshake_exchange: "\<not> ss_exchange s \<Longrightarrow> \<not> ss_exchange (snd (on_handshake x error s))"
  using read_request_exchange [of "s\<lparr>ss_tls_established := True\<rparr>" x]
  by (simp add: on_handshake_def close_socket_exchange)

lemma session_stop_exchange: "\<not> ss_exchange (session_stop s) \<or> ss_finished s"
  by (simp add: session_stop_def session_finish_def)

lemma on_write_exchange: "\<not> ss_exchange s \<Longrightarrow> \<not> ss_exchange (snd (on_write x error close s))"
  by (auto simp: on_write_def Let_def close_socket_exchange graceful_close_exchange read_request_exchange
      split: prod.split)

lemma session_step_started:
  assumes s: "session_inv s" "\<not> ss_exchange s" and e: "\<not> from_exchange e"
    and s': "session_inv (session_step L s (x, e))" "ss_exchange (session_step L s (x, e))"
  shows "\<exists>v. request_read e = Some v \<and> si_exchange x = Exchange_started \<and>
    \<not> ss_stream_writer (session_step L s (x, e)) \<and> chosen L x s (rv_request v)"
proof -
  have same: "ss_exchange (op_done s) = ss_exchange s" "ss_exchange (got_request v s) = ss_exchange s"
    "ss_config (got_request v s) = ss_config s" "ss_admission (got_request v s) = ss_admission s"
    "ss_stream_writer (got_request v s) = ss_stream_writer s"
    "ss_parser (got_request v s) = Some v' \<Longrightarrow> v' = v" for v v'
    by (auto simp: op_done_def got_request_def split: option.splits)
  have live: "\<not> ss_finished s"
    using s' session_step_finished [of s L x e] s(1) by (auto simp: session_inv_def sane_def)
  have reading: "\<not> ss_stream_writer s" if "ss_op s = Some So_read_header \<or> ss_op s = Some So_read_body"
    using that s(1) live by (auto simp: session_inv_def engaged_def reading_def quiet_def)
  show ?thesis
  proof (cases e)
    case (Se_read_header error v)
    then have op: "ss_op s = Some So_read_header"
      using s' s(2) by (auto split: if_splits)
    then have step: "session_step L s (x, e) = session_run_handler (on_read_header L x error) (got_request v s)"
      using Se_read_header by simp
    obtain t where "on_read_header L x error (got_request v s) = (False, t)" "session_step L s (x, e) = t"
      using handler_started [of "on_read_header L x error" "got_request v s"] s' unfolding step by blast
    then obtain v' where v': "si_exchange x = Exchange_started" "ss_stream_writer t = ss_stream_writer (got_request v s)"
        "ss_parser (got_request v s) = Some v'" "chosen L x (got_request v s) (rv_request v')"
        "session_step L s (x, e) = t"
      using on_read_header_started [of "got_request v s" L x error t] s(2) s'(2) same(2) by auto
    then show ?thesis
      using same(3-5) same(6) [OF v'(3)] reading op by (simp add: Se_read_header chosen_def del: session_step.simps)
  next
    case (Se_read_body error v)
    then have op: "ss_op s = Some So_read_body"
      using s' s(2) by (auto split: if_splits)
    then have step: "session_step L s (x, e) = session_run_handler (on_read_body L x error) (got_request v s)"
      using Se_read_body by simp
    obtain t where "on_read_body L x error (got_request v s) = (False, t)" "session_step L s (x, e) = t"
      using handler_started [of "on_read_body L x error" "got_request v s"] s' unfolding step by blast
    then obtain v' where v': "si_exchange x = Exchange_started" "ss_stream_writer t = ss_stream_writer (got_request v s)"
        "ss_parser (got_request v s) = Some v'" "chosen L x (got_request v s) (rv_request v')"
        "session_step L s (x, e) = t"
      using on_read_body_started [of "got_request v s" L x error t] s(2) s'(2) same(2) by auto
    then show ?thesis
      using same(3-5) same(6) [OF v'(3)] reading op by (simp add: Se_read_body chosen_def del: session_step.simps)
  qed (use s(2) s'(2) e same live in \<open>auto simp: run_handler_exchange on_handshake_exchange on_write_exchange on_shutdown_def
      close_socket_exchange session_begin_drain_def session_stop_def session_finish_def Let_def
      split: if_splits option.splits session_op.splits list.splits\<close>)
qed

section \<open>The session and its exchange agree\<close>

definition streaming_op :: "'d session \<Rightarrow> bool" where
  "streaming_op s \<longleftrightarrow> (\<exists>k. ss_op s = Some (So_stream k))"

text \<open>
  The exchange waits to be resumed exactly while the session writes a header or a block, save when
  it is about to be resumed (\<open>rs\<close>).
\<close>

definition linked :: "bool \<Rightarrow> 'd session \<Rightarrow> exchange \<Rightarrow> bool" where
  "linked rs s e \<longleftrightarrow>
     waiting e \<and> staged e \<and> ss_stream_writer s = ex_stream_started e \<and>
     (streaming_op s \<longleftrightarrow> resuming e \<and> \<not> rs) \<and> (rs \<longrightarrow> resuming e)"

lemma exchange_open:
  assumes "session_inv s" "ss_exchange s"
  shows "proxied s" "\<not> ss_finished s" "\<not> ss_stopping s" "ss_op s = None \<or> streaming_op s"
  using assms by (auto simp: session_inv_def engaged_def sane_def quiet_def reading_def proxied_def streaming_op_def
      split: option.splits session_op.splits)

lemma complete_call:
  assumes "session_inv s" "ss_exchange s" "\<not> ss_stream_writer s" "beast_closes (lib_beast L)"
  shows "session_inv (on_proxy_complete L x result s)"
  using session_step_inv [of s L "(x, Se_complete result)"] assms by simp

lemma finish_call:
  assumes "session_inv s" "ss_exchange s" "ss_stream_writer s" "ss_op s = None \<or> failure \<noteq> None"
  shows "session_inv (session_run_handler (on_stream_complete x failure downstream_failed) s)"
  using exchange_open(1) [OF assms(1,2)] assms(3) by (intro run_handler_sound on_stream_complete_sound)

text \<open>After a header or a block, the session writes it, or the call has thrown.\<close>

definition streams :: "bool \<times> 'd session \<Rightarrow> bool" where
  "streams r \<longleftrightarrow>
     (if fst r then sane (snd r) \<and> \<not> ss_finished (snd r)
      else session_inv (snd r) \<and> ss_exchange (snd r) \<and> ss_stream_writer (snd r) \<and> streaming_op (snd r))"

lemma header_call:
  assumes "session_inv s" "ss_exchange s" "\<not> ss_stream_writer s" "beast_closes (lib_beast L)"
  shows "streams (write_stream_header L x header s)"
proof -
  have "sound (write_stream_header L x header s)"
    using exchange_open(1) [OF assms(1,2)] assms(3,4) by (rule write_stream_header_sound)
  moreover have "ss_exchange s' \<and> ss_stream_writer s' \<and> streaming_op s'"
    if "write_stream_header L x header s = (False, s')" for s'
    using that exchange_open(2,3) [OF assms(1,2)] assms(2)
    by (auto simp: write_stream_header_def begin_op_def streaming_op_def Let_def split: if_splits)
  ultimately show ?thesis
    by (cases "write_stream_header L x header s") (auto simp: streams_def sound_def)
qed

lemma body_call:
  assumes "session_inv s" "ss_exchange s" "ss_stream_writer s"
  shows "streams (write_stream_body x bytes final s)"
proof -
  have "sound (write_stream_body x bytes final s)"
    using exchange_open(1) [OF assms(1,2)] assms(3) by (rule write_stream_body_sound)
  then show ?thesis
    using exchange_open(2,3) [OF assms(1,2)] assms(2,3)
    by (auto simp: streams_def sound_def write_stream_body_def begin_op_def streaming_op_def)
qed

lemma spoken_call:
  assumes "session_inv s" "ss_exchange s" "linked rs s e" "beast_closes (lib_beast L)"
    and "\<not> terminal c" "speech rd rs e c"
  shows "streams (session_call L x c s)"
  using assms by (cases c) (simp_all add: header_call body_call linked_def)

lemma terminal_call:
  assumes s: "session_inv s" "ss_exchange s" "linked rs s e" "beast_closes (lib_beast L)"
    and c: "terminal c" "speech rd rs e c" and call: "session_call L x c s = (threw, s')"
  shows "session_inv s'" "\<not> ss_exchange s'"
proof -
  have "ss_op s = None" if "rs"
    using that s(3) exchange_open(4) [OF s(1,2)] by (auto simp: linked_def)
  then show "session_inv s'" "\<not> ss_exchange s'"
    using c call s complete_call [OF s(1,2) _ s(4), of x] finish_call [OF s(1,2)]
    by (cases c; auto simp: linked_def on_proxy_complete_exchange on_stream_complete_exchange)+
qed

lemma heard:
  assumes s: "session_inv s" "ss_exchange s" "linked rs s e" "beast_closes (lib_beast L)"
    and turn: "turn (gi_exchange x) rs e e' cs" and hear: "hear L x cs s = Some s'"
  shows "session_inv s' \<and> (if ss_exchange s' then linked False s' e' else over e')"
  using turn
proof (cases rule: turn_cases)
  case silent
  then show ?thesis
    using hear s by (simp add: linked_def)
next
  case (call c)
  then have "session_call L (gi_session x) c s = (False, s')"
    using hear by (auto split: prod.splits if_splits)
  then have "streams (False, s')"
    using spoken_call [OF s call(2,3), of "gi_session x"] by simp
  then show ?thesis
    using call by (simp add: streams_def linked_def)
next
  case abort
  then show ?thesis
    using hear s(1) on_proxy_aborted_inv [of s] on_proxy_aborted_exchange [of s] by (auto simp: session_inv_def)
next
  case (ended c)
  then show ?thesis
    using hear terminal_call [OF s ended(2,3), of "gi_session x"] by (auto split: prod.splits if_splits)
next
  case (threw c)
  then obtain t where t: "session_call L (gi_session x) c s = (True, t)" "s' = on_proxy_aborted t"
    using hear by (cases c) (auto split: prod.splits if_splits)
  then have "\<not> terminal c"
    by (cases c) auto
  then have "streams (True, t)"
    using spoken_call [OF s _ threw(3), of "gi_session x"] t(1) by simp
  then show ?thesis
    using t(2) threw(4) on_proxy_aborted_exchange [of t] by (simp add: streams_def on_proxy_aborted_inv)
qed

section \<open>The invariant\<close>

text \<open>Only the last exchange of a session may still run, and it does while the session holds it.\<close>

definition joined :: "bool \<Rightarrow> 'd proxying \<Rightarrow> bool" where
  "joined rs p \<longleftrightarrow>
     (let s = pg_session p; es = pg_exchanges p in
      session_inv s \<and>
      (if ss_exchange s then es \<noteq> [] \<and> linked rs s (last es) \<and> list_all over (butlast es)
       else list_all over es))"

lemma reserved_shared [simp]: "reserved (lend_shared p e) = reserved e"
proof -
  have "body_reserved (lend_shared p e) = body_reserved e" "block_reserved (lend_shared p e) = block_reserved e"
    by (simp_all add: lend_shared_def body_reserved_def block_reserved_def)
  moreover have "ex_op (lend_shared p e) = ex_op e"
    by (simp add: lend_shared_def)
  ultimately show ?thesis
    by (simp add: reserved_def cong: option.case_cong exchange_op.case_cong bool.case_cong)
qed

lemma lend_shared_fields [simp]:
  "ex_calls (lend_shared p e) = ex_calls e" "ex_op (lend_shared p e) = ex_op e"
  "ex_stream_started (lend_shared p e) = ex_stream_started e"
  "ex_generation (lend_shared p e) = ex_generation e" "ex_waits (lend_shared p e) = ex_waits e"
  "over (lend_shared p e) = over e" "active (lend_shared p e) = active e"
  by (simp_all add: lend_shared_def over_def active_def pending_def report_def)

lemma lend_shared_frame [simp]:
  "waiting (lend_shared p e) = waiting e" "staged (lend_shared p e) = staged e"
  "linked rs s (lend_shared p e) = linked rs s e" "resuming (lend_shared p e) = resuming e"
  by (simp_all add: linked_def waiting_def staged_def resuming_def
      cong: option.case_cong exchange_op.case_cong bool.case_cong)

lemma budget_frame [simp]:
  "streaming_op (s\<lparr>ss_budget := b\<rparr>) = streaming_op s" "linked rs (s\<lparr>ss_budget := b\<rparr>) e = linked rs s e"
  by (simp_all add: linked_def streaming_op_def)

lemma over_update: "list_all over es \<Longrightarrow> over e \<Longrightarrow> list_all over (es[i := e])"
  using set_update_subset_insert [of es i e] by (auto simp: list_all_iff)

lemma over_last:
  "list_all over (butlast es) \<Longrightarrow> over e \<Longrightarrow> list_all over (es[length es - 1 := e])"
  by (cases es rule: rev_cases) simp_all

text \<open>An exchange that the session does not hold has ended, and a step of it changes nothing else.\<close>

lemma joined_over:
  assumes "joined rs p" "i < length (pg_exchanges p)"
    and "\<not> (ss_exchange (pg_session p) \<and> i = length (pg_exchanges p) - 1)"
  shows "over (pg_exchanges p ! i)"
proof (cases "ss_exchange (pg_session p)")
  case True
  then have "i < length (butlast (pg_exchanges p))" "list_all over (butlast (pg_exchanges p))"
    using assms by (auto simp: joined_def Let_def)
  then show ?thesis
    by (metis list_all_length nth_butlast)
qed (use assms in \<open>simp add: joined_def Let_def list_all_length\<close>)

lemma joined_replace:
  assumes p: "joined rs p" and i: "i < length (pg_exchanges p)"
    and other: "\<not> (ss_exchange (pg_session p) \<and> i = length (pg_exchanges p) - 1)" and e: "over e"
  shows "joined rs (p\<lparr>pg_exchanges := (pg_exchanges p)[i := e]\<rparr>)"
proof -
  let ?es = "pg_exchanges p"
  have "ss_exchange (pg_session p) \<Longrightarrow>
      last (?es[i := e]) = last ?es \<and> butlast (?es[i := e]) = (butlast ?es)[i := e]"
    using i other by (cases ?es rule: rev_cases) (auto simp: butlast_append list_update_append)
  then show ?thesis
    using p over_update [OF _ e] by (auto simp: joined_def Let_def)
qed

lemma exchange_side_joined:
  assumes p: "joined rs p" and B: "beast_closes (lib_beast L)"
    and step: "exchange_side N L x i ev p = Some p'"
    and turns: "\<And>e. ss_exchange (pg_session p) \<Longrightarrow> i = length (pg_exchanges p) - 1 \<Longrightarrow>
      linked rs (pg_session p) e \<Longrightarrow> \<exists>cs. turn (gi_exchange x) rs e (exchange_step N (lib_beast L) e (gi_exchange x, ev)) cs"
    and rs: "rs \<Longrightarrow> i = length (pg_exchanges p) - 1"
  shows "joined False p'"
proof -
  let ?s = "pg_session p" and ?es = "pg_exchanges p"
  define e where "e = lend_shared p (?es ! i)"
  define e' where "e' = exchange_step N (lib_beast L) e (gi_exchange x, ev)"
  obtain s' where i: "i < length ?es"
    and s': "hear L x (drop (length (ex_calls e)) (ex_calls e')) (?s\<lparr>ss_budget := ex_budget e'\<rparr>) = Some s'"
    and p': "pg_session p' = s'" "pg_exchanges p' = ?es[i := e']"
    using step by (auto simp: exchange_side_def Let_def e_def [symmetric] e'_def [symmetric] split: if_splits)
  show ?thesis
  proof (cases "ss_exchange ?s \<and> i = length ?es - 1")
    case True
    then have last: "?es ! i = last ?es"
      using i by (cases ?es rule: rev_cases) auto
    then have e: "linked rs ?s e" and rest: "list_all over (butlast ?es)" and inv: "session_inv ?s"
      using p True by (simp_all add: joined_def Let_def e_def)
    obtain cs where "turn (gi_exchange x) rs e e' cs"
      using turns [OF _ _ e] True unfolding e'_def by blast
    moreover from this have "drop (length (ex_calls e)) (ex_calls e') = cs"
      by (simp add: turn_def)
    ultimately have "session_inv s' \<and> (if ss_exchange s' then linked False s' e' else over e')"
      using heard [of "?s\<lparr>ss_budget := ex_budget e'\<rparr>" rs e L x e' cs s'] s' inv True e B by simp
    moreover have "last (?es[i := e']) = e'" "butlast (?es[i := e']) = butlast ?es" "?es \<noteq> []"
      using True i by (cases ?es rule: rev_cases; auto)+
    ultimately show ?thesis
      using over_last [OF rest, of e'] True rest p' by (simp add: joined_def)
  next
    case False
    have "over (?es ! i)"
      using joined_over [OF p i False] .
    then have e': "over e'" "drop (length (ex_calls e)) (ex_calls e') = []"
      using over_step [of e N "lib_beast L" "(gi_exchange x, ev)"] by (simp_all add: e_def e'_def)
    then have s: "s' = ?s\<lparr>ss_budget := ex_budget e'\<rparr>"
      using s' by simp
    show ?thesis
      using joined_replace [OF p i False e'(1)] rs p' s False by (cases rs) (auto simp: joined_def Let_def)
  qed
qed

lemma session_step_kept:
  assumes "session_inv s" "ss_exchange s" "\<not> from_exchange e" "ss_exchange (session_step L s (x, e))"
  shows "ss_stream_writer (session_step L s (x, e)) = ss_stream_writer s \<and>
    ss_op (session_step L s (x, e)) = ss_op s"
  using assms exchange_open(2,4) [OF assms(1,2)]
  by (cases e) (auto simp: streaming_op_def session_begin_drain_def session_stop_def session_finish_def
      release_budget_def Let_def split: if_splits list.splits)

text \<open>A new exchange, and one whose start threw.\<close>

lemma new_active:
  assumes "HttpProxyExchange_new B x0 selected request context budget callbacks pool ident = Inr e"
  shows "active e" "\<not> ex_stream_started e"
  using assms
  by (auto simp: HttpProxyExchange_new_def active_def pending_def report_def
      ProxyCompletionState_new_def Let_def elim!: bind_result_InrE split: option.splits prod.splits if_splits)

lemma start_staged:
  assumes "\<not> ex_stream_started e" "exchange_start x e = (False, e')"
  shows "staged e' \<and> \<not> resuming e' \<and> \<not> ex_stream_started e'"
  using assms
  by (auto simp: exchange_start_def write_request_def and_then_def begin_deadline_def initiate_def
      staged_def resuming_def Let_def split: if_splits)

lemma start_active:
  assumes "active e"
  shows "active (snd (exchange_start x e))"
  using assms
  by (auto simp: exchange_start_def write_request_def and_then_def begin_deadline_def initiate_def
      active_def pending_def report_def Let_def)

lemma cancel_active: "active e \<Longrightarrow> over (exchange_cancel e)"
  by (auto simp: exchange_cancel_def ProxyCompletionState_claim_def put_completion_def
      cancel_operations_def close_upstream_def state_defs)

lemma new_exchange:
  assumes new: "HttpProxyExchange_new B x0 selected request context budget callbacks pool ident = Inr e0"
    and start: "exchange_start x e0 = (threw, e1)"
  shows "if threw then over (exchange_cancel e1)
    else waiting e1 \<and> staged e1 \<and> \<not> resuming e1 \<and> \<not> ex_stream_started e1"
  using start_active [OF new_active(1) [OF new], of x] start started_waiting [OF new, of x e1]
    start_staged [OF new_active(2) [OF new], of x e1] by (cases threw) (auto simp: cancel_active)

lemma chosen_wanted:
  assumes "chosen L (gi_session x) (pg_session p) (rv_request v)"
  obtains upstream where "wanted_exchange L x v p = Some (HttpProxyExchange_new (lib_beast L) (gi_exchange x) upstream
    (rv_request v) (cfg_upstream_tls_context (ss_config (pg_session p))) (Some (ss_budget (pg_session p)))
    (True, True, True) (pg_pool p) (gi_identity x))"
  using assms by (auto simp: chosen_def wanted_exchange_def Let_def)

lemma outcome_frame [simp]:
  "si_exchange (with_outcome outcome x) = outcome"
  "chosen L (with_outcome outcome x) s request = chosen L (gi_session x) s request"
  "writes_start (with_outcome outcome x, e) = writes_start (gi_session x, e)"
  by (cases e; simp add: with_outcome_def chosen_def)+

lemma session_side_makes:
  assumes p: "joined False p" "\<not> ss_exchange (pg_session p)" and e: "\<not> from_exchange e"
    and w: "beast_closes (lib_beast L)" "writes_start (gi_session x, e)"
    and made: "ss_exchange (session_step L (pg_session p) (with_outcome Exchange_started x, e))"
  shows "joined False (session_side L x e p)"
proof -
  define after where "after = (\<lambda>outcome. session_step L (pg_session p) (with_outcome outcome x, e))"
  let ?s = "pg_session p" and ?es = "pg_exchanges p"
  have inv: "session_inv ?s" and es: "list_all over ?es"
    using p by (simp_all add: joined_def Let_def)
  have after: "session_inv (after outcome)" for outcome
    unfolding after_def using inv w by (intro session_step_inv) simp_all
  note started = session_step_started [OF inv p(2) e]
  have throws: "\<not> ss_exchange (after outcome)" if "outcome \<noteq> Exchange_started" for outcome
    using started [of L "with_outcome outcome x"] after [of outcome] that unfolding after_def by auto
  obtain v where v: "request_read e = Some v" "\<not> ss_stream_writer (after Exchange_started)"
      "chosen L (gi_session x) ?s (rv_request v)"
    using started [of L "with_outcome Exchange_started x"] after [of Exchange_started] made unfolding after_def by auto
  have made': "ss_exchange (after Exchange_started)"
    using made by (simp add: after_def)
  have quiet: "\<not> streaming_op (after Exchange_started)"
    using exchange_open(1) [OF after made'] v(2) by (simp add: proxied_def streaming_op_def)
  obtain upstream where u: "wanted_exchange L x v p = Some (HttpProxyExchange_new (lib_beast L) (gi_exchange x) upstream
      (rv_request v) (cfg_upstream_tls_context (ss_config ?s)) (Some (ss_budget ?s)) (True, True, True) (pg_pool p) (gi_identity x))"
    (is "_ = Some ?new") using chosen_wanted [OF v(3)] .
  have side: "session_side L x e p =
      (case ?new of
         Inr e0 \<Rightarrow>
           (case exchange_start (gi_exchange x) e0 of
              (False, e1) \<Rightarrow> p\<lparr>pg_session := after Exchange_started, pg_exchanges := ?es @ [e1],
                pg_pool := ex_pool e0\<rparr>
            | (True, e1) \<Rightarrow> p\<lparr>pg_session := after Exchange_start_throws,
                pg_exchanges := ?es @ [exchange_cancel e1], pg_pool := ex_pool e0\<rparr>)
       | Inl _ \<Rightarrow> p\<lparr>pg_session := after Exchange_construction_throws\<rparr>)"
    using p(2) made v(1) u unfolding session_side_def Let_def after_def by (simp split: sum.split)
  show ?thesis
  proof (cases ?new)
    case (Inl err)
    then show ?thesis
      unfolding side using after throws es by (simp add: joined_def)
  next
    case (Inr e0)
    obtain threw e1 where e1: "exchange_start (gi_exchange x) e0 = (threw, e1)"
      by (cases "exchange_start (gi_exchange x) e0")
    show ?thesis
      unfolding side Inr using e1 new_exchange [OF Inr e1] after throws made' es v(2) quiet
      by (cases threw) (simp_all add: joined_def linked_def)
  qed
qed

lemma session_side_joined:
  assumes p: "joined False p" and e: "\<not> from_exchange e"
    and w: "beast_closes (lib_beast L)" "writes_start (gi_session x, e)"
  shows "joined False (session_side L x e p)"
proof -
  let ?s = "pg_session p" and ?es = "pg_exchanges p"
  define s' where "s' = session_step L ?s (with_outcome Exchange_started x, e)"
  have inv: "session_inv ?s"
    using p by (simp add: joined_def Let_def)
  then have inv': "session_inv s'"
    unfolding s'_def using w by (intro session_step_inv) simp_all
  show ?thesis
  proof (cases "\<not> ss_exchange ?s \<and> ss_exchange s'")
    case True
    then show ?thesis
      using session_side_makes [OF p _ e w] by (simp add: s'_def)
  next
    case False
    then have side: "session_side L x e p = p\<lparr>pg_session := s', pg_exchanges :=
        (if ss_exchange ?s \<and> \<not> ss_exchange s' then ?es[length ?es - 1 := exchange_cancel (last ?es)] else ?es)\<rparr>"
      unfolding session_side_def Let_def s'_def [symmetric] by (intro if_not_P)
    show ?thesis
    proof (cases "ss_exchange ?s")
      case held: True
      then have es: "?es \<noteq> []" "linked False ?s (last ?es)" "list_all over (butlast ?es)"
        using p by (simp_all add: joined_def Let_def)
      have "over (exchange_cancel (last ?es))"
        using es(2) by (simp add: linked_def waiting_def cancel_active)
      moreover have "ss_exchange s' \<Longrightarrow> linked False s' (last ?es)"
        using session_step_kept [OF inv held e, of L "with_outcome Exchange_started x"] es(2)
        by (simp add: s'_def linked_def streaming_op_def)
      ultimately show ?thesis
        unfolding side using held inv' es over_last by (simp add: joined_def)
    next
      case none: False
      then show ?thesis
        unfolding side using False inv' p by (simp add: joined_def Let_def)
    qed
  qed
qed

lemma possible_joined: "joined rs p \<Longrightarrow> (\<And>p'. r = Some p' \<Longrightarrow> joined rs p') \<Longrightarrow> joined rs (possible p r)"
  by (simp add: possible_def split: option.split)

lemma own_joined:
  assumes p: "joined False p" and B: "beast_closes (lib_beast L)" and own: "own_event ev"
  shows "joined False (possible p (exchange_side N L x i ev p))"
proof (rule possible_joined [OF p])
  fix p' assume "exchange_side N L x i ev p = Some p'"
  then show "joined False p'"
    by (rule exchange_side_joined [OF p B]) (use own own_turn in \<open>auto simp: linked_def\<close>)
qed

lemma written_joined:
  assumes p: "joined False p" and B: "beast_closes (lib_beast L)" and op: "ss_op (pg_session p) = Some (So_stream k)"
  shows "joined False (possible p (exchange_side N L x (length (pg_exchanges p) - 1) (Xe_resume error)
    (p\<lparr>pg_session := on_stream_written (op_done (pg_session p))\<rparr>)))"
proof (rule possible_joined [OF p])
  let ?q = "p\<lparr>pg_session := on_stream_written (op_done (pg_session p))\<rparr>"
  fix p' assume step: "exchange_side N L x (length (pg_exchanges p) - 1) (Xe_resume error) ?q = Some p'"
  have "session_inv (on_stream_written (op_done (pg_session p)))"
    using session_step_inv [of "pg_session p" L "(gi_session x, Se_stream_written None)"] p op B
    by (simp add: joined_def Let_def)
  then have q: "joined True ?q"
    using p op by (auto simp: joined_def linked_def streaming_op_def on_stream_written_def op_done_def Let_def)
  show "joined False p'"
    by (rule exchange_side_joined [OF q B step]) (use resume_turn in \<open>auto simp: linked_def\<close>)
qed

fun proxying_input_ok :: "proxying_input \<times> 'd proxying_event \<Rightarrow> bool" where
  "proxying_input_ok (x, Pg_session e) = writes_start (gi_session x, e)"
| "proxying_input_ok (x, e) = True"

lemma proxying_step_joined:
  assumes p: "joined False p" and B: "beast_closes (lib_beast L)" and ok: "proxying_input_ok (x, ev)"
  shows "joined False (proxying_step N L p (x, ev))"
proof (cases ev)
  case (Pg_session e)
  then show ?thesis
    using p B ok by (simp add: session_side_joined)
next
  case (Pg_exchange i e)
  then show ?thesis
    using p B by (simp add: own_joined)
next
  case (Pg_written error)
  then show ?thesis
    using p B by (simp add: written_joined [simplified] split: option.split session_op.split)
next
  case (Pg_pool pool)
  then show ?thesis
    using p by (simp add: joined_def)
qed

interpretation proxyings: step_invariant
  "\<lambda>p e. if proxying_input_ok e then proxying_step N L p e else p"
  "\<lambda>p. beast_closes (lib_beast L) \<longrightarrow> joined False p" for N L
  by unfold_locales (auto simp: proxying_step_joined)

lemma proxying_run_joined:
  assumes "joined False p" and "beast_closes (lib_beast L)" and "list_all proxying_input_ok es"
  shows "joined False (proxying_run N L p es)"
proof -
  have "proxying_run N L p es =
      run_steps (\<lambda>p e. if proxying_input_ok e then proxying_step N L p e else p) p es"
    unfolding proxying_run_def run_steps_def
    by (rule foldl_cong) (use assms(3) in \<open>auto simp: list_all_iff\<close>)
  then show ?thesis
    using proxyings.run_inv [of L p N es] assms by simp
qed

text \<open>When the deadline of a running exchange passes, the session is without an exchange.\<close>

lemma deadline_releases:
  assumes p: "joined False p" and B: "beast_closes (lib_beast L)" and held: "ss_exchange (pg_session p)"
    and x: "\<not> xi_callback_throws (gi_exchange x)"
    and n: "n = length (pg_exchanges p) - 1"
    and p': "p' = proxying_step N L p (x, Pg_exchange n (Xe_deadline (ex_generation (pg_exchanges p ! n)) None))"
  shows "\<not> ss_exchange (pg_session p')"
proof -
  let ?s = "pg_session p"
  define e where "e = lend_shared p (pg_exchanges p ! n)"
  define ev where "ev = Xe_deadline (ex_generation (pg_exchanges p ! n)) None"
  define e' where "e' = exchange_step N (lib_beast L) e (gi_exchange x, ev)"
  have es: "pg_exchanges p \<noteq> []" "linked False ?s (last (pg_exchanges p))"
    using p held by (simp_all add: joined_def Let_def)
  then have n: "n < length (pg_exchanges p)" "pg_exchanges p ! n = last (pg_exchanges p)"
    by (simp_all add: n last_conv_nth)
  then have e: "linked False ?s e" "waiting e" "staged e" "ev = Xe_deadline (ex_generation e) None"
    using es(2) by (simp_all add: e_def ev_def) (simp_all add: linked_def)
  note wait = waiting_entry(2) [OF e(2)]
  obtain cs where cs: "turn (gi_exchange x) False e e' cs"
    using own_turn [OF e(2,3), of ev] e(4) unfolding e'_def by auto
  have ended: "over e'"
    using deadline_step_ok(1) [OF e(2) wait, of None "lib_beast L" "gi_exchange x"] wait e(4) by (simp add: e'_def finished_def)
  then have "\<not> waiting e'"
    by (simp add: over_def waiting_def active_def pending_def)
  then obtain c where c: "cs = [c]" "terminal c"
    using cs x by (auto simp: turn_def spoken_def)
  then obtain s' where s': "hear L x cs (?s\<lparr>ss_budget := ex_budget e'\<rparr>) = Some s'"
    using x by (cases c) auto
  moreover have "session_inv (?s\<lparr>ss_budget := ex_budget e'\<rparr>)"
    using p by (simp add: joined_def Let_def)
  ultimately have "\<not> ss_exchange s'"
    using heard [of "?s\<lparr>ss_budget := ex_budget e'\<rparr>" False e L x e' cs s'] held e(1) cs B \<open>\<not> waiting e'\<close>
    by (auto simp: linked_def)
  moreover have "p' = possible p (exchange_side N L x n ev p)"
    by (simp add: p' ev_def)
  then have "pg_session p' = s'"
    using n(1) s' cs by (simp add: exchange_side_def Let_def e_def [symmetric] e'_def [symmetric] turn_def possible_def)
  ultimately show ?thesis
    by simp
qed

section \<open>Theorems\<close>

text \<open>
  C4. A client connection and the exchanges with upstream servers it makes stay in step. For every
  session that was started and every interleaving of its own operations, the handlers and deadlines
  of its exchanges, completed writes, drains and stops, with any errors and any calls throwing, save
  that starting a write does not throw while a request just read is answered: the exchanges that the
  session no longer holds have all ended, with their connections given back or closed, so that a
  closed session leaves none behind; the session holds its last exchange exactly while that has not
  ended, and then the exchange has an operation and its deadline outstanding, a stream was begun by
  both or by neither, and the session is writing a header or a block exactly when the exchange waits
  for it; when that deadline passes, the session lets go of the exchange and closes or goes on with
  an operation of its own, so that no client waits forever for an upstream server.
\<close>

theorem proxying_lifecycle:
  assumes "HttpSession_new config proxies admission budget metrics connections on_close tls = Inr s0"
    and "session_start x s0 = (False, s1)" and "beast_closes (lib_beast L)"
    and "list_all proxying_input_ok es" and "p = proxying_run N L (proxying_new s1 pool) es"
    and "s = pg_session p" and "n = length (pg_exchanges p) - 1"
    and "p' = proxying_step N L p (x', Pg_exchange n (Xe_deadline (ex_generation (pg_exchanges p ! n)) None))"
  shows "(\<forall>i < length (pg_exchanges p). ss_exchange s \<and> i = n \<or> over (pg_exchanges p ! i)) \<and>
    (ss_finished s \<longrightarrow> \<not> ss_exchange s) \<and> (\<not> ss_finished s \<longrightarrow> ss_op s \<noteq> None \<or> ss_exchange s) \<and>
    (ss_exchange s \<longrightarrow> n < length (pg_exchanges p) \<and> \<not> over (pg_exchanges p ! n) \<and>
       ex_op (pg_exchanges p ! n) \<noteq> None \<and>
       ex_generation (pg_exchanges p ! n) \<in> set (ex_waits (pg_exchanges p ! n)) \<and>
       ss_stream_writer s = ex_stream_started (pg_exchanges p ! n) \<and>
       streaming_op s = resuming (pg_exchanges p ! n) \<and>
       (xi_callback_throws (gi_exchange x') \<or>
        \<not> ss_exchange (pg_session p') \<and> (ss_finished (pg_session p') \<or> ss_op (pg_session p') \<noteq> None)))"
proof -
  have s0: "quiet s0" "within_limit s0"
    using new_session_quiet [OF assms(1)] by simp_all
  have "session_inv s1"
    using session_start_inv [OF s0 assms(2)] .
  moreover have "\<not> ss_exchange s1"
    using assms(2) s0 read_request_exchange [of s0 x]
    by (auto simp: quiet_def session_start_def begin_op_def split: if_splits)
  ultimately have "joined False (proxying_new s1 pool)"
    by (simp add: joined_def proxying_new_def)
  then have p: "joined False p"
    unfolding assms(5) using assms(3,4) by (rule proxying_run_joined)
  have p': "joined False p'"
    unfolding assms(8) using p assms(3) by (rule proxying_step_joined) simp
  have waits: "ss_op t \<noteq> None" if "session_inv t" "\<not> ss_finished t" "\<not> ss_exchange t" for t :: "'a session"
    using that by (cases "ss_op t") (auto simp: session_inv_def engaged_def proxied_def)
  have s: "session_inv s" and s': "session_inv (pg_session p')"
    using p p' by (simp_all add: joined_def Let_def assms(6))
  show ?thesis
  proof (cases "ss_exchange s")
    case held: True
    then have es: "pg_exchanges p \<noteq> []" "linked False s (last (pg_exchanges p))" "list_all over (butlast (pg_exchanges p))"
      using p by (simp_all add: joined_def Let_def assms(6))
    then have n: "n < length (pg_exchanges p)" "last (pg_exchanges p) = pg_exchanges p ! n"
      by (simp_all add: assms(7) last_conv_nth)
    have "over (pg_exchanges p ! i)" if "i < length (pg_exchanges p)" "i \<noteq> n" for i
      using es(3) that by (auto simp: list_all_length nth_butlast assms(7))
    moreover have "\<not> ss_exchange (pg_session p')" if "\<not> xi_callback_throws (gi_exchange x')"
      using deadline_releases [OF p assms(3) _ that assms(7,8)] held by (simp add: assms(6))
    moreover have "\<not> over (pg_exchanges p ! n)" "ex_op (pg_exchanges p ! n) \<noteq> None"
      "ex_generation (pg_exchanges p ! n) \<in> set (ex_waits (pg_exchanges p ! n))"
      using es(2) n by (auto simp: linked_def waiting_def active_def pending_def over_def)
    ultimately show ?thesis
      using held es(2) n exchange_open(2) [OF s held] waits [OF s'] by (auto simp: linked_def)
  next
    case False
    then have "list_all over (pg_exchanges p)"
      using p by (simp add: joined_def Let_def assms(6))
    then show ?thesis
      using False waits [OF s] by (auto simp: list_all_length)
  qed
qed

text \<open>A connection with one request, for which an exchange runs.\<close>

definition sample_routed :: app_config where
  "sample_routed = AppConfig_default\<lparr>cfg_routes := [sample_route ''/api'']\<rparr>"

definition sample_routed_admission :: route_proxy_admission where
  "sample_routed_admission =
     (case admission_run (cfg_routes sample_routed) 2 0 [] of Inr (a, ps) \<Rightarrow> a | Inl e \<Rightarrow> sample_admission)"

definition sample_routed_session :: "int session result" where
  "sample_routed_session = HttpSession_new sample_routed True (Some sample_routed_admission)
     (Some (BufferBudgetState_new 100000)) None None True False"

definition sample_routed_opened :: "bool \<times> int session" where
  "sample_routed_opened = session_start sample_session_input (projr sample_routed_session)"

definition sample_proxying_input :: proxying_input where
  "sample_proxying_input = \<lparr>gi_session = sample_session_input, gi_exchange = sample_input, gi_identity = 0\<rparr>"

definition sample_routed_view :: request_view where
  "sample_routed_view =
     \<lparr>rv_request = sample_request Get ''/api/x'', rv_content_length = None, rv_done = True\<rparr>"

definition sample_proxying_events :: "(proxying_input \<times> int proxying_event) list" where
  "sample_proxying_events = [(sample_proxying_input, Pg_session (Se_read_header None sample_routed_view))]"

lemma sample_routed_starts: "isl sample_routed_session = False" "fst sample_routed_opened = False"
  by code_simp+

lemma sample_routed_holds:
  "ss_exchange (snd sample_routed_opened) = False"
  "ss_exchange (session_step sample_libs (snd sample_routed_opened)
     (sample_session_input, Se_read_header None sample_routed_view))"
  by code_simp+

definition sample_wanted :: "'d session \<Rightarrow> selected_upstream option" where
  "sample_wanted s =
     Option.bind (select_http_route sample_beast (ss_config s) (rv_request sample_routed_view)) (\<lambda>route.
       case snd (RouteProxyAdmission_try_acquire (ss_admission s) route 0) of
         Inl _ \<Rightarrow> None | Inr r \<Rightarrow> ar_upstream r)"

lemma sample_routed_upstream:
  "map_option (\<lambda>u. up_scheme (su_upstream u)) (sample_wanted (snd sample_routed_opened)) = Some Http"
  by code_simp

lemma http_exchange_starts:
  assumes "up_scheme (su_upstream u) = Http" "req_method request = Get" "req_body request = []"
  shows "\<exists>e0 e1. HttpProxyExchange_new B x u request context (Some budget) (True, True, True) None ident = Inr e0 \<and>
    exchange_start sample_input e0 = (False, e1)"
  using assms
  by (simp add: HttpProxyExchange_new_def make_upstream_request_def UpstreamConnection_new_def Let_def
      exchange_start_def begin_deadline_def initiate_def and_then_def sample_input_def)

lemma sample_proxying_runs:
  "ss_exchange (pg_session (proxying_run sample_net sample_libs
     (proxying_new (snd sample_routed_opened) None) sample_proxying_events))"
proof -
  let ?s = "snd sample_routed_opened" and ?x = sample_proxying_input
  let ?p = "proxying_new ?s None"
  obtain u where u: "sample_wanted ?s = Some u" "up_scheme (su_upstream u) = Http"
    using sample_routed_upstream by auto
  have "req_method (rv_request sample_routed_view) = Get" "req_body (rv_request sample_routed_view) = []"
    by (simp_all add: sample_routed_view_def sample_request_def HttpRequest_new_def)
  from http_exchange_starts [OF u(2) this]
  obtain e0 e1 where e: "HttpProxyExchange_new sample_beast sample_input u (rv_request sample_routed_view)
      (cfg_upstream_tls_context (ss_config ?s)) (Some (ss_budget ?s)) (True, True, True) None 0 = Inr e0"
      "exchange_start sample_input e0 = (False, e1)"
    by meson
  have x: "lib_beast sample_libs = sample_beast" "si_now (gi_session ?x) = 0" "gi_exchange ?x = sample_input"
    "gi_identity ?x = 0" "pg_session ?p = ?s" "pg_pool ?p = None"
    by (simp_all add: sample_proxying_input_def sample_libs_def sample_session_input_def proxying_new_def)
  obtain route where route: "select_http_route sample_beast (ss_config ?s) (rv_request sample_routed_view) = Some route"
      "(case snd (RouteProxyAdmission_try_acquire (ss_admission ?s) route 0) of Inl _ \<Rightarrow> None | Inr r \<Rightarrow> ar_upstream r) = Some u"
    using u(1) unfolding sample_wanted_def bind_eq_Some_conv by blast
  then obtain r where "snd (RouteProxyAdmission_try_acquire (ss_admission ?s) route 0) = Inr r" "ar_upstream r = Some u"
    by (cases "snd (RouteProxyAdmission_try_acquire (ss_admission ?s) route 0)") simp_all
  then have "wanted_exchange sample_libs ?x sample_routed_view ?p = Some (Inr e0)"
    using e(1) route(1) by (simp add: wanted_exchange_def x)
  moreover have "with_outcome Exchange_started ?x = sample_session_input"
    by (simp add: with_outcome_def sample_proxying_input_def sample_session_input_def)
  ultimately show ?thesis
    using sample_routed_holds e(2)
    by (simp add: proxying_run_def run_steps_def sample_proxying_events_def session_side_def proxying_new_def
        sample_proxying_input_def Let_def del: session_step.simps)
qed

theorem proxying_lifecycle_witness:
  "\<exists>s0 s1 p n. sample_routed_session = Inr s0 \<and> session_start sample_session_input s0 = (False, s1) \<and>
     p = proxying_run sample_net sample_libs (proxying_new s1 None) sample_proxying_events \<and>
     n < length (pg_exchanges p) \<and> ss_exchange (pg_session p) \<and>
     \<not> ss_exchange (pg_session (proxying_step sample_net sample_libs p
       (sample_proxying_input, Pg_exchange n (Xe_deadline (ex_generation (pg_exchanges p ! n)) None))))"
proof -
  obtain s0 where s0: "sample_routed_session = Inr s0"
    using sample_routed_starts(1) sum.collapse(2) [of sample_routed_session] by metis
  obtain s1 where s1: "session_start sample_session_input s0 = (False, s1)" "snd sample_routed_opened = s1"
    using sample_routed_starts(2)
    by (cases "session_start sample_session_input s0") (simp add: sample_routed_opened_def s0)
  have ok: "beast_closes (lib_beast sample_libs)" "list_all proxying_input_ok sample_proxying_events"
    by (simp_all add: sample_libs_def sample_beast_closes sample_proxying_events_def sample_proxying_input_def
        sample_session_input_def)
  define p where "p = proxying_run sample_net sample_libs (proxying_new s1 None) sample_proxying_events"
  define n where "n = length (pg_exchanges p) - 1"
  have "ss_exchange (pg_session p)" "\<not> xi_callback_throws (gi_exchange sample_proxying_input)"
    using sample_proxying_runs by (simp_all add: p_def s1(2) sample_proxying_input_def sample_input_def)
  then have "n < length (pg_exchanges p)" "ss_exchange (pg_session p)"
    "\<not> ss_exchange (pg_session (proxying_step sample_net sample_libs p
       (sample_proxying_input, Pg_exchange n (Xe_deadline (ex_generation (pg_exchanges p ! n)) None))))"
    using proxying_lifecycle [OF s0 [unfolded sample_routed_session_def] s1(1) ok p_def refl n_def refl] by blast+
  then show ?thesis
    using s0 s1(1) p_def by blast
qed

end
